(* ===== verification/Prelude.thy ===== *)
theory Prelude
  imports Complex_Main "HOL-Library.Word" "HOL-Library.AList"
begin

text \<open>
  Shared vocabulary of the development: Python exceptions as values, loops that may raise,
  Python's integer ceiling division and the byte strings used as block hashes.
\<close>

named_theorems py_simps \<open>unfolding rules for the exception-passing combinators\<close>

subsection \<open>Exceptions as values\<close>

text \<open>
  A Python call that may raise is a value of type \<open>'a result\<close>: \<open>Inl\<close> carries the exception class,
  \<open>Inr\<close> the returned value. An exception that escapes a method of the modelled classes ends the
  engine step, so the partially updated state is not part of the error value. The last constructor
  is not an exception class: it stands for a loop that never returns.
\<close>

datatype py_error =
    AssertionError | ValueError | RuntimeError | IndexError | KeyError | NotImplementedError
  | OverflowError | StopIteration | ZeroDivisionError | TypeError | AttributeError
  | NonTermination

type_synonym 'a result = "py_error + 'a"

definition res_bind :: "'a result \<Rightarrow> ('a \<Rightarrow> 'b result) \<Rightarrow> 'b result" where
  "res_bind m f = (case m of Inl e \<Rightarrow> Inl e | Inr x \<Rightarrow> f x)"

definition py_assert :: "bool \<Rightarrow> unit result" where
  "py_assert b = (if b then Inr () else Inl AssertionError)"

text \<open>\<open>for x in xs: s = f(s, x)\<close>, stopping at the first exception.\<close>

fun res_fold :: "('s \<Rightarrow> 'a \<Rightarrow> 's result) \<Rightarrow> 's \<Rightarrow> 'a list \<Rightarrow> 's result" where
  "res_fold f s [] = Inr s"
| "res_fold f s (x # xs) = res_bind (f s x) (\<lambda>s'. res_fold f s' xs)"

text \<open>A comprehension \<open>[f(x) for x in xs]\<close> whose body may raise.\<close>

fun res_map :: "('a \<Rightarrow> 'b result) \<Rightarrow> 'a list \<Rightarrow> 'b list result" where
  "res_map f [] = Inr []"
| "res_map f (x # xs) = res_bind (f x) (\<lambda>y. res_bind (res_map f xs) (\<lambda>ys. Inr (y # ys)))"

text \<open>
  Loops that may run forever are \<open>partial_function (option)\<close>s; a call of such a loop from the
  exception-passing code turns the missing value into \<open>NonTermination\<close>.
\<close>

fun returned :: "('a result) option \<Rightarrow> 'a result" where
  "returned None = Inl NonTermination"
| "returned (Some r) = r"

lemma res_bind_Inr [simp, py_simps]: "res_bind (Inr x) f = f x"
  by (simp add: res_bind_def)

lemma res_bind_Inl [simp, py_simps]: "res_bind (Inl e) f = Inl e"
  by (simp add: res_bind_def)

lemma py_assert_True [simp, py_simps]: "py_assert True = Inr ()"
  by (simp add: py_assert_def)

lemma py_assert_False [simp, py_simps]: "py_assert False = Inl AssertionError"
  by (simp add: py_assert_def)

lemma res_bind_eq_Inr [py_simps]: "res_bind m f = Inr y \<longleftrightarrow> (\<exists>x. m = Inr x \<and> f x = Inr y)"
  by (cases m) auto

lemma py_assert_eq_Inr [simp]: "py_assert b = Inr u \<longleftrightarrow> b"
  by (simp add: py_assert_def)

lemma res_bind_assert: "res_bind (py_assert b) f = (if b then f () else Inl AssertionError)"
  by (simp add: py_assert_def)

lemma res_fold_append:
  "res_fold f s (xs @ ys) = res_bind (res_fold f s xs) (\<lambda>s'. res_fold f s' ys)"
  by (induction xs arbitrary: s) (auto simp: res_bind_def split: sum.splits)

text \<open>The loop rule: an invariant of the processed prefix that every iteration re-establishes.\<close>

lemma res_fold_prefix:
  assumes "I [] s"
    and "\<And>ys x zs t. xs = ys @ x # zs \<Longrightarrow> I ys t \<Longrightarrow> \<exists>t'. f t x = Inr t' \<and> I (ys @ [x]) t'"
  shows "\<exists>s'. res_fold f s xs = Inr s' \<and> I xs s'"
  using assms(2)
proof (induction xs rule: rev_induct)
  case Nil
  then show ?case using assms(1) by simp
next
  case (snoc x xs)
  have "\<exists>t. res_fold f s xs = Inr t \<and> I xs t"
    by (rule snoc.IH) (use snoc.prems in force)
  then obtain t where t: "res_fold f s xs = Inr t" "I xs t" by blast
  moreover obtain t' where "f t x = Inr t'" "I (xs @ [x]) t'"
    using snoc.prems[of xs x "[]" t] t(2) by auto
  ultimately show ?case by (auto simp: res_fold_append)
qed

lemma res_fold_inv:
  assumes "I s" and "\<And>x t. x \<in> set xs \<Longrightarrow> I t \<Longrightarrow> \<exists>t'. f t x = Inr t' \<and> I t'"
  shows "\<exists>s'. res_fold f s xs = Inr s' \<and> I s'"
  using res_fold_prefix[of "\<lambda>_. I" s xs f] assms by auto

text \<open>The same loops read backwards: what holds of a loop that is known to have returned.\<close>

lemma res_fold_Inr_inv:
  assumes "res_fold f s xs = Inr s'" and "I s"
    and "\<And>x t t'. x \<in> set xs \<Longrightarrow> I t \<Longrightarrow> f t x = Inr t' \<Longrightarrow> I t'"
  shows "I s'"
  using assms
proof (induction xs arbitrary: s)
  case (Cons x xs)
  from Cons.prems(1) obtain t where t: "f s x = Inr t" "res_fold f t xs = Inr s'"
    by (auto simp: res_bind_eq_Inr)
  show ?case
    by (rule Cons.IH[OF t(2)]) (use Cons.prems t(1) in \<open>auto intro: Cons.prems(3)\<close>)
qed simp

lemma res_map_Inr_length: "res_map f xs = Inr ys \<Longrightarrow> length ys = length xs"
  by (induction xs arbitrary: ys) (auto simp: res_bind_eq_Inr)

lemma res_map_Inr_nth: "res_map f xs = Inr ys \<Longrightarrow> i < length xs \<Longrightarrow> f (xs ! i) = Inr (ys ! i)"
  by (induction xs arbitrary: ys i) (auto simp: res_bind_eq_Inr nth_Cons split: nat.splits)

lemma res_map_total:
  "(\<And>x. x \<in> set xs \<Longrightarrow> \<exists>y. f x = Inr y) \<Longrightarrow> \<exists>ys. res_map f xs = Inr ys"
  by (induction xs) (auto simp: res_bind_def, force)

lemma res_map_pure: "(\<And>x. x \<in> set xs \<Longrightarrow> f x = Inr (g x)) \<Longrightarrow> res_map f xs = Inr (map g xs)"
  by (induction xs) auto

lemma res_map_cong [fundef_cong]:
  "xs = ys \<Longrightarrow> (\<And>x. x \<in> set ys \<Longrightarrow> f x = g x) \<Longrightarrow> res_map f xs = res_map g ys"
  by (induction ys arbitrary: xs) auto

lemma res_bind_assoc: "res_bind (res_bind m f) g = res_bind m (\<lambda>x. res_bind (f x) g)"
  by (cases m) simp_all

lemma res_bind_cong [fundef_cong]:
  "m = m' \<Longrightarrow> (\<And>x. m' = Inr x \<Longrightarrow> f x = g x) \<Longrightarrow> res_bind m f = res_bind m' g"
  by (cases m') auto

subsection \<open>Integers\<close>

text \<open>\<open>vllm/utils/math_utils.py\<close>: \<open>cdiv(a, b) = -(a // -b)\<close>; HOL's \<open>div\<close> rounds down as Python's \<open>//\<close>.\<close>

definition cdiv :: "int \<Rightarrow> int \<Rightarrow> int" where
  "cdiv a b = - (a div (- b))"

lemma int_le_div_iff:
  fixes k b x :: int
  assumes b: "0 < b"
  shows "k \<le> x div b \<longleftrightarrow> k * b \<le> x"
proof
  assume "k \<le> x div b"
  then have "k * b \<le> x div b * b" using b by (simp add: mult_right_mono)
  also have "\<dots> \<le> x"
    using pos_mod_sign[OF b, of x] minus_mod_eq_div_mult[of x b] by linarith
  finally show "k * b \<le> x" .
next
  assume "k * b \<le> x"
  then have "k * b div b \<le> x div b" using b by (rule zdiv_mono1)
  then show "k \<le> x div b" using b by simp
qed

lemma cdiv_le_iff: "0 < b \<Longrightarrow> cdiv a b \<le> k \<longleftrightarrow> a \<le> k * b"
proof -
  assume b: "0 < b"
  have "a div (- b) = (- a) div b" by (metis div_minus_minus minus_minus)
  then have "cdiv a b \<le> k \<longleftrightarrow> - k \<le> (- a) div b" by (auto simp: cdiv_def)
  also have "\<dots> \<longleftrightarrow> - k * b \<le> - a" by (rule int_le_div_iff[OF b])
  finally show ?thesis by simp
qed

lemma cdiv_mult_ge: "0 < b \<Longrightarrow> a \<le> cdiv a b * b"
  using cdiv_le_iff[of b a "cdiv a b"] by simp

lemma cdiv_mono: "0 < b \<Longrightarrow> a \<le> a' \<Longrightarrow> cdiv a b \<le> cdiv a' b"
  using cdiv_le_iff[of b a "cdiv a' b"] cdiv_mult_ge[of b a'] by linarith

lemma cdiv_nonneg: "0 < b \<Longrightarrow> 0 \<le> a \<Longrightarrow> 0 \<le> cdiv a b"
  using cdiv_mono[of b 0 a] by (simp add: cdiv_def)

lemma cdiv_pos: "0 < b \<Longrightarrow> 0 < a \<Longrightarrow> 0 < cdiv a b"
  using cdiv_le_iff[of b a 0] by linarith

lemma cdiv_mult_lt: "0 < b \<Longrightarrow> cdiv a b * b < a + b"
  using cdiv_le_iff[of b a "cdiv a b - 1"] by (auto simp: algebra_simps)

subsection \<open>Byte strings\<close>

text \<open>Python \<open>bytes\<close>, and \<open>int.to_bytes(n, "big")\<close> / \<open>int.from_bytes(b, "big")\<close>.\<close>

type_synonym bytes = "8 word list"

fun to_bytes_be :: "nat \<Rightarrow> nat \<Rightarrow> bytes" where
  "to_bytes_be 0 k = []"
| "to_bytes_be (Suc n) k = to_bytes_be n (k div 256) @ [word_of_nat (k mod 256)]"

definition from_bytes_be :: "bytes \<Rightarrow> nat" where
  "from_bytes_be bs = foldl (\<lambda>acc b. acc * 256 + unat b) 0 bs"

lemma length_to_bytes_be [simp]: "length (to_bytes_be n k) = n"
  by (induction n arbitrary: k) auto

lemma from_bytes_be_snoc [simp]: "from_bytes_be (bs @ [b]) = from_bytes_be bs * 256 + unat b"
  by (simp add: from_bytes_be_def)

lemma from_to_bytes_be: "from_bytes_be (to_bytes_be n k) = k mod 256 ^ n"
proof (induction n arbitrary: k)
  case 0
  then show ?case by (simp add: from_bytes_be_def)
next
  case (Suc n)
  have u: "unat (word_of_nat (k mod 256) :: 8 word) = k mod 256"
    by (simp add: unat_of_nat)
  have "from_bytes_be (to_bytes_be (Suc n) k) = (k div 256 mod 256 ^ n) * 256 + k mod 256"
    by (simp only: to_bytes_be.simps from_bytes_be_snoc Suc.IH u)
  also have "\<dots> = k mod 256 ^ Suc n"
    by (simp add: mod_mult2_eq)
  finally show ?case .
qed

end
