(* ===== verification/Requests.thy ===== *)
theory Requests
  imports Prelude "HOL-Library.List_Lexorder" "HOL-Library.Char_ord"
begin

text \<open>
  Requests (\<open>vllm/v1/request.py\<close>) and the scheduler's request utilities
  (\<open>vllm/v1/core/sched/utils.py\<close>): the request object with its constructor, token appending, the
  status enumeration with its order, the priority order of requests and the stop check.
\<close>

section \<open>Status\<close>

datatype RequestStatus =
    WAITING | WAITING_FOR_FSM | WAITING_FOR_REMOTE_KVS | RUNNING | PREEMPTED
  | FINISHED_STOPPED | FINISHED_LENGTH_CAPPED | FINISHED_ABORTED | FINISHED_IGNORED

text \<open>\<open>enum.auto()\<close> numbers the members of an \<open>IntEnum\<close> from 1 in order of declaration.\<close>

fun status_value :: "RequestStatus \<Rightarrow> int" where
  "status_value WAITING = 1"
| "status_value WAITING_FOR_FSM = 2"
| "status_value WAITING_FOR_REMOTE_KVS = 3"
| "status_value RUNNING = 4"
| "status_value PREEMPTED = 5"
| "status_value FINISHED_STOPPED = 6"
| "status_value FINISHED_LENGTH_CAPPED = 7"
| "status_value FINISHED_ABORTED = 8"
| "status_value FINISHED_IGNORED = 9"

lemma status_value_inj: "status_value s = status_value t \<Longrightarrow> s = t"
  by (cases s; cases t) simp_all

instantiation RequestStatus :: linorder
begin

definition less_eq_RequestStatus :: "RequestStatus \<Rightarrow> RequestStatus \<Rightarrow> bool" where
  "less_eq_RequestStatus s t \<longleftrightarrow> status_value s \<le> status_value t"

definition less_RequestStatus :: "RequestStatus \<Rightarrow> RequestStatus \<Rightarrow> bool" where
  "less_RequestStatus s t \<longleftrightarrow> status_value s < status_value t"

instance
  by standard (auto simp: less_eq_RequestStatus_def less_RequestStatus_def dest: status_value_inj)

end

datatype FinishReason = FR_STOP | FR_LENGTH | FR_ABORT

definition is_finished_status :: "RequestStatus \<Rightarrow> bool" where
  "is_finished_status status \<longleftrightarrow> status > PREEMPTED"

definition get_finished_reason_status :: "RequestStatus \<Rightarrow> FinishReason option" where
  "get_finished_reason_status status =
     map_of [(FINISHED_STOPPED, FR_STOP), (FINISHED_LENGTH_CAPPED, FR_LENGTH),
             (FINISHED_ABORTED, FR_ABORT), (FINISHED_IGNORED, FR_LENGTH)] status"

section \<open>The request object\<close>

text \<open>Objects that the engine stores and passes on without looking at them.\<close>

type_synonym py_obj = string

record PlaceholderRange =
  offset :: int
  length_p :: int

record MultiModalFeatureSpec =
  modality :: string
  mm_identifier :: string
  mm_position :: PlaceholderRange

text \<open>
  Of \<open>SamplingParams\<close> and \<open>PoolingParams\<close> only the attributes that the request code reads.
  \<open>structured_outputs\<close> records whether \<open>StructuredOutputRequest.from_sampling_params\<close> returns an
  object, that is, whether some output constraint is set.
\<close>

record SamplingParams =
  sp_max_tokens :: "int option"
  min_tokens :: int
  stop_token_ids :: "int list option"
  ignore_eos :: bool
  sp_skip_reading_prefix_cache :: "bool option"
  structured_outputs :: bool
  extra_args :: "(string \<times> py_obj) list option"

record PoolingParams =
  pp_skip_reading_prefix_cache :: "bool option"

record LoRARequest =
  lora_name :: string
  adapter_id :: int

datatype EngineCoreEventType = EV_QUEUED | EV_SCHEDULED | EV_PREEMPTED

text \<open>
  The record of the attributes that \<open>Request.__init__\<close> sets. \<open>obj_id\<close> is Python's \<open>id(self)\<close>, which
  is also what \<open>==\<close> and hashing of requests compare. \<open>prompt_embeds\<close> holds the raw bytes of one
  embedding row per token. The read-only views \<open>output_token_ids\<close> and \<open>all_token_ids\<close> share the lists
  \<open>_output_token_ids\<close> and \<open>_all_token_ids\<close> and are these fields.
\<close>

record Request =
  obj_id :: int
  request_id :: string
  client_index :: int
  priority :: int
  sampling_params :: "SamplingParams option"
  pooling_params :: "PoolingParams option"
  eos_token_id :: "int option"
  lora_request :: "LoRARequest option"
  structured_output_request :: bool
  arrival_time :: rat
  status :: RequestStatus
  events :: "(EngineCoreEventType \<times> rat) list"
  stop_reason :: "int option"
  kv_transfer_params :: "py_obj option"
  max_tokens :: int
  prompt_token_ids :: "int list option"
  prompt_embeds :: "bytes list option"
  num_prompt_tokens :: int
  output_token_ids :: "int list"
  all_token_ids :: "int list"
  num_output_placeholders :: int
  discard_latest_async_tokens :: bool
  spec_token_ids :: "int list"
  num_computed_tokens :: int
  cache_salt :: "string option"
  mm_features :: "MultiModalFeatureSpec list"
  trace_headers :: "py_obj option"
  num_cached_tokens :: int
  num_nans_in_logits :: int
  num_preemptions :: int
  num_external_computed_tokens :: int
  block_hashes :: "bytes list"
  skip_reading_prefix_cache :: bool
  additional_information :: "py_obj option"

text \<open>The constructor arguments, which \<open>from_engine_core_request\<close> takes from the wire format.\<close>

record EngineCoreRequest =
  er_request_id :: string
  er_client_index :: int
  er_prompt_token_ids :: "int list option"
  er_prompt_embeds :: "bytes list option"
  er_mm_features :: "MultiModalFeatureSpec list option"
  er_sampling_params :: "SamplingParams option"
  er_pooling_params :: "PoolingParams option"
  er_eos_token_id :: "int option"
  er_arrival_time :: "rat option"
  er_lora_request :: "LoRARequest option"
  er_cache_salt :: "string option"
  er_priority :: int
  er_trace_headers :: "py_obj option"
  er_additional_information :: "py_obj option"

definition length_from_prompt_token_ids_or_embeds ::
    "int list option \<Rightarrow> bytes list option \<Rightarrow> int result" where
  "length_from_prompt_token_ids_or_embeds ids embeds =
     (case ids of
        None \<Rightarrow> (case embeds of None \<Rightarrow> Inl ValueError | Some e \<Rightarrow> Inr (int (length e)))
      | Some t \<Rightarrow> (case embeds of
            None \<Rightarrow> Inr (int (length t))
          | Some e \<Rightarrow> if length e \<noteq> length t then Inl ValueError else Inr (int (length t))))"

definition get_skip_reading_prefix_cache :: "SamplingParams option \<Rightarrow> PoolingParams option \<Rightarrow> bool" where
  "get_skip_reading_prefix_cache sp pp =
     (case Option.bind sp sp_skip_reading_prefix_cache of
        Some b \<Rightarrow> b
      | None \<Rightarrow> (case Option.bind pp pp_skip_reading_prefix_cache of Some b \<Rightarrow> b | None \<Rightarrow> False))"

text \<open>
  \<open>Request.__init__\<close>. The block hasher is an argument of the constructor in the code as well; it is
  called on the otherwise complete object.
\<close>

type_synonym block_hasher = "Request \<Rightarrow> bytes list result"

definition Request_max_tokens :: "EngineCoreRequest \<Rightarrow> (int \<times> RequestStatus \<times> py_obj option) result" where
  "Request_max_tokens e =
     (if er_pooling_params e \<noteq> None then Inr (1, WAITING, None)
      else case er_sampling_params e of
          None \<Rightarrow> Inl ValueError
        | Some sp \<Rightarrow> (case sp_max_tokens sp of
              None \<Rightarrow> Inl AssertionError
            | Some mt \<Rightarrow> Inr (mt, if structured_outputs sp then WAITING_FOR_FSM else WAITING,
                Option.bind (extra_args sp) (\<lambda>args. map_of args ''kv_transfer_params''))))"

definition new_Request :: "int \<Rightarrow> rat \<Rightarrow> EngineCoreRequest \<Rightarrow> int \<Rightarrow> RequestStatus \<Rightarrow> py_obj option \<Rightarrow> int \<Rightarrow> Request" where
  "new_Request oid now e mt st kvp npt =
     \<lparr>obj_id = oid, request_id = er_request_id e, client_index = er_client_index e,
      priority = er_priority e, sampling_params = er_sampling_params e,
      pooling_params = er_pooling_params e, eos_token_id = er_eos_token_id e,
      lora_request = er_lora_request e,
      structured_output_request = (case er_sampling_params e of None \<Rightarrow> False | Some sp \<Rightarrow> structured_outputs sp),
      arrival_time = (case er_arrival_time e of Some t \<Rightarrow> t | None \<Rightarrow> now),
      status = st, events = [], stop_reason = None, kv_transfer_params = kvp,
      max_tokens = mt, prompt_token_ids = er_prompt_token_ids e,
      prompt_embeds = er_prompt_embeds e, num_prompt_tokens = npt, output_token_ids = [],
      all_token_ids = (case er_prompt_token_ids e of Some t \<Rightarrow> t | None \<Rightarrow> replicate (nat npt) 0),
      num_output_placeholders = 0, discard_latest_async_tokens = False, spec_token_ids = [],
      num_computed_tokens = 0, cache_salt = er_cache_salt e,
      mm_features = (case er_mm_features e of Some fs \<Rightarrow> fs | None \<Rightarrow> []),
      trace_headers = er_trace_headers e, num_cached_tokens = - 1, num_nans_in_logits = 0,
      num_preemptions = 0, num_external_computed_tokens = 0, block_hashes = [],
      skip_reading_prefix_cache = get_skip_reading_prefix_cache (er_sampling_params e) (er_pooling_params e),
      additional_information = er_additional_information e\<rparr>"

definition Request_init :: "block_hasher option \<Rightarrow> int \<Rightarrow> rat \<Rightarrow> EngineCoreRequest \<Rightarrow> Request result" where
  "Request_init hasher oid now e =
     res_bind (Request_max_tokens e) (\<lambda>(mt, st, kvp).
     res_bind (length_from_prompt_token_ids_or_embeds (er_prompt_token_ids e) (er_prompt_embeds e)) (\<lambda>npt.
       let r = new_Request oid now e mt st kvp npt
       in case hasher of
            None \<Rightarrow> Inr r
          | Some h \<Rightarrow> res_bind (h r) (\<lambda>hs. Inr (r\<lparr>block_hashes := hs\<rparr>))))"

definition append_output_token_ids :: "block_hasher option \<Rightarrow> int list \<Rightarrow> Request \<Rightarrow> Request result" where
  "append_output_token_ids hasher token_ids r =
     (let r = r\<lparr>output_token_ids := output_token_ids r @ token_ids,
                all_token_ids := all_token_ids r @ token_ids\<rparr>
      in case hasher of
           None \<Rightarrow> Inr r
         | Some h \<Rightarrow> res_bind (h r) (\<lambda>hs. Inr (r\<lparr>block_hashes := block_hashes r @ hs\<rparr>)))"

definition use_structured_output :: "Request \<Rightarrow> bool" where
  "use_structured_output r = structured_output_request r"

definition num_tokens :: "Request \<Rightarrow> int" where
  "num_tokens r = int (length (all_token_ids r))"

definition num_tokens_with_spec :: "Request \<Rightarrow> int" where
  "num_tokens_with_spec r = int (length (all_token_ids r)) + int (length (spec_token_ids r))"

definition num_output_tokens :: "Request \<Rightarrow> int" where
  "num_output_tokens r = int (length (output_token_ids r))"

definition is_finished :: "Request \<Rightarrow> bool" where
  "is_finished r = is_finished_status (status r)"

definition get_finished_reason :: "Request \<Rightarrow> FinishReason option" where
  "get_finished_reason r = get_finished_reason_status (status r)"

definition num_encoder_inputs :: "Request \<Rightarrow> nat" where
  "num_encoder_inputs r = length (mm_features r)"

definition get_num_encoder_tokens :: "Request \<Rightarrow> nat \<Rightarrow> int result" where
  "get_num_encoder_tokens r input_id =
     res_bind (py_assert (input_id < length (mm_features r))) (\<lambda>_.
       Inr (length_p (mm_position (mm_features r ! input_id))))"

definition record_event :: "EngineCoreEventType \<Rightarrow> rat \<Rightarrow> Request \<Rightarrow> Request" where
  "record_event ev timestamp r = r\<lparr>events := events r @ [(ev, timestamp)]\<rparr>"

definition take_request_events :: "Request \<Rightarrow> (EngineCoreEventType \<times> rat) list option \<times> Request" where
  "take_request_events r = (if events r = [] then (None, r) else (Some (events r), r\<lparr>events := []\<rparr>))"

text \<open>\<open>Request.__lt__\<close>; strings compare lexicographically by code point.\<close>

definition request_lt :: "Request \<Rightarrow> Request \<Rightarrow> bool" where
  "request_lt a b =
     (if priority a \<noteq> priority b then priority a < priority b
      else if arrival_time a \<noteq> arrival_time b then arrival_time a < arrival_time b
      else if request_id a \<noteq> request_id b then request_id a < request_id b
      else obj_id a < obj_id b)"

section \<open>Scheduler utilities\<close>

text \<open>The set of items to remove is given by its elements.\<close>

definition remove_all :: "'a list \<Rightarrow> 'a list \<Rightarrow> 'a list" where
  "remove_all lst items_to_remove =
     (if items_to_remove = [] then lst
      else if length items_to_remove = 1 then remove1 (hd items_to_remove) lst
      else filter (\<lambda>item. item \<notin> set items_to_remove) lst)"

definition check_stop :: "Request \<Rightarrow> int \<Rightarrow> 'p option \<Rightarrow> (bool \<times> Request) result" where
  "check_stop r max_model_len pooler_output =
     (if pooling_params r \<noteq> None then
        (if pooler_output \<noteq> None then Inr (True, r\<lparr>status := FINISHED_STOPPED\<rparr>) else Inr (False, r))
      else case sampling_params r of
        None \<Rightarrow> Inl AssertionError
      | Some sp \<Rightarrow>
          if num_output_tokens r < min_tokens sp then Inr (False, r)
          else if output_token_ids r = [] then Inl IndexError
          else let last_token_id = last (output_token_ids r) in
            if \<not> ignore_eos sp \<and> Some last_token_id = eos_token_id r
            then Inr (True, r\<lparr>status := FINISHED_STOPPED\<rparr>)
            else if last_token_id \<in> set (case stop_token_ids sp of Some l \<Rightarrow> l | None \<Rightarrow> [])
            then Inr (True, r\<lparr>status := FINISHED_STOPPED, stop_reason := Some last_token_id\<rparr>)
            else if num_tokens r \<ge> max_model_len \<or> num_output_tokens r \<ge> max_tokens r
            then Inr (True, r\<lparr>status := FINISHED_LENGTH_CAPPED\<rparr>)
            else Inr (False, r))"


section \<open>Lemmas\<close>

lemma is_finished_status_iff:
  "is_finished_status st \<longleftrightarrow>
     st \<in> {FINISHED_STOPPED, FINISHED_LENGTH_CAPPED, FINISHED_ABORTED, FINISHED_IGNORED}"
  by (cases st) (simp_all add: is_finished_status_def less_RequestStatus_def)

lemma finished_reason_iff: "get_finished_reason_status st \<noteq> None \<longleftrightarrow> is_finished_status st"
  by (cases st) (simp_all add: get_finished_reason_status_def is_finished_status_iff)

text \<open>The order of requests: a strict linear order on different objects.\<close>

lemma request_lt_irrefl: "\<not> request_lt a a"
  by (simp add: request_lt_def)

lemma request_lt_asym: "request_lt a b \<Longrightarrow> \<not> request_lt b a"
  by (auto simp: request_lt_def split: if_splits)

lemma request_lt_trans: "request_lt a b \<Longrightarrow> request_lt b c \<Longrightarrow> request_lt a c"
  by (auto simp: request_lt_def split: if_splits)

lemma request_lt_negtrans: "\<not> request_lt b a \<Longrightarrow> \<not> request_lt c b \<Longrightarrow> \<not> request_lt c a"
  by (auto simp: request_lt_def split: if_splits)

lemma request_lt_total: "obj_id a \<noteq> obj_id b \<Longrightarrow> request_lt a b \<or> request_lt b a"
  by (auto simp: request_lt_def)

lemma remove_all_filter:
  assumes "distinct lst" shows "remove_all lst items = filter (\<lambda>x. x \<notin> set items) lst"
proof (cases items)
  case (Cons a as)
  then show ?thesis
    using assms by (cases as) (simp_all add: remove_all_def distinct_remove1_removeAll removeAll_filter_not_eq
        eq_commute)
qed (simp add: remove_all_def)

text \<open>
  Well-formed requests: the token list is the prompt (zeros when only embeddings were given)
  followed by the generated tokens.
\<close>

definition request_wf :: "Request \<Rightarrow> bool" where
  "request_wf r \<longleftrightarrow>
     all_token_ids r =
       (case prompt_token_ids r of Some t \<Rightarrow> t | None \<Rightarrow> replicate (nat (num_prompt_tokens r)) 0)
         @ output_token_ids r \<and>
     num_tokens r = num_prompt_tokens r + num_output_tokens r"

lemma Request_max_tokens_status:
  "Request_max_tokens e = Inr (mt, st, kvp) \<Longrightarrow> \<not> is_finished_status st"
  by (auto simp: Request_max_tokens_def is_finished_status_iff split: option.splits if_splits)

lemma new_Request_sel [simp]:
  "status (new_Request oid now e mt st kvp npt) = st"
  "output_token_ids (new_Request oid now e mt st kvp npt) = []"
  "request_id (new_Request oid now e mt st kvp npt) = er_request_id e"
  "prompt_token_ids (new_Request oid now e mt st kvp npt) = er_prompt_token_ids e"
  "num_prompt_tokens (new_Request oid now e mt st kvp npt) = npt"
  "all_token_ids (new_Request oid now e mt st kvp npt)
     = (case er_prompt_token_ids e of Some t \<Rightarrow> t | None \<Rightarrow> replicate (nat npt) 0)"
  by (simp_all add: new_Request_def)

lemma prompt_length:
  "length_from_prompt_token_ids_or_embeds ids embeds = Inr npt \<Longrightarrow>
     int (length (case ids of Some t \<Rightarrow> t | None \<Rightarrow> replicate (nat npt) 0)) = npt"
  by (auto simp: length_from_prompt_token_ids_or_embeds_def split: option.splits if_splits)

lemma Request_init_wf:
  assumes "Request_init hasher oid now e = Inr r"
  shows "request_wf r \<and> output_token_ids r = [] \<and> \<not> is_finished r \<and> request_id r = er_request_id e"
proof -
  obtain mt st kvp npt where f: "Request_max_tokens e = Inr (mt, st, kvp)"
    "length_from_prompt_token_ids_or_embeds (er_prompt_token_ids e) (er_prompt_embeds e) = Inr npt"
    using assms by (auto simp: Request_init_def res_bind_eq_Inr)
  then obtain hs where "r = (new_Request oid now e mt st kvp npt)\<lparr>block_hashes := hs\<rparr> \<or>
      r = new_Request oid now e mt st kvp npt"
    using assms by (cases hasher) (auto simp: Request_init_def res_bind_eq_Inr Let_def)
  then show ?thesis
    using Request_max_tokens_status[OF f(1)] prompt_length[OF f(2)]
    by (auto simp: request_wf_def num_tokens_def num_output_tokens_def is_finished_def cong: option.case_cong)
qed

lemma append_output_wf:
  assumes "request_wf r" "append_output_token_ids hasher ts r = Inr r'"
  shows "request_wf r'" "output_token_ids r' = output_token_ids r @ ts"
  using assms
  by (auto simp: append_output_token_ids_def Let_def res_bind_eq_Inr request_wf_def num_tokens_def
      num_output_tokens_def split: option.splits)

lemma request_restore: "r\<lparr>status := status r, stop_reason := stop_reason r\<rparr> = r"
  by (cases r) simp

section \<open>Properties\<close>

text \<open>
  C31: the constructor yields a well-formed unfinished request, and appending any sequence of
  batches of generated tokens keeps it well formed: \<open>all_token_ids\<close> is always the prompt followed
  by \<open>output_token_ids\<close>, which holds the batches in order.
\<close>

theorem request_tokens_consistent:
  assumes "Request_init hasher oid now e = Inr r"
    and "res_fold (\<lambda>r ts. append_output_token_ids hasher ts r) r batches = Inr r'"
  shows "request_wf r' \<and> output_token_ids r' = concat batches"
proof -
  have "request_wf t' \<and> output_token_ids t' = output_token_ids t @ concat bs"
    if "request_wf t" "res_fold (\<lambda>r ts. append_output_token_ids hasher ts r) t bs = Inr t'" for t t' bs
    using that
  proof (induction bs arbitrary: t)
    case (Cons b bs)
    then obtain u where "append_output_token_ids hasher b t = Inr u"
      "res_fold (\<lambda>r ts. append_output_token_ids hasher ts r) u bs = Inr t'"
      by (auto simp: res_bind_eq_Inr)
    then show ?case using Cons.IH[of u] append_output_wf[OF Cons.prems(1)] by simp
  qed simp
  then show ?thesis using assms Request_init_wf[OF assms(1)] by fastforce
qed

definition sample_sampling :: SamplingParams where
  "sample_sampling = \<lparr>sp_max_tokens = Some 4, min_tokens = 1, stop_token_ids = Some [7],
     ignore_eos = False, sp_skip_reading_prefix_cache = None, structured_outputs = False, extra_args = None\<rparr>"

definition sample_engine_request :: "string \<Rightarrow> int list \<Rightarrow> MultiModalFeatureSpec list \<Rightarrow> EngineCoreRequest" where
  "sample_engine_request rid toks mm = \<lparr>er_request_id = rid, er_client_index = 0,
     er_prompt_token_ids = Some toks, er_prompt_embeds = None, er_mm_features = Some mm,
     er_sampling_params = Some sample_sampling, er_pooling_params = None, er_eos_token_id = Some 2,
     er_arrival_time = None, er_lora_request = None, er_cache_salt = None, er_priority = 0,
     er_trace_headers = None, er_additional_information = None\<rparr>"

definition sample_request :: "string \<Rightarrow> int list \<Rightarrow> MultiModalFeatureSpec list \<Rightarrow> Request" where
  "sample_request rid toks mm =
     (case Request_init None 0 0 (sample_engine_request rid toks mm) of Inr r \<Rightarrow> r)"

lemma sample_request_init:
  "Request_init None 0 0 (sample_engine_request rid toks mm) = Inr (sample_request rid toks mm)"
  by (simp add: sample_request_def sample_engine_request_def sample_sampling_def Request_init_def
      Request_max_tokens_def length_from_prompt_token_ids_or_embeds_def)

lemma sample_request_sel [simp]:
  "all_token_ids (sample_request rid toks mm) = toks" "output_token_ids (sample_request rid toks mm) = []"
  "mm_features (sample_request rid toks mm) = mm" "request_id (sample_request rid toks mm) = rid"
  "block_hashes (sample_request rid toks mm) = []" "lora_request (sample_request rid toks mm) = None"
  "cache_salt (sample_request rid toks mm) = None" "prompt_embeds (sample_request rid toks mm) = None"
  "sampling_params (sample_request rid toks mm) = Some sample_sampling"
  "pooling_params (sample_request rid toks mm) = None" "eos_token_id (sample_request rid toks mm) = Some 2"
  "status (sample_request rid toks mm) = WAITING" "max_tokens (sample_request rid toks mm) = 4"
  by (simp_all add: sample_request_def sample_engine_request_def sample_sampling_def Request_init_def new_Request_def
      Request_max_tokens_def length_from_prompt_token_ids_or_embeds_def)

theorem request_tokens_consistent_witness:
  "\<exists>r'. res_fold (\<lambda>r ts. append_output_token_ids None ts r) (sample_request ''a'' [5, 6] []) [[1], [2, 3]] = Inr r' \<and>
     request_wf r' \<and> output_token_ids r' = [1, 2, 3]"
proof -
  have "\<exists>r'. res_fold (\<lambda>r ts. append_output_token_ids None ts r) (sample_request ''a'' [5, 6] []) [[1], [2, 3]] = Inr r'"
    by (simp add: append_output_token_ids_def Let_def)
  then show ?thesis
    using request_tokens_consistent[OF sample_request_init[of "''a''" "[5, 6]" "[]"]] by fastforce
qed

text \<open>
  C30: the stop check of a generative request that has produced a token always returns. It stops
  exactly when the minimum length is reached and the last token is the end-of-sequence token, is a
  stop token, or a length limit is hit. Without a stop the request is unchanged. With a stop the status becomes
  \<open>FINISHED_STOPPED\<close> in the first two cases, so the finish reason is \<open>stop\<close>, and \<open>FINISHED_LENGTH_CAPPED\<close>
  otherwise, so the finish reason is \<open>length\<close>; the stop reason becomes the last token if it is a stop token and not
  the end of the sequence; nothing else of the request changes.
\<close>

theorem check_stop_correct:
  fixes po :: "'p option" and max_model_len :: int
  assumes "pooling_params r = None" "sampling_params r = Some sp" "output_token_ids r \<noteq> []" "\<not> is_finished r"
  defines "t \<equiv> last (output_token_ids r)"
  defines "eos \<equiv> \<not> ignore_eos sp \<and> eos_token_id r = Some t" and "tok \<equiv> \<exists>l. stop_token_ids sp = Some l \<and> t \<in> set l"
    and "full \<equiv> max_model_len \<le> num_tokens r \<or> max_tokens r \<le> num_output_tokens r"
  shows "\<exists>stop r'. check_stop r max_model_len po = Inr (stop, r') \<and>
     (stop \<longleftrightarrow> min_tokens sp \<le> num_output_tokens r \<and> (eos \<or> tok \<or> full)) \<and>
     (\<not> stop \<longrightarrow> r' = r) \<and>
     (stop \<longrightarrow> r' = r\<lparr>status := (if eos \<or> tok then FINISHED_STOPPED else FINISHED_LENGTH_CAPPED),
        stop_reason := (if tok \<and> \<not> eos then Some t else stop_reason r)\<rparr>) \<and>
     get_finished_reason r' = (if \<not> stop then None else if eos \<or> tok then Some FR_STOP else Some FR_LENGTH)"
proof -
  have eos': "(\<not> ignore_eos sp \<and> Some (last (output_token_ids r)) = eos_token_id r) = eos" by (auto simp: eos_def t_def)
  have tok': "(last (output_token_ids r) \<in> set (case stop_token_ids sp of Some l \<Rightarrow> l | None \<Rightarrow> [])) = tok"
    by (cases "stop_token_ids sp") (simp_all add: tok_def t_def)
  have c: "check_stop r max_model_len po = (if num_output_tokens r < min_tokens sp then Inr (False, r)
      else if eos then Inr (True, r\<lparr>status := FINISHED_STOPPED\<rparr>)
      else if tok then Inr (True, r\<lparr>status := FINISHED_STOPPED, stop_reason := Some t\<rparr>)
      else if full then Inr (True, r\<lparr>status := FINISHED_LENGTH_CAPPED\<rparr>) else Inr (False, r))"
    by (simp only: check_stop_def assms(1,2) Let_def option.case eos' tok') (simp add: full_def t_def assms(3))
  have sr: "r\<lparr>status := st, stop_reason := stop_reason r\<rparr> = r\<lparr>status := st\<rparr>" for st
    by (cases r) simp
  have n: "get_finished_reason r = None"
    using assms(4) finished_reason_iff[of "status r"] by (auto simp: is_finished_def get_finished_reason_def)
  show ?thesis
    unfolding c using n by (simp add: sr) (simp add: get_finished_reason_def get_finished_reason_status_def)
qed

theorem check_stop_correct_witness:
  "check_stop ((sample_request ''a'' [5, 6] [])\<lparr>output_token_ids := [3, 7]\<rparr>) 100 (None :: unit option) =
     Inr (True, (sample_request ''a'' [5, 6] [])\<lparr>output_token_ids := [3, 7], status := FINISHED_STOPPED, stop_reason := Some 7\<rparr>)"
  using check_stop_correct[of "(sample_request ''a'' [5, 6] [])\<lparr>output_token_ids := [3, 7]\<rparr>" sample_sampling 100 None]
  by (simp add: is_finished_def is_finished_status_iff sample_sampling_def num_output_tokens_def cong: if_cong) auto

end
