(* ===== verification/Block_Hash.thy ===== *)
theory Block_Hash
  imports Requests
begin

unbundle bit_operations_syntax

text \<open>
  Block hashes for prefix caching (\<open>vllm/v1/core/kv_cache_utils.py\<close>): packing a hash with its group
  id, the extra keys of a block, the chained hash of a request's full blocks and the conversion
  between hash granularities. The hash function is code outside the repository (SHA-256 over a
  serialised object, or a builtin); it is an argument \<open>H\<close> of every definition that uses it.
\<close>

section \<open>Keys with a group id\<close>

definition make_block_hash_with_group_id :: "bytes \<Rightarrow> int \<Rightarrow> bytes result" where
  "make_block_hash_with_group_id h group_id =
     (if 0 \<le> group_id \<and> group_id < 2 ^ 32 then Inr (h @ to_bytes_be 4 (nat group_id)) else Inl OverflowError)"

definition get_block_hash :: "bytes \<Rightarrow> bytes" where
  "get_block_hash key = take (length key - 4) key"

definition get_group_id :: "bytes \<Rightarrow> int" where
  "get_group_id key = int (from_bytes_be (drop (length key - 4) key))"

datatype ExternalBlockHash = EHBytes bytes | EHInt int

definition maybe_convert_block_hash :: "bool \<Rightarrow> bytes \<Rightarrow> ExternalBlockHash" where
  "maybe_convert_block_hash use_int hash_bytes =
     (if \<not> use_int then EHBytes hash_bytes
      else EHInt (int (from_bytes_be hash_bytes) AND (push_bit 64 1 - 1)))"

section \<open>Extra keys\<close>

text \<open>The entries of the extra-keys tuple: strings (LoRA name, multimodal hash, salt) or raw bytes.\<close>

datatype extra_key = KStr string | KBytes bytes

text \<open>What is handed to the hash function: the seed string, or a block's tuple.\<close>

datatype hash_input = HSeed string | HBlock bytes "int list" "extra_key list option"

type_synonym hash_fn = "hash_input \<Rightarrow> bytes"

text \<open>\<open>init_none_hash\<close>: \<open>seed\<close> is the environment variable, \<open>urandom\<close> the random bytes.\<close>

definition init_none_hash :: "hash_fn \<Rightarrow> string option \<Rightarrow> bytes \<Rightarrow> bytes" where
  "init_none_hash H seed urandom = (case seed of None \<Rightarrow> urandom | Some s \<Rightarrow> H (HSeed s))"

definition need_extra_keys :: "Request \<Rightarrow> bool" where
  "need_extra_keys r \<longleftrightarrow> mm_features r \<noteq> [] \<or> lora_request r \<noteq> None \<or> cache_salt r \<noteq> None"

text \<open>
  The \<open>while\<close> loop of \<open>_gen_mm_extra_hash_keys\<close> over the features from \<open>curr_mm_idx\<close> on: the keys and
  by how much the index advances.
\<close>

fun mm_key_loop :: "int \<Rightarrow> int \<Rightarrow> MultiModalFeatureSpec list \<Rightarrow> extra_key list \<times> nat" where
  "mm_key_loop start_token_idx end_token_idx [] = ([], 0)"
| "mm_key_loop start_token_idx end_token_idx (f # fs) =
     (let off = offset (mm_position f); len = length_p (mm_position f);
          rest = mm_key_loop start_token_idx end_token_idx fs
      in if end_token_idx > off then
           if start_token_idx > off + len then (fst rest, Suc (snd rest))
           else if end_token_idx \<ge> off + len then (KStr (mm_identifier f) # fst rest, Suc (snd rest))
           else ([KStr (mm_identifier f)], 0)
         else ([], 0))"

definition gen_mm_extra_hash_keys :: "Request \<Rightarrow> int \<Rightarrow> int \<Rightarrow> int \<Rightarrow> (extra_key list \<times> int) result" where
  "gen_mm_extra_hash_keys r start_token_idx end_token_idx start_mm_idx =
     (let fs = mm_features r in
      if fs = [] then Inr ([], start_mm_idx)
      else if offset (mm_position (last fs)) + length_p (mm_position (last fs)) < start_token_idx
      then Inr ([], start_mm_idx)
      else res_bind (if start_mm_idx < 0
                     then res_bind (py_assert (- start_mm_idx \<le> int (length fs)))
                            (\<lambda>_. Inr (int (length fs) + start_mm_idx))
                     else Inr start_mm_idx) (\<lambda>i.
             case mm_key_loop start_token_idx end_token_idx (drop (nat i) fs) of
               (ks, n) \<Rightarrow> Inr (ks, i + int n)))"

definition gen_lora_extra_hash_keys :: "Request \<Rightarrow> extra_key list" where
  "gen_lora_extra_hash_keys r = (case lora_request r of None \<Rightarrow> [] | Some l \<Rightarrow> [KStr (lora_name l)])"

text \<open>Slices \<open>xs[s:e]\<close> with non-negative bounds.\<close>

definition py_slice :: "'a list \<Rightarrow> int \<Rightarrow> int \<Rightarrow> 'a list" where
  "py_slice xs s e = take (nat e - nat s) (drop (nat s) xs)"

definition gen_prompt_embeds_extra_hash_keys :: "Request \<Rightarrow> int \<Rightarrow> int \<Rightarrow> extra_key list" where
  "gen_prompt_embeds_extra_hash_keys r start_token_idx end_token_idx =
     (case prompt_embeds r of
        None \<Rightarrow> []
      | Some rows \<Rightarrow> [KBytes (concat (py_slice rows start_token_idx end_token_idx))])"

definition cache_salt_keys :: "Request \<Rightarrow> int \<Rightarrow> extra_key list" where
  "cache_salt_keys r start_token_idx =
     (case cache_salt r of
        None \<Rightarrow> []
      | Some salt \<Rightarrow> if start_token_idx = 0 \<and> salt \<noteq> [] then [KStr salt] else [])"

definition generate_block_hash_extra_keys ::
    "Request \<Rightarrow> int \<Rightarrow> int \<Rightarrow> int \<Rightarrow> (extra_key list option \<times> int) result" where
  "generate_block_hash_extra_keys r start_token_idx end_token_idx start_mm_idx =
     res_bind (gen_mm_extra_hash_keys r start_token_idx end_token_idx start_mm_idx) (\<lambda>(mm_extra_keys, new_start_mm_idx).
       let extra_keys = gen_lora_extra_hash_keys r @ mm_extra_keys @ cache_salt_keys r start_token_idx
             @ gen_prompt_embeds_extra_hash_keys r start_token_idx end_token_idx
       in Inr (if extra_keys = [] then None else Some extra_keys, new_start_mm_idx))"

section \<open>Hashing a request\<close>

text \<open>\<open>if not parent_block_hash\<close> also holds for an empty byte string.\<close>

definition hash_block_tokens ::
    "hash_fn \<Rightarrow> bytes \<Rightarrow> bytes option \<Rightarrow> int list \<Rightarrow> extra_key list option \<Rightarrow> bytes" where
  "hash_block_tokens H NONE_HASH parent_block_hash curr_block_token_ids extra_keys =
     (let parent = (case parent_block_hash of
                      None \<Rightarrow> NONE_HASH
                    | Some p \<Rightarrow> if p = [] then NONE_HASH else p)
      in H (HBlock parent curr_block_token_ids extra_keys))"

text \<open>The \<open>while True\<close> loop of \<open>request_block_hasher\<close>; it does not return when \<open>block_size\<close> is 0.\<close>

partial_function (option) hasher_loop ::
    "hash_fn \<Rightarrow> bytes \<Rightarrow> int \<Rightarrow> Request \<Rightarrow> int \<Rightarrow> int \<Rightarrow> bytes option \<Rightarrow> bytes list \<Rightarrow> (bytes list result) option" where
  "hasher_loop H NONE_HASH block_size r start_token_idx curr_mm_idx prev new_block_hashes =
     (if start_token_idx + block_size > num_tokens r then Some (Inr new_block_hashes)
      else case generate_block_hash_extra_keys r start_token_idx (start_token_idx + block_size) curr_mm_idx of
          Inl e \<Rightarrow> Some (Inl e)
        | Inr (extra_keys, next_mm_idx) \<Rightarrow>
            hasher_loop H NONE_HASH block_size r (start_token_idx + block_size) next_mm_idx
              (Some (hash_block_tokens H NONE_HASH prev
                 (py_slice (all_token_ids r) start_token_idx (start_token_idx + block_size)) extra_keys))
              (new_block_hashes @ [hash_block_tokens H NONE_HASH prev
                 (py_slice (all_token_ids r) start_token_idx (start_token_idx + block_size)) extra_keys]))"

declare hasher_loop.simps [code]

definition request_block_hasher :: "hash_fn \<Rightarrow> bytes \<Rightarrow> int \<Rightarrow> block_hasher" where
  "request_block_hasher H NONE_HASH block_size r =
     (let start_token_idx = int (length (block_hashes r)) * block_size in
      if start_token_idx + block_size > num_tokens r then Inr []
      else returned (hasher_loop H NONE_HASH block_size r start_token_idx
             (if start_token_idx > 0 then - 1 else 0)
             (if block_hashes r = [] then None else Some (last (block_hashes r))) []))"

section \<open>Hash granularity\<close>

record BlockHashListWithBlockSize =
  fine_hashes :: "bytes list"
  scale_factor :: int

definition BlockHashListWithBlockSize_init ::
    "bytes list \<Rightarrow> int \<Rightarrow> int \<Rightarrow> BlockHashListWithBlockSize result" where
  "BlockHashListWithBlockSize_init hs hash_block_size target_block_size =
     (if hash_block_size = 0 then Inl ZeroDivisionError
      else res_bind (py_assert (target_block_size mod hash_block_size = 0)) (\<lambda>_.
        Inr \<lparr>fine_hashes = hs, scale_factor = target_block_size div hash_block_size\<rparr>))"

definition bhl_len :: "BlockHashListWithBlockSize \<Rightarrow> int result" where
  "bhl_len l = (if scale_factor l = 0 then Inl ZeroDivisionError
                else Inr (int (length (fine_hashes l)) div scale_factor l))"

text \<open>List indexing with Python's negative indices and \<open>IndexError\<close>.\<close>

definition py_index :: "'a list \<Rightarrow> int \<Rightarrow> 'a result" where
  "py_index xs i =
     (if 0 \<le> i \<and> i < int (length xs) then Inr (xs ! nat i)
      else if i < 0 \<and> - i \<le> int (length xs) then Inr (xs ! nat (int (length xs) + i))
      else Inl IndexError)"

definition get_value_at :: "BlockHashListWithBlockSize \<Rightarrow> int \<Rightarrow> bytes result" where
  "get_value_at l idx =
     (let base = idx * scale_factor l; e = base + scale_factor l
      in res_bind (py_index (fine_hashes l) base) (\<lambda>merged_hash.
         res_fold (\<lambda>acc i. res_bind (py_index (fine_hashes l) i) (\<lambda>h. Inr (acc @ h)))
           merged_hash [base + 1..e - 1]))"

text \<open>\<open>__getitem__\<close> with a slice \<open>[start:]\<close>, \<open>start\<close> not negative.\<close>

definition bhl_from :: "BlockHashListWithBlockSize \<Rightarrow> int \<Rightarrow> bytes list result" where
  "bhl_from l start = res_bind (bhl_len l) (\<lambda>n. res_map (get_value_at l) [min start n..n - 1])"

definition bhl_iter :: "BlockHashListWithBlockSize \<Rightarrow> bytes list result" where
  "bhl_iter l = res_bind (bhl_len l) (\<lambda>n. res_map (get_value_at l) [0..n - 1])"


section \<open>Packing\<close>

lemma make_block_hash_cases:
  "make_block_hash_with_group_id h g = Inr k \<Longrightarrow>
     0 \<le> g \<and> g < 2 ^ 32 \<and> k = h @ to_bytes_be 4 (nat g)"
  by (auto simp: make_block_hash_with_group_id_def split: if_splits)

lemma make_block_hash_total: "0 \<le> g \<Longrightarrow> g < 2 ^ 32 \<Longrightarrow> \<exists>k. make_block_hash_with_group_id h g = Inr k"
  by (simp add: make_block_hash_with_group_id_def)

lemma group_id_bytes: "0 \<le> g \<Longrightarrow> g < 2 ^ 32 \<Longrightarrow> int (from_bytes_be (to_bytes_be 4 (nat g))) = g"
  by (simp add: from_to_bytes_be nat_less_iff)

lemma make_block_hash_unpack:
  assumes "make_block_hash_with_group_id h g = Inr k"
  shows "get_block_hash k = h" "get_group_id k = g"
  using make_block_hash_cases[OF assms] by (auto simp: get_block_hash_def get_group_id_def group_id_bytes)

text \<open>
  C36: packing a block hash with a group id that fits into four bytes always succeeds, both parts
  can be recovered from the key, and different pairs get different keys; a group id outside that
  range raises \<open>OverflowError\<close>.
\<close>

theorem block_hash_group_id_roundtrip:
  "(case make_block_hash_with_group_id h g of
      Inr k \<Rightarrow> 0 \<le> g \<and> g < 2 ^ 32 \<and> get_block_hash k = h \<and> get_group_id k = g \<and>
        (\<forall>h' g'. make_block_hash_with_group_id h' g' = Inr k \<longrightarrow> h' = h \<and> g' = g)
    | Inl e \<Rightarrow> e = OverflowError \<and> \<not> (0 \<le> g \<and> g < 2 ^ 32))"
proof (cases "make_block_hash_with_group_id h g")
  case (Inl e)
  then show ?thesis by (auto simp: make_block_hash_with_group_id_def split: if_splits)
next
  case (Inr k)
  have "h' = h \<and> g' = g" if "make_block_hash_with_group_id h' g' = Inr k" for h' g'
    using make_block_hash_unpack[OF Inr] make_block_hash_unpack[OF that] by simp
  then show ?thesis
    using Inr make_block_hash_cases[OF Inr] make_block_hash_unpack[OF Inr]
    by (simp only: sum.case) blast
qed

theorem block_hash_group_id_roundtrip_witness:
  "make_block_hash_with_group_id [1, 2] 258 = Inr [1, 2, 0, 0, 1, 2] \<and>
   get_block_hash [1, 2, 0, 0, 1, 2] = [1, 2] \<and> get_group_id [1, 2, 0, 0, 1, 2] = 258"
proof -
  have "to_bytes_be (Suc (Suc (Suc (Suc 0)))) 258 = [0, 0, 1, 2]" by simp
  moreover have "(4 :: nat) = Suc (Suc (Suc (Suc 0)))" by simp
  ultimately have "to_bytes_be 4 258 = [0, 0, 1, 2]" by (simp only:)
  then have e: "make_block_hash_with_group_id [1, 2] 258 = Inr [1, 2, 0, 0, 1, 2]"
    by (simp add: make_block_hash_with_group_id_def)
  show ?thesis
    using block_hash_group_id_roundtrip[of 258 "[1, 2]"] unfolding e sum.case by (elim conjE) (intro conjI refl)
qed

lemma maybe_convert_bound:
  "maybe_convert_block_hash True h = EHInt (int (from_bytes_be h) mod 2 ^ 64)"
proof -
  have "push_bit 64 1 - 1 = (mask 64 :: int)" by (simp add: mask_eq_exp_minus_1 push_bit_eq_mult)
  then show ?thesis
    by (simp only: maybe_convert_block_hash_def take_bit_eq_mask[symmetric] take_bit_eq_mod) simp
qed

section \<open>The hash chain\<close>

text \<open>The contents of a block, as far as they enter its hash: tokens and extra keys.\<close>

type_synonym block_content = "int list \<times> extra_key list option"

fun chain :: "hash_fn \<Rightarrow> bytes \<Rightarrow> bytes option \<Rightarrow> block_content list \<Rightarrow> bytes list" where
  "chain H N prev [] = []"
| "chain H N prev ((t, ks) # bs) =
     hash_block_tokens H N prev t ks # chain H N (Some (hash_block_tokens H N prev t ks)) bs"

definition last_hash :: "bytes option \<Rightarrow> bytes list \<Rightarrow> bytes option" where
  "last_hash prev hs = (if hs = [] then prev else Some (last hs))"

lemma length_chain [simp]: "length (chain H N prev bs) = length bs"
  by (induction bs arbitrary: prev) auto

lemma chain_append:
  "chain H N prev (xs @ ys) = chain H N prev xs @ chain H N (last_hash prev (chain H N prev xs)) ys"
  by (induction xs arbitrary: prev) (auto simp: last_hash_def)

lemma chain_snoc:
  "chain H N prev (xs @ [(t, ks)])
     = chain H N prev xs @ [hash_block_tokens H N (last_hash prev (chain H N prev xs)) t ks]"
  by (simp add: chain_append)

text \<open>The tuples that the hash function is applied to.\<close>

fun chain_inputs :: "hash_fn \<Rightarrow> bytes \<Rightarrow> bytes option \<Rightarrow> block_content list \<Rightarrow> hash_input list" where
  "chain_inputs H N prev [] = []"
| "chain_inputs H N prev ((t, ks) # bs) =
     HBlock (case prev of None \<Rightarrow> N | Some p \<Rightarrow> if p = [] then N else p) t ks
       # chain_inputs H N (Some (hash_block_tokens H N prev t ks)) bs"

lemma chain_map_inputs: "chain H N prev bs = map H (chain_inputs H N prev bs)"
  by (induction bs arbitrary: prev) (auto simp: hash_block_tokens_def Let_def)

lemma length_chain_inputs [simp]: "length (chain_inputs H N prev bs) = length bs"
  by (induction bs arbitrary: prev) auto

text \<open>
  \<open>collision_free H N D\<close>: no two different tuples of \<open>D\<close> collide, and no hash of \<open>D\<close> is the seed or
  empty. This is what the code relies on when it identifies a block by its hash.
\<close>

definition collision_free :: "hash_fn \<Rightarrow> bytes \<Rightarrow> hash_input set \<Rightarrow> bool" where
  "collision_free H N D \<longleftrightarrow> inj_on H D \<and> N \<notin> H ` D \<and> [] \<notin> H ` D"

lemma chain_inputs_nth:
  assumes "i < length bs"
  shows "chain_inputs H N prev bs ! i = HBlock
     (case (if i = 0 then prev else Some (chain H N prev bs ! (i - 1))) of
        None \<Rightarrow> N | Some p \<Rightarrow> if p = [] then N else p) (fst (bs ! i)) (snd (bs ! i))"
  using assms
proof (induction bs arbitrary: prev i)
  case (Cons b bs)
  obtain t ks where b: "b = (t, ks)" by (cases b)
  show ?case
  proof (cases i)
    case (Suc j)
    then show ?thesis using Cons.IH[of j] Cons.prems b by (cases j) auto
  qed (simp add: b)
qed simp

lemma chain_parent:
  assumes "collision_free H N D" "set (chain_inputs H N None xs) \<subseteq> D" "i < length xs"
  shows "chain_inputs H N None xs ! i
       = HBlock (if i = 0 then N else chain H N None xs ! (i - 1)) (fst (xs ! i)) (snd (xs ! i))"
    and "chain H N None xs ! i \<in> H ` D" and "chain_inputs H N None xs ! i \<in> D"
proof -
  have m: "chain H N None xs ! k \<in> H ` D \<and> chain_inputs H N None xs ! k \<in> D" if "k < length xs" for k
  proof -
    have "chain_inputs H N None xs ! k \<in> D" using that assms(2) nth_mem[of k "chain_inputs H N None xs"] by auto
    then show ?thesis using that by (simp add: chain_map_inputs)
  qed
  then show "chain H N None xs ! i \<in> H ` D" "chain_inputs H N None xs ! i \<in> D" using assms(3) by auto
  have "i > 0 \<Longrightarrow> chain H N None xs ! (i - 1) \<noteq> []"
    using m[of "i - 1"] assms(1,3) unfolding collision_free_def by (metis less_imp_diff_less)
  then show "chain_inputs H N None xs ! i
       = HBlock (if i = 0 then N else chain H N None xs ! (i - 1)) (fst (xs ! i)) (snd (xs ! i))"
    using chain_inputs_nth[OF assms(3), of H N None] by auto
qed

lemma chain_hash_eq_step:
  assumes cf: "collision_free H N D"
    and D: "set (chain_inputs H N None xs) \<subseteq> D" "set (chain_inputs H N None ys) \<subseteq> D"
    and l: "i < length xs" "j < length ys" and h: "chain H N None xs ! i = chain H N None ys ! j"
  shows "xs ! i = ys ! j \<and> (i = 0 \<longleftrightarrow> j = 0) \<and>
    (0 < i \<longrightarrow> chain H N None xs ! (i - 1) = chain H N None ys ! (j - 1))"
proof -
  note x = chain_parent[OF cf D(1) l(1)] and y = chain_parent[OF cf D(2) l(2)]
  have "H (chain_inputs H N None xs ! i) = H (chain_inputs H N None ys ! j)"
    using h l by (simp add: chain_map_inputs)
  then have "chain_inputs H N None xs ! i = chain_inputs H N None ys ! j"
    using cf x(3) y(3) unfolding collision_free_def by (meson inj_onD)
  then have e: "(if i = 0 then N else chain H N None xs ! (i - 1)) = (if j = 0 then N else chain H N None ys ! (j - 1))"
      "xs ! i = ys ! j"
    unfolding x(1) y(1) by (simp_all add: prod_eq_iff)
  have N: "N \<notin> H ` D" using cf by (simp add: collision_free_def)
  have "i > 0 \<Longrightarrow> chain H N None xs ! (i - 1) \<noteq> N" "j > 0 \<Longrightarrow> chain H N None ys ! (j - 1) \<noteq> N"
    using chain_parent(2)[OF cf D(1), of "i - 1"] chain_parent(2)[OF cf D(2), of "j - 1"] l N by force+
  then show ?thesis using e by (auto split: if_splits)
qed

lemma chain_hash_eq:
  assumes cf: "collision_free H N D"
    and D: "set (chain_inputs H N None xs) \<subseteq> D" "set (chain_inputs H N None ys) \<subseteq> D"
    and "i < length xs" "j < length ys" "chain H N None xs ! i = chain H N None ys ! j"
  shows "i = j \<and> take (Suc i) xs = take (Suc j) ys"
  using assms(4-)
proof (induction i arbitrary: j)
  case 0
  then have "xs ! 0 = ys ! j" "j = 0" using chain_hash_eq_step[OF cf D 0] by blast+
  then show ?case
    using take_Suc_conv_app_nth[OF 0(1)] take_Suc_conv_app_nth[OF 0(2)] by simp
next
  case (Suc i)
  note s = chain_hash_eq_step[OF cf D Suc.prems]
  then obtain k where k: "j = Suc k" by (cases j) blast+
  have "chain H N None xs ! i = chain H N None ys ! k" using s unfolding k by simp
  then have "i = k \<and> take (Suc i) xs = take (Suc k) ys"
    using Suc.prems(1,2) unfolding k by (intro Suc.IH) linarith+
  then show ?case
    using s k take_Suc_conv_app_nth[OF Suc.prems(1)] take_Suc_conv_app_nth[OF Suc.prems(2)] by metis
qed

lemma chain_distinct:
  assumes "collision_free H N D" "set (chain_inputs H N None xs) \<subseteq> D"
  shows "distinct (chain H N None xs)"
  unfolding distinct_conv_nth using chain_hash_eq[OF assms(1,2,2)] by auto


section \<open>What the request hasher computes\<close>

fun token_blocks :: "int \<Rightarrow> int list \<Rightarrow> int \<Rightarrow> nat \<Rightarrow> int list list" where
  "token_blocks bs ts s 0 = []"
| "token_blocks bs ts s (Suc n) = py_slice ts s (s + bs) # token_blocks bs ts (s + bs) n"

fun block_keys :: "Request \<Rightarrow> int \<Rightarrow> int \<Rightarrow> int \<Rightarrow> nat \<Rightarrow> (extra_key list option) list result" where
  "block_keys r bs s mm 0 = Inr []"
| "block_keys r bs s mm (Suc n) =
     res_bind (generate_block_hash_extra_keys r s (s + bs) mm) (\<lambda>(ks, mm').
       res_bind (block_keys r bs (s + bs) mm' n) (\<lambda>kss. Inr (ks # kss)))"

lemma length_token_blocks [simp]: "length (token_blocks bs ts s n) = n"
  by (induction n arbitrary: s) auto

lemma token_blocks_add:
  "token_blocks bs ts s (n + m) = token_blocks bs ts s n @ token_blocks bs ts (s + int n * bs) m"
  by (induction n arbitrary: s) (auto simp: algebra_simps)

lemma token_blocks_extend:
  assumes "0 \<le> s" "0 \<le> bs" "s + int n * bs \<le> int (length ts)"
  shows "token_blocks bs (ts @ us) s n = token_blocks bs ts s n"
  using assms
proof (induction n arbitrary: s)
  case (Suc n)
  have "0 \<le> int n * bs" using Suc.prems by simp
  then have "nat (s + bs) \<le> length ts"
    using Suc.prems(3) by (simp add: nat_le_iff distrib_right)
  moreover have "nat s \<le> nat (s + bs)" using Suc.prems by simp
  ultimately have "py_slice (ts @ us) s (s + bs) = py_slice ts s (s + bs)" by (simp add: py_slice_def)
  then show ?case using Suc by (simp add: algebra_simps)
qed simp

lemma concat_token_blocks:
  assumes "0 \<le> s" "0 \<le> bs"
  shows "concat (token_blocks bs ts s n) = py_slice ts s (s + int n * bs)"
  using assms
proof (induction n arbitrary: s)
  case (Suc n)
  let ?e = "s + bs + int n * bs"
  have "0 \<le> int n * bs" using Suc.prems by simp
  then have le: "nat s \<le> nat (s + bs)" "nat (s + bs) \<le> nat ?e" using Suc.prems by linarith+
  have "py_slice ts s (s + bs) @ py_slice ts (s + bs) ?e = py_slice ts s ?e"
  proof -
    have "take (nat ?e - nat s) (drop (nat s) ts)
        = take (nat (s + bs) - nat s) (drop (nat s) ts)
          @ take (nat ?e - nat (s + bs)) (drop (nat (s + bs) - nat s) (drop (nat s) ts))"
      using le take_add[of "nat (s + bs) - nat s" "nat ?e - nat (s + bs)" "drop (nat s) ts"] by simp
    then show ?thesis using le by (simp add: py_slice_def)
  qed
  then show ?case using Suc by (simp add: algebra_simps)
qed (simp add: py_slice_def)

text \<open>The multimodal index stays in range, so the assertion on it never fails.\<close>

lemma generate_keys_total:
  assumes "- 1 \<le> mm"
  shows "\<exists>ks mm'. generate_block_hash_extra_keys r s e mm = Inr (ks, mm') \<and> - 1 \<le> mm'"
proof -
  have "\<exists>ks mm'. gen_mm_extra_hash_keys r s e mm = Inr (ks, mm') \<and> - 1 \<le> mm'"
  proof (cases "mm_features r = []")
    case False
    then have "int (length (mm_features r)) \<ge> 1" by (cases "mm_features r") auto
    then show ?thesis
      using assms False
      by (auto simp: gen_mm_extra_hash_keys_def Let_def res_bind_assert split: prod.splits)
  qed (use assms in \<open>simp add: gen_mm_extra_hash_keys_def\<close>)
  then show ?thesis by (auto simp: generate_block_hash_extra_keys_def Let_def)
qed

lemma block_keys_total:
  "- 1 \<le> mm \<Longrightarrow> \<exists>kss. block_keys r bs s mm n = Inr kss \<and> length kss = n"
proof (induction n arbitrary: s mm)
  case (Suc n)
  obtain ks mm' where g: "generate_block_hash_extra_keys r s (s + bs) mm = Inr (ks, mm')" "- 1 \<le> mm'"
    using generate_keys_total[OF Suc.prems] by blast
  obtain kss where "block_keys r bs (s + bs) mm' n = Inr kss" "length kss = n"
    using Suc.IH[OF g(2)] by blast
  with g show ?case by simp
qed simp

lemma hasher_loop_spec:
  assumes "0 < bs" "s + int n * bs \<le> num_tokens r" "num_tokens r < s + int n * bs + bs"
    and "block_keys r bs s mm n = Inr kss"
  shows "hasher_loop H N bs r s mm prev acc
     = Some (Inr (acc @ chain H N prev (zip (token_blocks bs (all_token_ids r) s n) kss)))"
  using assms(2-)
proof (induction n arbitrary: s mm prev acc kss)
  case 0
  then show ?case by (subst hasher_loop.simps) simp
next
  case (Suc n)
  obtain ks mm' kss' where g: "generate_block_hash_extra_keys r s (s + bs) mm = Inr (ks, mm')"
    "block_keys r bs (s + bs) mm' n = Inr kss'" "kss = ks # kss'"
    using Suc.prems(3) by (auto simp: res_bind_eq_Inr)
  have "0 \<le> int n * bs" using assms(1) by simp
  then have "\<not> num_tokens r < s + bs" using Suc.prems(1) by (simp add: distrib_right)
  moreover have "s + bs + int n * bs \<le> num_tokens r" "num_tokens r < s + bs + int n * bs + bs"
    using Suc.prems(1,2) by (simp_all add: distrib_right)
  ultimately show ?case
    using g by (subst hasher_loop.simps) (simp add: Suc.IH)
qed

lemma request_block_hasher_spec:
  assumes bs: "0 < bs" and len: "int (length (block_hashes r)) * bs \<le> num_tokens r"
  defines "k \<equiv> length (block_hashes r)" and "n \<equiv> nat (num_tokens r div bs) - length (block_hashes r)"
  obtains kss where "length kss = n"
    "block_keys r bs (int k * bs) (if int k * bs > 0 then - 1 else 0) n = Inr kss"
    "request_block_hasher H N bs r = Inr (chain H N (last_hash None (block_hashes r))
       (zip (token_blocks bs (all_token_ids r) (int k * bs) n) kss))"
    "k + n = nat (num_tokens r div bs)"
proof -
  have "0 \<le> num_tokens r" by (simp add: num_tokens_def)
  then have q: "0 \<le> num_tokens r div bs" using bs by (simp add: pos_imp_zdiv_nonneg_iff)
  have "int k \<le> num_tokens r div bs" using len by (simp add: int_le_div_iff[OF bs] k_def)
  then have kn: "k + n = nat (num_tokens r div bs)" "int k + int n = num_tokens r div bs"
    using q by (simp_all add: n_def k_def)
  have "int k * bs + int n * bs = num_tokens r div bs * bs" unfolding kn(2)[symmetric] by (rule distrib_right[symmetric])
  then have b: "int k * bs + int n * bs \<le> num_tokens r" "num_tokens r < int k * bs + int n * bs + bs"
    using pos_mod_bound[OF bs, of "num_tokens r"] pos_mod_sign[OF bs, of "num_tokens r"]
      minus_mod_eq_div_mult[of "num_tokens r" bs] by linarith+
  have "(- 1 :: int) \<le> (if int k * bs > 0 then - 1 else 0)" by simp
  then obtain kss where kss: "block_keys r bs (int k * bs) (if int k * bs > 0 then - 1 else 0) n = Inr kss"
      "length kss = n"
    using block_keys_total by blast
  note loop = hasher_loop_spec[OF bs b kss(1), of H N "last_hash None (block_hashes r)" "[]"]
  have "request_block_hasher H N bs r = Inr (chain H N (last_hash None (block_hashes r))
       (zip (token_blocks bs (all_token_ids r) (int k * bs) n) kss))"
  proof (cases n)
    case 0
    then show ?thesis using b by (simp add: request_block_hasher_def Let_def k_def)
  next
    case (Suc m)
    have "0 \<le> int m * bs" using bs by simp
    then have "\<not> num_tokens r < int k * bs + bs" using b(1) Suc by (simp add: distrib_right)
    then show ?thesis
      using loop by (simp add: request_block_hasher_def Let_def k_def last_hash_def cong: if_cong)
  qed
  then show thesis using that kss kn by blast
qed


text \<open>The extra keys of a block depend on these attributes of the request only.\<close>

definition same_keys :: "Request \<Rightarrow> Request \<Rightarrow> bool" where
  "same_keys r r' \<longleftrightarrow> mm_features r = mm_features r' \<and> lora_request r = lora_request r' \<and>
     cache_salt r = cache_salt r' \<and> prompt_embeds r = prompt_embeds r'"

lemma generate_keys_cong:
  "same_keys r r' \<Longrightarrow> generate_block_hash_extra_keys r s e mm = generate_block_hash_extra_keys r' s e mm"
  by (simp add: same_keys_def generate_block_hash_extra_keys_def gen_mm_extra_hash_keys_def
      gen_lora_extra_hash_keys_def cache_salt_keys_def gen_prompt_embeds_extra_hash_keys_def)

lemma block_keys_cong: "same_keys r r' \<Longrightarrow> block_keys r bs s mm n = block_keys r' bs s mm n"
  by (induction n arbitrary: s mm) (auto simp: generate_keys_cong)

section \<open>The hashes a request carries\<close>

definition contents :: "int \<Rightarrow> Request \<Rightarrow> (extra_key list option) list \<Rightarrow> block_content list" where
  "contents bs r kss = zip (token_blocks bs (all_token_ids r) 0 (nat (num_tokens r div bs))) kss"

text \<open>
  \<open>hashed H N bs r kss\<close>: the request carries the hash chain of all its full blocks, computed with
  the extra keys \<open>kss\<close>.
\<close>

definition hashed :: "hash_fn \<Rightarrow> bytes \<Rightarrow> int \<Rightarrow> Request \<Rightarrow> (extra_key list option) list \<Rightarrow> bool" where
  "hashed H N bs r kss \<longleftrightarrow>
     length kss = nat (num_tokens r div bs) \<and> block_hashes r = chain H N None (contents bs r kss)"

lemma hashed_length: "hashed H N bs r kss \<Longrightarrow> length (block_hashes r) = nat (num_tokens r div bs)"
  by (simp add: hashed_def contents_def)

lemma num_tokens_div:
  assumes "0 < bs"
  shows "int (nat (num_tokens r div bs)) * bs \<le> num_tokens r" and "0 \<le> num_tokens r div bs"
proof -
  show d: "0 \<le> num_tokens r div bs" using assms by (simp add: num_tokens_def pos_imp_zdiv_nonneg_iff)
  then show "int (nat (num_tokens r div bs)) * bs \<le> num_tokens r"
    using int_le_div_iff[OF assms, of "num_tokens r div bs" "num_tokens r"] by simp
qed

lemma append_hashed:
  assumes bs: "0 < bs" and h: "hashed H N bs r kss"
  shows "\<exists>r' kss'. append_output_token_ids (Some (request_block_hasher H N bs)) ts r = Inr r' \<and>
     all_token_ids r' = all_token_ids r @ ts \<and> hashed H N bs r' (kss @ kss') \<and> same_keys r r' \<and>
     (\<exists>mm. block_keys r bs (int (length (block_hashes r)) * bs) mm
        (nat (num_tokens r' div bs) - length (block_hashes r)) = Inr kss')"
proof -
  define r1 where "r1 = r\<lparr>output_token_ids := output_token_ids r @ ts, all_token_ids := all_token_ids r @ ts\<rparr>"
  define k n where "k = nat (num_tokens r div bs)" and "n = nat (num_tokens r1 div bs) - k"
  have r1: "block_hashes r1 = block_hashes r" "all_token_ids r1 = all_token_ids r @ ts"
    by (simp_all add: r1_def)
  have k: "length (block_hashes r) = k" "length kss = k"
    and bh: "block_hashes r = chain H N None (contents bs r kss)"
    using h hashed_length by (auto simp: hashed_def k_def)
  have kb: "int k * bs \<le> num_tokens r" using num_tokens_div(1)[OF bs] by (simp add: k_def)
  also have "\<dots> \<le> num_tokens r1" by (simp add: num_tokens_def r1)
  finally have len: "int (length (block_hashes r1)) * bs \<le> num_tokens r1" using k r1 by simp
  let ?new = "\<lambda>kss'. zip (token_blocks bs (all_token_ids r1) (int k * bs) n) kss'"
  obtain kss' mm where kss': "length kss' = n"
    "request_block_hasher H N bs r1 = Inr (chain H N (last_hash None (block_hashes r)) (?new kss'))"
    "k + n = nat (num_tokens r1 div bs)" "block_keys r1 bs (int k * bs) mm n = Inr kss'"
    using request_block_hasher_spec[OF bs len, of H N] unfolding r1(1) k(1) n_def[symmetric] by blast
  define r2 where "r2 = r1\<lparr>block_hashes := block_hashes r @ chain H N (last_hash None (block_hashes r)) (?new kss')\<rparr>"
  have r2: "all_token_ids r2 = all_token_ids r @ ts" "num_tokens r2 = num_tokens r1"
    "block_hashes r2 = block_hashes r @ chain H N (last_hash None (block_hashes r)) (?new kss')"
    by (simp_all add: r2_def r1 num_tokens_def)
  have "token_blocks bs (all_token_ids r @ ts) 0 (k + n)
      = token_blocks bs (all_token_ids r) 0 k @ token_blocks bs (all_token_ids r @ ts) (int k * bs) n"
    using token_blocks_extend[of 0 bs k "all_token_ids r" ts] bs kb
    by (simp add: token_blocks_add num_tokens_def)
  then have "contents bs r2 (kss @ kss') = contents bs r kss @ ?new kss'"
    unfolding contents_def r2(1,2) r1(2) kss'(3)[symmetric] k_def[symmetric] using k(2) by simp
  then have "hashed H N bs r2 (kss @ kss')"
    using bh k(2) kss'(1,3) r2(2,3) by (simp add: hashed_def chain_append)
  moreover have "append_output_token_ids (Some (request_block_hasher H N bs)) ts r = Inr r2"
    using kss'(2) r1(1) by (simp add: append_output_token_ids_def Let_def r1_def[symmetric] r2_def)
  moreover have sk: "same_keys r r1" "same_keys r r2" by (simp_all add: same_keys_def r1_def r2_def)
  moreover have "block_keys r bs (int k * bs) mm (nat (num_tokens r2 div bs) - k) = Inr kss'"
    using kss'(4) block_keys_cong[OF sk(1)] r2(2) by (simp add: n_def)
  ultimately show ?thesis using r2(1) unfolding k(1) by blast
qed

lemma init_hashed:
  assumes bs: "0 < bs" and i: "Request_init (Some (request_block_hasher H N bs)) oid now e = Inr r"
  shows "\<exists>kss. hashed H N bs r kss"
proof -
  obtain r0 hs where r0: "block_hashes r0 = []" "request_block_hasher H N bs r0 = Inr hs"
    "r = r0\<lparr>block_hashes := hs\<rparr>"
  proof -
    obtain mt st kvp npt hs where "request_block_hasher H N bs (new_Request oid now e mt st kvp npt) = Inr hs"
      "r = (new_Request oid now e mt st kvp npt)\<lparr>block_hashes := hs\<rparr>"
      using i by (auto simp: Request_init_def Let_def res_bind_eq_Inr)
    then show thesis using that[of "new_Request oid now e mt st kvp npt"] by (simp add: new_Request_def)
  qed
  have "int (length (block_hashes r0)) * bs \<le> num_tokens r0" using r0(1) by (simp add: num_tokens_def)
  then obtain kss where "length kss = nat (num_tokens r0 div bs)"
    "request_block_hasher H N bs r0
       = Inr (chain H N None (zip (token_blocks bs (all_token_ids r0) 0 (nat (num_tokens r0 div bs))) kss))"
    by (rule request_block_hasher_spec[OF bs, of r0 H N]) (simp add: r0(1) last_hash_def)
  then show ?thesis using r0 by (auto simp: hashed_def contents_def num_tokens_def)
qed

text \<open>
  C21: hashing never fails and never loops for a positive block size. After the constructor and any
  number of token batches the request carries exactly one hash per full block, and these hashes are
  the chain in which every block's hash covers its parent's hash, its tokens and its extra keys.
\<close>

theorem request_hashing_complete:
  assumes "0 < bs" "Request_init (Some (request_block_hasher H N bs)) oid now e = Inr r"
  shows "\<exists>r' kss. res_fold (\<lambda>r ts. append_output_token_ids (Some (request_block_hasher H N bs)) ts r) r batches = Inr r' \<and>
     all_token_ids r' = all_token_ids r @ concat batches \<and>
     length (block_hashes r') = nat (num_tokens r' div bs) \<and> hashed H N bs r' kss"
proof -
  let ?app = "\<lambda>r ts. append_output_token_ids (Some (request_block_hasher H N bs)) ts r"
  have "\<exists>r'. res_fold ?app r batches = Inr r' \<and>
      (all_token_ids r' = all_token_ids r @ concat batches \<and> (\<exists>kss. hashed H N bs r' kss))"
  proof (rule res_fold_prefix)
    show "all_token_ids r = all_token_ids r @ concat [] \<and> (\<exists>kss. hashed H N bs r kss)"
      using init_hashed[OF assms] by simp
  next
    fix ys x zs t
    assume "all_token_ids t = all_token_ids r @ concat ys \<and> (\<exists>kss. hashed H N bs t kss)"
    then show "\<exists>t'. ?app t x = Inr t' \<and>
        (all_token_ids t' = all_token_ids r @ concat (ys @ [x]) \<and> (\<exists>kss. hashed H N bs t' kss))"
      using append_hashed[OF assms(1), of H N t _ x] by fastforce
  qed
  then show ?thesis using hashed_length by blast
qed

text \<open>
  C10: prefix caching is sound. When no collision occurs among the tuples hashed for two requests,
  two equal block hashes stand at the same position of the two requests, and both requests agree on
  all tokens up to the end of that block and on the extra keys of all blocks up to it.
\<close>

theorem equal_block_hash_equal_prefix:
  assumes "0 < bs" "hashed H N bs r1 kss1" "hashed H N bs r2 kss2"
    and "collision_free H N (set (chain_inputs H N None (contents bs r1 kss1)) \<union>
                             set (chain_inputs H N None (contents bs r2 kss2)))"
    and "i < length (block_hashes r1)" "j < length (block_hashes r2)"
    and "block_hashes r1 ! i = block_hashes r2 ! j"
  shows "i = j \<and> take (Suc i) kss1 = take (Suc i) kss2 \<and>
    take (Suc i * nat bs) (all_token_ids r1) = take (Suc i * nat bs) (all_token_ids r2)"
proof -
  let ?c1 = "contents bs r1 kss1" and ?c2 = "contents bs r2 kss2"
  have l: "length ?c1 = nat (num_tokens r1 div bs)" "length ?c2 = nat (num_tokens r2 div bs)"
    using assms(2,3) by (auto simp: hashed_def contents_def)
  have e: "i = j \<and> take (Suc i) ?c1 = take (Suc j) ?c2"
    by (rule chain_hash_eq[OF assms(4)]) (use assms(2,3,5-) l in \<open>auto simp: hashed_def\<close>)
  have t: "take (Suc i * nat bs) (all_token_ids r) = concat (map fst (take (Suc i) (contents bs r kss)))"
    "take (Suc i) kss = map snd (take (Suc i) (contents bs r kss))"
    if "hashed H N bs r kss" "i < length (block_hashes r)" for r kss
  proof -
    have k: "Suc i \<le> nat (num_tokens r div bs)" "length kss = nat (num_tokens r div bs)"
      using that hashed_length by (auto simp: hashed_def)
    then obtain m where m: "nat (num_tokens r div bs) = Suc i + m" using le_Suc_ex by blast
    have "map fst (take (Suc i) (contents bs r kss)) = token_blocks bs (all_token_ids r) 0 (Suc i)"
      using k m unfolding contents_def take_map[symmetric]
      by (simp add: take_zip map_fst_zip token_blocks_add del: token_blocks.simps add_Suc)
    moreover have "nat (int (Suc i) * bs) = Suc i * nat bs"
      by (simp only: nat_mult_distrib of_nat_0_le_iff nat_int)
    ultimately show "take (Suc i * nat bs) (all_token_ids r) = concat (map fst (take (Suc i) (contents bs r kss)))"
      using concat_token_blocks[of 0 bs "all_token_ids r" "Suc i"] assms(1)
      by (simp add: py_slice_def del: token_blocks.simps of_nat_Suc)
    show "take (Suc i) kss = map snd (take (Suc i) (contents bs r kss))"
      using k by (simp add: contents_def take_map[symmetric])
  qed
  show ?thesis using e t[OF assms(2,5)] t[OF assms(3), unfolded conjunct1[OF e]] assms(6) by auto
qed


section \<open>Incremental and one-shot hashing\<close>

text \<open>From token \<open>s\<close> on the request has no multimodal input left, as the code tests it.\<close>

definition mm_done :: "Request \<Rightarrow> int \<Rightarrow> bool" where
  "mm_done r s \<longleftrightarrow> mm_features r = [] \<or>
     offset (mm_position (last (mm_features r))) + length_p (mm_position (last (mm_features r))) < s"

lemma block_keys_mm_done:
  assumes "mm_done r s" "0 < bs"
  shows "block_keys r bs s mm n = block_keys r bs s mm' n"
  using assms(1)
proof (induction n arbitrary: s mm mm')
  case (Suc n)
  have d: "mm_done r (s + bs)" using Suc.prems assms(2) by (auto simp: mm_done_def)
  obtain ks where ks: "generate_block_hash_extra_keys r s (s + bs) m = Inr (ks, m)" for m
    using Suc.prems
    by (auto simp: mm_done_def generate_block_hash_extra_keys_def gen_mm_extra_hash_keys_def Let_def)
  show ?case using Suc.IH[OF d, of mm mm'] by (simp add: ks)
qed simp

lemma block_keys_add:
  assumes "block_keys r bs s mm (k + n) = Inr kss"
  shows "\<exists>kss1 kss2 mm'. kss = kss1 @ kss2 \<and> block_keys r bs s mm k = Inr kss1 \<and>
     block_keys r bs (s + int k * bs) mm' n = Inr kss2"
  using assms
proof (induction k arbitrary: s mm kss)
  case (Suc k)
  then obtain ks mm1 kss' where g: "generate_block_hash_extra_keys r s (s + bs) mm = Inr (ks, mm1)"
    "block_keys r bs (s + bs) mm1 (k + n) = Inr kss'" "kss = ks # kss'"
    by (auto simp: res_bind_eq_Inr)
  from Suc.IH[OF g(2)] obtain kss1 kss2 mm' where "kss' = kss1 @ kss2"
    "block_keys r bs (s + bs) mm1 k = Inr kss1" "block_keys r bs (s + bs + int k * bs) mm' n = Inr kss2"
    by blast
  then show ?case using g
    by (intro exI[of _ "ks # kss1"] exI[of _ kss2] exI[of _ mm']) (simp add: algebra_simps)
qed auto

text \<open>The result of hashing all blocks in one go.\<close>

lemma one_shot_spec:
  assumes "0 < bs"
  obtains kss where "length kss = nat (num_tokens r div bs)" "block_keys r bs 0 0 (nat (num_tokens r div bs)) = Inr kss"
    "request_block_hasher H N bs (r\<lparr>block_hashes := []\<rparr>) = Inr (chain H N None (contents bs r kss))"
proof -
  let ?r = "r\<lparr>block_hashes := []\<rparr>"
  have "int (length (block_hashes ?r)) * bs \<le> num_tokens ?r" by (simp add: num_tokens_def)
  moreover have "num_tokens ?r = num_tokens r" by (simp add: num_tokens_def)
  moreover have "block_keys ?r bs 0 0 n = block_keys r bs 0 0 n" for n
    by (rule block_keys_cong) (simp add: same_keys_def)
  ultimately show thesis
    using request_block_hasher_spec[OF assms, of ?r H N thesis] that
    by (simp add: contents_def last_hash_def)
qed

text \<open>
  C22: hashing incrementally while tokens are generated gives the same hashes as hashing all tokens
  in one go, provided no multimodal input reaches into the blocks that are hashed incrementally.
\<close>

theorem incremental_hashing_equals_one_shot:
  assumes "0 < bs"
    and "request_block_hasher H N bs (r\<lparr>block_hashes := []\<rparr>) = Inr (block_hashes r)"
    and "mm_done r (int (length (block_hashes r)) * bs)"
    and "append_output_token_ids (Some (request_block_hasher H N bs)) ts r = Inr r'"
  shows "request_block_hasher H N bs (r'\<lparr>block_hashes := []\<rparr>) = Inr (block_hashes r')"
proof -
  define k where "k = length (block_hashes r)"
  obtain kss where kss: "length kss = nat (num_tokens r div bs)"
    "block_keys r bs 0 0 (nat (num_tokens r div bs)) = Inr kss"
    "request_block_hasher H N bs (r\<lparr>block_hashes := []\<rparr>) = Inr (chain H N None (contents bs r kss))"
    using one_shot_spec[OF assms(1)] by blast
  then have h: "hashed H N bs r kss" using assms(2) by (simp add: hashed_def)
  then have k: "k = nat (num_tokens r div bs)" using hashed_length k_def by simp
  obtain kss' mm where r': "hashed H N bs r' (kss @ kss')" "same_keys r r'"
    "block_keys r bs (int k * bs) mm (nat (num_tokens r' div bs) - k) = Inr kss'"
    using append_hashed[OF assms(1) h, of ts] assms(4) unfolding k_def by auto
  obtain kss2 where kss2: "length kss2 = nat (num_tokens r' div bs)"
    "block_keys r' bs 0 0 (nat (num_tokens r' div bs)) = Inr kss2"
    "request_block_hasher H N bs (r'\<lparr>block_hashes := []\<rparr>) = Inr (chain H N None (contents bs r' kss2))"
    using one_shot_spec[OF assms(1)] by blast
  have "k \<le> nat (num_tokens r' div bs)" using r'(1) kss(1) k by (simp add: hashed_def)
  then have "block_keys r bs 0 0 (k + (nat (num_tokens r' div bs) - k)) = Inr kss2"
    using kss2(2) block_keys_cong[OF r'(2)] by simp
  from block_keys_add[OF this] obtain b mm' where "kss2 = kss @ b"
    "block_keys r bs (int k * bs) mm' (nat (num_tokens r' div bs) - k) = Inr b"
    using kss(2) k by auto
  then have "kss2 = kss @ kss'"
    using r'(3) block_keys_mm_done[OF assms(3,1), folded k_def] by (metis sum.inject(2))
  then show ?thesis using kss2(3) r'(1) by (simp add: hashed_def)
qed


section \<open>Witnesses and known gaps\<close>

definition toy_hash :: hash_fn where
  "toy_hash x = (case x of HSeed s \<Rightarrow> [0] | HBlock p ts ks \<Rightarrow> 1 # p @ map word_of_int ts)"

lemma sample_hashed_init:
  assumes "0 < bs"
  shows "\<exists>r. Request_init (Some (request_block_hasher H N bs)) 0 0 (sample_engine_request rid toks mm) = Inr r \<and>
    all_token_ids r = toks"
proof -
  define r0 where "r0 = sample_request rid toks mm"
  have "block_hashes r0 = []" by (simp add: r0_def)
  then have "r0\<lparr>block_hashes := []\<rparr> = r0" by (cases r0) simp
  then obtain hs where "request_block_hasher H N bs r0 = Inr hs"
    using one_shot_spec[OF assms, of r0 H N thesis] by (metis (no_types, lifting) one_shot_spec[OF assms])
  then have "Request_init (Some (request_block_hasher H N bs)) 0 0 (sample_engine_request rid toks mm)
      = Inr (r0\<lparr>block_hashes := hs\<rparr>)"
    using sample_request_init[of rid toks mm]
    by (auto simp: Request_init_def res_bind_eq_Inr Let_def r0_def)
  then show ?thesis by (simp add: r0_def)
qed

theorem request_hashing_complete_witness:
  "\<exists>r r' kss. Request_init (Some (request_block_hasher toy_hash [9] 2)) 0 0 (sample_engine_request ''a'' [1, 2, 3] []) = Inr r \<and>
     res_fold (\<lambda>r ts. append_output_token_ids (Some (request_block_hasher toy_hash [9] 2)) ts r) r [[4], [5, 6]] = Inr r' \<and>
     all_token_ids r' = [1, 2, 3, 4, 5, 6] \<and> length (block_hashes r') = nat (num_tokens r' div 2) \<and>
     hashed toy_hash [9] 2 r' kss"
proof -
  obtain r where r: "Request_init (Some (request_block_hasher toy_hash [9] 2)) 0 0 (sample_engine_request ''a'' [1, 2, 3] []) = Inr r"
    "all_token_ids r = [1, 2, 3]"
    using sample_hashed_init[of 2 toy_hash "[9]" "''a''" "[1, 2, 3]" "[]"] by auto
  show ?thesis using request_hashing_complete[OF _ r(1), of "[[4], [5, 6]]"] r by auto
qed

theorem equal_block_hash_equal_prefix_witness:
  "hashed toy_hash [9] 2 ((sample_request ''a'' [1, 2, 3] [])\<lparr>block_hashes := [[1, 9, 1, 2]]\<rparr>) [None] \<and>
   take (Suc 0 * nat 2) (all_token_ids ((sample_request ''a'' [1, 2, 3] [])\<lparr>block_hashes := [[1, 9, 1, 2]]\<rparr>))
     = take (Suc 0 * nat 2) (all_token_ids ((sample_request ''b'' [1, 2, 7] [])\<lparr>block_hashes := [[1, 9, 1, 2]]\<rparr>))"
proof -
  have h: "hashed toy_hash [9] 2 ((sample_request rid [1, 2, t] [])\<lparr>block_hashes := [[1, 9, 1, 2]]\<rparr>) [None]"
    "contents 2 ((sample_request rid [1, 2, t] [])\<lparr>block_hashes := [[1, 9, 1, 2]]\<rparr>) [None] = [([1, 2], None)]" for rid t
    by (simp_all add: hashed_def contents_def num_tokens_def py_slice_def hash_block_tokens_def toy_hash_def Let_def)
  show ?thesis
    using equal_block_hash_equal_prefix[OF _ h(1)[of "''a''" 3] h(1)[of "''b''" 7], of 0 0]
    by (simp add: h collision_free_def toy_hash_def)
qed

theorem incremental_hashing_equals_one_shot_witness:
  "\<exists>r r'. Request_init (Some (request_block_hasher toy_hash [9] 2)) 0 0 (sample_engine_request ''a'' [1, 2, 3] []) = Inr r \<and>
     append_output_token_ids (Some (request_block_hasher toy_hash [9] 2)) [4] r = Inr r' \<and>
     request_block_hasher toy_hash [9] 2 (r'\<lparr>block_hashes := []\<rparr>) = Inr (block_hashes r')"
proof -
  define r0 where "r0 = sample_request ''a'' [1, 2, 3] []"
  have r0: "block_hashes r0 = []" "all_token_ids r0 = [1, 2, 3]" "mm_features r0 = []" by (simp_all add: r0_def)
  then have e: "r0\<lparr>block_hashes := []\<rparr> = r0" by (cases r0) simp
  obtain kss where k: "length kss = nat (num_tokens r0 div 2)"
    "request_block_hasher toy_hash [9] 2 r0 = Inr (chain toy_hash [9] None (contents 2 r0 kss))"
    using one_shot_spec[of 2 r0 toy_hash "[9]"] e by auto
  define r where "r = r0\<lparr>block_hashes := chain toy_hash [9] None (contents 2 r0 kss)\<rparr>"
  have i: "Request_init (Some (request_block_hasher toy_hash [9] 2)) 0 0 (sample_engine_request ''a'' [1, 2, 3] []) = Inr r"
    using sample_request_init[of "''a''" "[1, 2, 3]" "[]"] k(2)
    by (auto simp: Request_init_def res_bind_eq_Inr Let_def r0_def r_def)
  have f: "request_block_hasher toy_hash [9] 2 (r\<lparr>block_hashes := []\<rparr>) = Inr (block_hashes r)"
    using k(2) e by (simp add: r_def)
  obtain kss' where "hashed toy_hash [9] 2 r kss'" using init_hashed[OF _ i] by auto
  then obtain r' where a: "append_output_token_ids (Some (request_block_hasher toy_hash [9] 2)) [4] r = Inr r'"
    using append_hashed[of 2 toy_hash "[9]" r kss' "[4]"] by auto
  have "mm_done r (int (length (block_hashes r)) * 2)" by (simp add: mm_done_def r_def r0)
  then show ?thesis using incremental_hashing_equals_one_shot[OF _ f _ a] i a by auto
qed


definition mm_item :: "string \<Rightarrow> int \<Rightarrow> int \<Rightarrow> MultiModalFeatureSpec" where
  "mm_item ident off len =
     \<lparr>modality = ''image'', mm_identifier = ident, mm_position = \<lparr>offset = off, length_p = len\<rparr>\<rparr>"

text \<open>A prompt of seven tokens whose second, unfinished block of four holds two images.\<close>

definition two_images :: "string \<Rightarrow> string \<Rightarrow> int list \<Rightarrow> Request" where
  "two_images a b toks = sample_request ''r'' toks [mm_item a 4 1, mm_item b 5 1]"

lemma two_images_sel [simp]:
  "all_token_ids (two_images a b toks) = toks" "block_hashes (two_images a b toks) = []"
  "mm_features (two_images a b toks) = [mm_item a 4 1, mm_item b 5 1]"
  "lora_request (two_images a b toks) = None" "cache_salt (two_images a b toks) = None"
  "prompt_embeds (two_images a b toks) = None" "output_token_ids (two_images a b toks) = []"
  by (simp_all add: two_images_def)

lemmas hasher_eval = request_block_hasher_def hasher_loop.simps generate_block_hash_extra_keys_def
  gen_mm_extra_hash_keys_def gen_lora_extra_hash_keys_def cache_salt_keys_def
  gen_prompt_embeds_extra_hash_keys_def num_tokens_def mm_item_def Let_def

text \<open>Two indices into feature lists with the same last element that stand at the same distance from it.\<close>

definition same_tail :: "'a list \<Rightarrow> 'a list \<Rightarrow> int \<Rightarrow> int \<Rightarrow> bool" where
  "same_tail fs fs' i i' \<longleftrightarrow> i = - 1 \<and> i' = - 1 \<or> (\<exists>d. i = int (length fs + d) \<and> i' = int (length fs' + d))"

lemma gen_mm_same_tail:
  assumes "same_tail fs fs' i i'"
  shows "(\<exists>ks j j'. gen_mm_extra_hash_keys (r\<lparr>mm_features := fs @ [f]\<rparr>) s e i = Inr (ks, j) \<and>
     gen_mm_extra_hash_keys (r\<lparr>mm_features := fs' @ [f]\<rparr>) s e i' = Inr (ks, j') \<and> same_tail fs fs' j j')"
proof -
  obtain d where d: "i = - 1 \<and> i' = - 1 \<and> d = 0 \<or> i = int (length fs + d) \<and> i' = int (length fs' + d)"
    using assms by (auto simp: same_tail_def)
  obtain ks n where kn: "mm_key_loop s e (drop d [f]) = (ks, n)" by fastforce
  have "same_tail fs fs' (int (length fs + d) + int n) (int (length fs' + d) + int n)"
    unfolding same_tail_def by (rule disjI2) (rule exI[of _ "d + n"], simp)
  moreover have "nat (int (length xs) + int d) - length xs = d" for xs :: "MultiModalFeatureSpec list" by simp
  ultimately show ?thesis
    using d kn assms by (auto simp: gen_mm_extra_hash_keys_def Let_def)
qed

lemma hasher_loop_same_tail:
  assumes "0 < bs" "same_tail fs fs' i i'"
  shows "hasher_loop H N bs (r\<lparr>mm_features := fs @ [f]\<rparr>) s i prev acc =
    hasher_loop H N bs (r\<lparr>mm_features := fs' @ [f]\<rparr>) s i' prev acc"
  using assms(2)
proof (induction "nat (num_tokens r - s)" arbitrary: s i i' prev acc rule: less_induct)
  case less
  show ?case
  proof (cases "num_tokens r < s + bs")
    case False
    obtain ks j j' where g: "gen_mm_extra_hash_keys (r\<lparr>mm_features := fs @ [f]\<rparr>) s (s + bs) i = Inr (ks, j)"
      "gen_mm_extra_hash_keys (r\<lparr>mm_features := fs' @ [f]\<rparr>) s (s + bs) i' = Inr (ks, j')" "same_tail fs fs' j j'"
      using gen_mm_same_tail[OF less.prems] by blast
    have "nat (num_tokens r - (s + bs)) < nat (num_tokens r - s)" using False assms(1) by simp
    note IH = less.hyps[OF this g(3)]
    show ?thesis
      using False g(1,2) IH
      by (subst (1 2) hasher_loop.simps)
        (simp add: generate_block_hash_extra_keys_def gen_lora_extra_hash_keys_def cache_salt_keys_def
          gen_prompt_embeds_extra_hash_keys_def num_tokens_def Let_def)
  qed (simp add: hasher_loop.simps num_tokens_def)
qed

text \<open>
  C33: once a request has block hashes, the hasher looks at the last multimodal input only. Whatever the earlier
  inputs are and wherever they lie, the new block hashes of a request are the same as those of the request with any other
  list of inputs before the last one.
\<close>

theorem incremental_hash_misses_earlier_image:
  assumes "0 < bs" "block_hashes r \<noteq> []"
  shows "request_block_hasher H N bs (r\<lparr>mm_features := fs @ [f]\<rparr>) =
    request_block_hasher H N bs (r\<lparr>mm_features := fs' @ [f]\<rparr>)"
proof -
  have p: "0 < int (length (block_hashes r)) * bs" using assms by simp
  have "same_tail fs fs' (- 1) (- 1)" by (simp add: same_tail_def)
  from hasher_loop_same_tail[OF assms(1) this] show ?thesis
    using p assms(2) by (simp add: request_block_hasher_def num_tokens_def Let_def)
qed

theorem incremental_hash_misses_earlier_image_witness:
  "\<forall>H N. \<exists>h0. request_block_hasher H N 4 (two_images ''x'' ''b'' [1, 2, 3, 4, 5, 6, 7]) = Inr [h0] \<and>
     request_block_hasher H N 4 (two_images ''y'' ''b'' [1, 2, 3, 4, 5, 6, 7]) = Inr [h0] \<and>
     request_block_hasher H N 4 ((two_images ''x'' ''b'' [1, 2, 3, 4, 5, 6, 7, 8])\<lparr>block_hashes := [h0]\<rparr>) =
     request_block_hasher H N 4 ((two_images ''y'' ''b'' [1, 2, 3, 4, 5, 6, 7, 8])\<lparr>block_hashes := [h0]\<rparr>) \<and>
     request_block_hasher H N 4 (two_images ''x'' ''b'' [1, 2, 3, 4, 5, 6, 7, 8])
       = Inr [h0, hash_block_tokens H N (Some h0) [5, 6, 7, 8] (Some [KStr ''x'', KStr ''b''])]"
proof -
  have e: "(two_images a b toks)\<lparr>block_hashes := hs\<rparr> =
    (two_images [] b toks)\<lparr>block_hashes := hs, mm_features := [mm_item a 4 1] @ [mm_item b 5 1]\<rparr>" for a b toks hs
    by (simp add: two_images_def sample_request_def sample_engine_request_def sample_sampling_def Request_init_def new_Request_def Request_max_tokens_def length_from_prompt_token_ids_or_embeds_def)
  have "request_block_hasher H N 4 ((two_images ''x'' ''b'' [1, 2, 3, 4, 5, 6, 7, 8])\<lparr>block_hashes := [h]\<rparr>) =
     request_block_hasher H N 4 ((two_images ''y'' ''b'' [1, 2, 3, 4, 5, 6, 7, 8])\<lparr>block_hashes := [h]\<rparr>)" for H N h
    unfolding e[where a = "''x''"] e[where a = "''y''"]
    by (rule incremental_hash_misses_earlier_image) simp_all
  then show ?thesis by (simp add: hasher_eval py_slice_def)
qed

section \<open>Coarser hash lists\<close>

lemma py_index_nonneg: "0 \<le> i \<Longrightarrow> i < int (length xs) \<Longrightarrow> py_index xs i = Inr (xs ! nat i)"
  by (simp add: py_index_def)

lemma upto_int: "[0..int n - 1] = map int [0..<n]"
  by (induction n) (auto simp: upto_rec2)

lemma upto_int_from: "k \<le> n \<Longrightarrow> [int k..int n - 1] = map int [k..<n]"
proof (induction n)
  case (Suc n)
  then show ?case by (cases "k = Suc n") (simp_all add: upto_rec2[of "int k" "int n"])
qed simp

lemma merge_loop:
  assumes "0 \<le> b" "b + int n \<le> int (length hs)"
  shows "res_fold (\<lambda>acc i. res_bind (py_index hs i) (\<lambda>h. Inr (acc @ h))) acc [b..b + int n - 1]
     = Inr (acc @ concat (take n (drop (nat b) hs)))"
  using assms
proof (induction n arbitrary: b acc)
  case (Suc n)
  have u: "[b..b + int (Suc n) - 1] = b # [b + 1..b + 1 + int n - 1]" by (subst upto_rec1) auto
  have d: "drop (nat b) hs = hs ! nat b # drop (nat (b + 1)) hs"
    using Suc.prems by (simp add: Cons_nth_drop_Suc nat_add_distrib)
  have "res_fold (\<lambda>acc i. res_bind (py_index hs i) (\<lambda>h. Inr (acc @ h))) (acc @ hs ! nat b) [b + 1..b + 1 + int n - 1]
     = Inr ((acc @ hs ! nat b) @ concat (take n (drop (nat (b + 1)) hs)))"
    by (rule Suc.IH) (use Suc.prems in auto)
  then show ?case using Suc.prems unfolding u d by (simp add: py_index_nonneg)
qed simp

lemma get_value_at_spec:
  assumes "0 < scale_factor l" "0 \<le> idx" "idx * scale_factor l + scale_factor l \<le> int (length (fine_hashes l))"
  shows "get_value_at l idx
    = Inr (concat (take (nat (scale_factor l)) (drop (nat idx * nat (scale_factor l)) (fine_hashes l))))"
proof -
  let ?f = "scale_factor l" and ?b = "idx * scale_factor l" and ?hs = "fine_hashes l"
  have b: "0 \<le> ?b" "nat ?b = nat idx * nat ?f" using assms by (simp_all add: nat_mult_distrib)
  have i: "py_index ?hs ?b = Inr (?hs ! nat ?b)" using assms b by (intro py_index_nonneg) linarith+
  have m: "res_fold (\<lambda>acc i. res_bind (py_index ?hs i) (\<lambda>h. Inr (acc @ h))) (?hs ! nat ?b) [?b + 1..?b + ?f - 1]
     = Inr ((?hs ! nat ?b) @ concat (take (nat (?f - 1)) (drop (nat (?b + 1)) ?hs)))"
    using merge_loop[of "?b + 1" "nat (?f - 1)" ?hs "?hs ! nat ?b"] assms b by simp
  have "nat ?b < length ?hs" using assms b by linarith
  then have "drop (nat ?b) ?hs = ?hs ! nat ?b # drop (nat (?b + 1)) ?hs"
    using b by (simp add: Cons_nth_drop_Suc nat_add_distrib)
  moreover have "nat ?f = Suc (nat (?f - 1))" using assms by simp
  ultimately have "concat (take (nat ?f) (drop (nat ?b) ?hs))
      = ?hs ! nat ?b @ concat (take (nat (?f - 1)) (drop (nat (?b + 1)) ?hs))"
    by (simp only: take_Suc_Cons concat.simps)
  then show ?thesis using i m b by (simp add: get_value_at_def Let_def)
qed

text \<open>The hashes of \<open>hs\<close> merged to the granularity of \<open>t\<close> tokens.\<close>

definition scaled_hashes :: "int \<Rightarrow> int \<Rightarrow> bytes list \<Rightarrow> bytes list" where
  "scaled_hashes hbs t hs =
     (let f = nat (t div hbs) in map (\<lambda>i. concat (take f (drop (i * f) hs))) [0..<length hs div f])"

lemma length_scaled: "length (scaled_hashes hbs t hs) = length hs div nat (t div hbs)"
  by (simp add: scaled_hashes_def Let_def)

lemma scaled_same: "0 < hbs \<Longrightarrow> scaled_hashes hbs hbs hs = hs"
  by (rule nth_equalityI) (simp_all add: scaled_hashes_def flip: Cons_nth_drop_Suc)

lemma bhl_scaled:
  assumes "0 < hbs" "0 < t" "t mod hbs = 0"
  shows "\<exists>l. BlockHashListWithBlockSize_init hs hbs t = Inr l \<and> bhl_len l = Inr (int (length (scaled_hashes hbs t hs))) \<and>
    bhl_iter l = Inr (scaled_hashes hbs t hs) \<and> (\<forall>k\<ge>0. bhl_from l k = Inr (drop (nat k) (scaled_hashes hbs t hs)))"
proof -
  let ?f = "t div hbs" and ?n = "length (scaled_hashes hbs t hs)"
  have "hbs \<le> t" using assms(2,3) by (intro zdvd_imp_le) auto
  then have f: "0 < ?f" using int_le_div_iff[OF assms(1), of 1 t] by simp
  define l where "l = \<lparr>fine_hashes = hs, scale_factor = ?f\<rparr>"
  have len: "bhl_len l = Inr (int ?n)" using f by (simp add: bhl_len_def l_def zdiv_int length_scaled)
  have v: "get_value_at l (int i) = Inr (scaled_hashes hbs t hs ! i)" if "i < ?n" for i
  proof -
    have i: "i < length hs div nat ?f" using that by (simp add: length_scaled)
    then have "Suc i * nat ?f \<le> length hs"
      by (metis Suc_leI div_times_less_eq_dividend mult_le_mono1 order_trans)
    then have "int (Suc i * nat ?f) \<le> int (length hs)" by (simp only: of_nat_le_iff)
    moreover have e: "scaled_hashes hbs t hs ! i = concat (take (nat ?f) (drop (i * nat ?f) hs))"
      using i by (simp add: scaled_hashes_def Let_def)
    ultimately show ?thesis unfolding e using get_value_at_spec[of l "int i"] f by (simp add: l_def algebra_simps)
  qed
  have vals: "res_map (get_value_at l) [int k..int ?n - 1] = Inr (drop k (scaled_hashes hbs t hs))" if "k \<le> ?n" for k
  proof -
    have e: "[int k..int ?n - 1] = map int [k..<?n]" by (rule upto_int_from[OF that])
    have "res_map (get_value_at l) (map int [k..<?n]) = Inr (map (\<lambda>i. scaled_hashes hbs t hs ! nat i) (map int [k..<?n]))"
      by (rule res_map_pure) (use v in auto)
    moreover have "map (\<lambda>i. scaled_hashes hbs t hs ! nat i) (map int [k..<?n]) = drop k (scaled_hashes hbs t hs)"
      by (rule nth_equalityI) (simp_all add: nat_add_distrib)
    ultimately show ?thesis by (simp only: e)
  qed
  have "bhl_from l k = Inr (drop (nat k) (scaled_hashes hbs t hs))" if "0 \<le> k" for k
  proof (cases "k \<le> int ?n")
    case True
    then show ?thesis using vals[of "nat k"] that len by (simp add: bhl_from_def min_def)
  next
    case False
    then show ?thesis using vals[of ?n] len by (simp add: bhl_from_def min_def)
  qed
  moreover have "bhl_iter l = Inr (scaled_hashes hbs t hs)" using vals[of 0] len by (simp add: bhl_iter_def)
  moreover have "BlockHashListWithBlockSize_init hs hbs t = Inr l"
    using assms by (simp add: BlockHashListWithBlockSize_init_def l_def)
  ultimately show ?thesis using len by blast
qed

text \<open>
  C37: a \<open>BlockHashListWithBlockSize\<close> over hashes of \<open>hash_block_size\<close> tokens, for a target size that is
  a positive multiple, iterates over exactly the full groups of consecutive hashes, each merged by
  concatenation, and never raises; a target size that is not a multiple is rejected.
\<close>

theorem block_hash_list_groups:
  assumes "0 < hash_block_size" "0 < target_block_size"
  shows "(target_block_size mod hash_block_size \<noteq> 0 \<longrightarrow>
            BlockHashListWithBlockSize_init hs hash_block_size target_block_size = Inl AssertionError) \<and>
    (target_block_size mod hash_block_size = 0 \<longrightarrow>
       (\<exists>l. BlockHashListWithBlockSize_init hs hash_block_size target_block_size = Inr l \<and>
          (let f = nat (target_block_size div hash_block_size); n = length hs div f
           in bhl_len l = Inr (int n) \<and>
              bhl_iter l = Inr (map (\<lambda>i. concat (take f (drop (i * f) hs))) [0..<n]))))"
  using bhl_scaled[OF assms, of hs] assms
  by (auto simp: BlockHashListWithBlockSize_init_def Let_def scaled_hashes_def)

theorem block_hash_list_groups_witness:
  "\<exists>l. BlockHashListWithBlockSize_init [[1], [2], [3], [4], [5]] 16 32 = Inr l \<and>
     bhl_iter l = Inr [[1, 2], [3, 4]]"
  using block_hash_list_groups[of 16 32 "[[1], [2], [3], [4], [5]]"] by (auto simp: Let_def)

end
