(* ===== verification/Free_Block_Queue.thy ===== *)
theory Free_Block_Queue
  imports Prelude
begin

text \<open>
  Block metadata and the intrusive doubly linked list of free blocks
  (\<open>vllm/v1/core/kv_cache_utils.py\<close>, classes \<open>KVCacheBlock\<close> and \<open>FreeKVCacheBlockQueue\<close>).

  The Python objects live in a store \<open>heap\<close> from block references to block records; the queue
  methods rewrite the \<open>prev_free_block\<close>/\<open>next_free_block\<close> pointers of that store exactly as the
  code does. The predicate \<open>fq_repr\<close> relates the pointer structure to the list of blocks it
  represents, and the interface \<open>block_queue\<close> states every method over that list.
\<close>

section \<open>Blocks\<close>

text \<open>
  References to the blocks of the pool (by position in \<open>BlockPool.blocks\<close>) and to the two sentinel
  objects that the queue allocates for itself.
\<close>

datatype bref = Blk nat | FakeHead | FakeTail

record KVCacheBlock =
  block_id :: int
  ref_cnt :: int
  block_hash :: "bytes option"
  prev_free_block :: "bref option"
  next_free_block :: "bref option"
  is_null :: bool

text \<open>The dataclass constructor \<open>KVCacheBlock(block_id=i)\<close> with its field defaults.\<close>

definition new_KVCacheBlock :: "int \<Rightarrow> KVCacheBlock" where
  "new_KVCacheBlock i = \<lparr>block_id = i, ref_cnt = 0, block_hash = None,
     prev_free_block = None, next_free_block = None, is_null = False\<rparr>"

record free_queue =
  heap :: "bref \<Rightarrow> KVCacheBlock"
  num_free_blocks :: int

definition upd_block ::
    "bref \<Rightarrow> (KVCacheBlock \<Rightarrow> KVCacheBlock) \<Rightarrow> 'z free_queue_scheme \<Rightarrow> 'z free_queue_scheme" where
  "upd_block b f q = q\<lparr>heap := (heap q)(b := f (heap q b))\<rparr>"

text \<open>The property setter of \<open>KVCacheBlock.block_hash\<close> and the method \<open>reset_hash\<close>.\<close>

definition set_block_hash ::
    "bref \<Rightarrow> bytes \<Rightarrow> 'z free_queue_scheme \<Rightarrow> ('z free_queue_scheme) result" where
  "set_block_hash b h q =
     res_bind (py_assert (block_hash (heap q b) = None)) (\<lambda>_.
       Inr (upd_block b (block_hash_update (\<lambda>_. Some h)) q))"

definition reset_hash :: "bref \<Rightarrow> 'z free_queue_scheme \<Rightarrow> 'z free_queue_scheme" where
  "reset_hash b q = upd_block b (block_hash_update (\<lambda>_. None)) q"

abbreviation set_next :: "bref \<Rightarrow> bref option \<Rightarrow> 'z free_queue_scheme \<Rightarrow> 'z free_queue_scheme" where
  "set_next b v \<equiv> upd_block b (next_free_block_update (\<lambda>_. v))"

abbreviation set_prev :: "bref \<Rightarrow> bref option \<Rightarrow> 'z free_queue_scheme \<Rightarrow> 'z free_queue_scheme" where
  "set_prev b v \<equiv> upd_block b (prev_free_block_update (\<lambda>_. v))"

definition nxt :: "'z free_queue_scheme \<Rightarrow> bref \<Rightarrow> bref option" where
  "nxt q = (\<lambda>b. next_free_block (heap q b))"

definition prv :: "'z free_queue_scheme \<Rightarrow> bref \<Rightarrow> bref option" where
  "prv q = (\<lambda>b. prev_free_block (heap q b))"

section \<open>The methods of \<open>FreeKVCacheBlockQueue\<close>\<close>

text \<open>
  \<open>__init__\<close>: link consecutive blocks, then create the two sentinels and connect them to the ends.
\<close>

definition link_neighbours :: "bref list \<Rightarrow> 'z free_queue_scheme \<Rightarrow> nat \<Rightarrow> 'z free_queue_scheme" where
  "link_neighbours blocks q i =
     (let q = (if i > 0 then set_prev (blocks ! i) (Some (blocks ! (i - 1))) q else q)
      in if i < length blocks - 1 then set_next (blocks ! i) (Some (blocks ! (i + 1))) q else q)"

definition FreeKVCacheBlockQueue_init ::
    "bref list \<Rightarrow> 'z free_queue_scheme \<Rightarrow> 'z free_queue_scheme" where
  "FreeKVCacheBlockQueue_init blocks q0 =
     (let q = q0\<lparr>num_free_blocks := int (length blocks)\<rparr>;
          q = foldl (link_neighbours blocks) q [0..<length blocks];
          q = upd_block FakeHead (\<lambda>_. new_KVCacheBlock (- 1)) q;
          q = upd_block FakeTail (\<lambda>_. new_KVCacheBlock (- 1)) q
      in if num_free_blocks q > 0
         then set_next (last blocks) (Some FakeTail)
               (set_prev FakeTail (Some (last blocks))
                 (set_prev (hd blocks) (Some FakeHead)
                   (set_next FakeHead (Some (hd blocks)) q)))
         else set_prev FakeTail (Some FakeHead) (set_next FakeHead (Some FakeTail) q))"

definition popleft :: "'z free_queue_scheme \<Rightarrow> (bref \<times> 'z free_queue_scheme) result" where
  "popleft q = (case nxt q FakeHead of
       None \<Rightarrow> res_bind (py_assert (num_free_blocks q = 0)) (\<lambda>_. Inl ValueError)
     | Some first_block \<Rightarrow>
         if first_block = FakeTail
         then res_bind (py_assert (num_free_blocks q = 0)) (\<lambda>_. Inl ValueError)
         else case nxt q first_block of
             None \<Rightarrow> Inl RuntimeError
           | Some second \<Rightarrow>
               let q = set_next FakeHead (Some second) q;
                   q = set_prev second (Some FakeHead) q;
                   q = set_prev first_block None (set_next first_block None q)
               in Inr (first_block, q\<lparr>num_free_blocks := num_free_blocks q - 1\<rparr>))"

text \<open>The \<open>for _ in range(n)\<close> loop of \<open>popleft_n\<close>: returns \<open>curr_block\<close>, \<open>ret\<close> and the store.\<close>

fun popleft_n_loop :: "nat \<Rightarrow> bref option \<Rightarrow> bref list \<Rightarrow> 'z free_queue_scheme
    \<Rightarrow> (bref option \<times> bref list \<times> 'z free_queue_scheme) result" where
  "popleft_n_loop 0 cur ret q = Inr (cur, ret, q)"
| "popleft_n_loop (Suc n) None ret q = Inl AssertionError"
| "popleft_n_loop (Suc n) (Some b) ret q =
     popleft_n_loop n (nxt q b) (ret @ [b]) (set_next b None (set_prev b None q))"

definition popleft_n :: "int \<Rightarrow> 'z free_queue_scheme \<Rightarrow> (bref list \<times> 'z free_queue_scheme) result" where
  "popleft_n n q =
     (if n = 0 then Inr ([], q)
      else res_bind (py_assert (num_free_blocks q \<ge> n)) (\<lambda>_.
        res_bind (popleft_n_loop (nat n) (nxt q FakeHead) []
                    (q\<lparr>num_free_blocks := num_free_blocks q - n\<rparr>)) (\<lambda>(cur, ret, q).
          case cur of
            None \<Rightarrow> Inr (ret, q)
          | Some b \<Rightarrow> Inr (ret, set_prev b (Some FakeHead) (set_next FakeHead (Some b) q)))))"

definition remove_q :: "bref \<Rightarrow> 'z free_queue_scheme \<Rightarrow> ('z free_queue_scheme) result" where
  "remove_q b q = (case (prv q b, nxt q b) of
       (Some p, Some n) \<Rightarrow>
         (let q = set_next p (Some n) q;
              q = set_prev n (Some p) q;
              q = set_prev b None (set_next b None q)
          in Inr (q\<lparr>num_free_blocks := num_free_blocks q - 1\<rparr>))
     | _ \<Rightarrow> Inl RuntimeError)"

definition append_q :: "bref \<Rightarrow> 'z free_queue_scheme \<Rightarrow> ('z free_queue_scheme) result" where
  "append_q b q = (case prv q FakeTail of
       None \<Rightarrow> Inl RuntimeError
     | Some last_block \<Rightarrow>
         (let q = set_next last_block (Some b) q;
              q = set_prev b (Some last_block) q;
              q = set_next b (Some FakeTail) q;
              q = set_prev FakeTail (Some b) q
          in Inr (q\<lparr>num_free_blocks := num_free_blocks q + 1\<rparr>)))"

fun append_n_loop :: "bref \<Rightarrow> bref list \<Rightarrow> 'z free_queue_scheme \<Rightarrow> bref \<times> 'z free_queue_scheme" where
  "append_n_loop last_block [] q = (last_block, q)"
| "append_n_loop last_block (b # bs) q =
     append_n_loop b bs (set_next last_block (Some b) (set_prev b (Some last_block) q))"

definition append_n :: "bref list \<Rightarrow> 'z free_queue_scheme \<Rightarrow> ('z free_queue_scheme) result" where
  "append_n blocks q =
     (if blocks = [] then Inr q
      else case prv q FakeTail of
        None \<Rightarrow> Inl AssertionError
      | Some last_block \<Rightarrow>
          (case append_n_loop last_block blocks q of (last_block, q) \<Rightarrow>
             let q = set_next last_block (Some FakeTail) q;
                 q = set_prev FakeTail (Some last_block) q
             in Inr (q\<lparr>num_free_blocks := num_free_blocks q + int (length blocks)\<rparr>)))"

text \<open>
  The \<open>while\<close> loop of \<open>get_all_free_blocks\<close> follows pointers and ends only on a well-formed list;
  not returning is the value \<open>None\<close>.
\<close>

partial_function (option) collect_free ::
    "(bref \<Rightarrow> KVCacheBlock) \<Rightarrow> bref \<Rightarrow> bref list \<Rightarrow> bref list option" where
  "collect_free h cur ret = (case next_free_block (h cur) of
       None \<Rightarrow> Some ret
     | Some n \<Rightarrow> collect_free h n (ret @ [cur]))"

definition get_all_free_blocks :: "'z free_queue_scheme \<Rightarrow> (bref list result) option" where
  "get_all_free_blocks q = (case nxt q FakeHead of
       None \<Rightarrow> Some (Inl RuntimeError)
     | Some b \<Rightarrow> map_option Inr (collect_free (heap q) b []))"

declare collect_free.simps [code]


section \<open>Representation\<close>

text \<open>
  \<open>dll N P a xs b\<close>: following \<open>N\<close> from \<open>a\<close> visits exactly \<open>xs\<close> and then \<open>b\<close>, and \<open>P\<close> leads back.
\<close>

fun dll :: "('b \<Rightarrow> 'b option) \<Rightarrow> ('b \<Rightarrow> 'b option) \<Rightarrow> 'b \<Rightarrow> 'b list \<Rightarrow> 'b \<Rightarrow> bool" where
  "dll N P a [] b \<longleftrightarrow> N a = Some b \<and> P b = Some a"
| "dll N P a (x # xs) b \<longleftrightarrow> N a = Some x \<and> P x = Some a \<and> dll N P x xs b"

lemma dll_cong:
  "(\<And>x. x \<in> set (a # xs) \<Longrightarrow> N x = N' x) \<Longrightarrow> (\<And>x. x \<in> set (xs @ [b]) \<Longrightarrow> P x = P' x) \<Longrightarrow>
   dll N P a xs b = dll N' P' a xs b"
  by (induction xs arbitrary: a) auto

lemma dll_append [simp]: "dll N P a (xs @ y # ys) b \<longleftrightarrow> dll N P a xs y \<and> dll N P y ys b"
  by (induction xs arbitrary: a) auto

lemma dll_next_upd [simp]: "c \<notin> set (a # xs) \<Longrightarrow> dll (N(c := v)) P a xs b = dll N P a xs b"
  by (rule dll_cong) auto

lemma dll_prev_upd [simp]: "c \<notin> set (xs @ [b]) \<Longrightarrow> dll N (P(c := v)) a xs b = dll N P a xs b"
  by (rule dll_cong) auto

lemma dll_first: "dll N P a xs b \<Longrightarrow> N a = Some (hd (xs @ [b]))"
  by (cases xs) auto

lemma dll_last: "dll N P a xs b \<Longrightarrow> P b = Some (last (a # xs))"
  by (induction xs arbitrary: a) auto

text \<open>Cutting off a prefix: only the links around the new first element may differ.\<close>

lemma dll_drop:
  assumes "dll N P a (xs @ ys) b" "distinct (ys @ [b])" "\<forall>c\<in>set ys. N' c = N c"
    "\<forall>c\<in>set (tl (ys @ [b])). P' c = P c" "N' a = Some (hd (ys @ [b]))" "P' (hd (ys @ [b])) = Some a"
  shows "dll N' P' a ys b"
proof (cases ys)
  case (Cons y zs)
  then have "dll N P y zs b" using assms(1) by simp
  then have "dll N' P' y zs b"
    by (rule dll_cong[THEN iffD1, rotated 2]) (use assms(3,4) Cons in auto)
  then show ?thesis using assms Cons by simp
qed (use assms in simp)

definition fq_repr :: "'z free_queue_scheme \<Rightarrow> bref list \<Rightarrow> bool" where
  "fq_repr q xs \<longleftrightarrow>
     dll (nxt q) (prv q) FakeHead xs FakeTail \<and> distinct xs \<and>
     FakeHead \<notin> set xs \<and> FakeTail \<notin> set xs \<and>
     nxt q FakeTail = None \<and> prv q FakeHead = None \<and>
     num_free_blocks q = int (length xs) \<and>
     (\<forall>b. b \<notin> set xs \<and> b \<noteq> FakeHead \<and> b \<noteq> FakeTail \<longrightarrow> nxt q b = None \<and> prv q b = None)"

text \<open>
  What a queue method may touch: the links and the counter, never the payload of a block or any
  other component of the state that embeds the queue.
\<close>

definition payload :: "KVCacheBlock \<Rightarrow> int \<times> int \<times> bytes option \<times> bool" where
  "payload b = (block_id b, ref_cnt b, block_hash b, is_null b)"

definition links_only :: "'z free_queue_scheme \<Rightarrow> 'z free_queue_scheme \<Rightarrow> bool" where
  "links_only q q' \<longleftrightarrow>
     (\<forall>b. payload (heap q' b) = payload (heap q b)) \<and> free_queue.more q' = free_queue.more q"

lemma links_only_refl [simp]: "links_only q q"
  by (simp add: links_only_def)

lemma links_only_trans: "links_only q r \<Longrightarrow> links_only r s \<Longrightarrow> links_only q s"
  by (simp add: links_only_def)

lemma links_only_sel:
  assumes "links_only q q'"
  shows "block_id (heap q' b) = block_id (heap q b)" "ref_cnt (heap q' b) = ref_cnt (heap q b)"
    "block_hash (heap q' b) = block_hash (heap q b)" "is_null (heap q' b) = is_null (heap q b)"
    "free_queue.more q' = free_queue.more q"
  using assms by (auto simp: links_only_def payload_def)

lemma heap_upd_block [simp]: "heap (upd_block b f q) = (heap q)(b := f (heap q b))"
  by (simp add: upd_block_def)

lemma num_free_upd_block [simp]: "num_free_blocks (upd_block b f q) = num_free_blocks q"
  by (simp add: upd_block_def)

lemma more_upd_block [simp]: "free_queue.more (upd_block b f q) = free_queue.more q"
  by (simp add: upd_block_def)

lemma links_only_set [simp]:
  "links_only q (set_next b v r) = links_only q r"
  "links_only q (set_prev b v r) = links_only q r"
  "links_only q (r\<lparr>num_free_blocks := k\<rparr>) = links_only q r"
  by (auto simp: links_only_def payload_def)

text \<open>The pointer functions after a link assignment.\<close>

lemma link_upd [simp]:
  "nxt (set_next b v q) = (nxt q)(b := v)" "prv (set_next b v q) = prv q"
  "prv (set_prev b v q) = (prv q)(b := v)" "nxt (set_prev b v q) = nxt q"
  "nxt (q\<lparr>num_free_blocks := k\<rparr>) = nxt q" "prv (q\<lparr>num_free_blocks := k\<rparr>) = prv q"
  by (auto simp: nxt_def prv_def)

text \<open>Payload assignments leave the links alone, hence also the represented list.\<close>

definition link_free :: "(KVCacheBlock \<Rightarrow> KVCacheBlock) \<Rightarrow> bool" where
  "link_free f \<longleftrightarrow> (\<forall>b. next_free_block (f b) = next_free_block b \<and> prev_free_block (f b) = prev_free_block b)"

lemma link_free_upd [simp]:
  "link_free (ref_cnt_update g)" "link_free (block_hash_update h)" "link_free (is_null_update k)"
  by (simp_all add: link_free_def)

lemma link_free_nxt [simp]: "link_free f \<Longrightarrow> nxt (upd_block b f q) = nxt q"
  by (auto simp: link_free_def nxt_def)

lemma link_free_prv [simp]: "link_free f \<Longrightarrow> prv (upd_block b f q) = prv q"
  by (auto simp: link_free_def prv_def)

lemma fq_repr_upd_block [simp]: "link_free f \<Longrightarrow> fq_repr (upd_block b f q) xs = fq_repr q xs"
  by (simp add: fq_repr_def)

lemma fq_repr_distinct: "fq_repr q xs \<Longrightarrow> distinct xs"
  by (simp add: fq_repr_def)

lemma fq_repr_length: "fq_repr q xs \<Longrightarrow> num_free_blocks q = int (length xs)"
  by (simp add: fq_repr_def)

lemma fq_repr_Blk: "fq_repr q xs \<Longrightarrow> b \<in> set xs \<Longrightarrow> \<exists>i. b = Blk i"
  by (cases b) (auto simp: fq_repr_def)


section \<open>What each method does to the represented list\<close>

lemma popleft_Nil: "fq_repr q [] \<Longrightarrow> popleft q = Inl ValueError"
  by (simp add: popleft_def fq_repr_def)

lemma popleft_Cons:
  assumes "fq_repr q (x # xs)"
  shows "\<exists>q'. popleft q = Inr (x, q') \<and> fq_repr q' xs \<and> links_only q q'"
proof -
  have d: "dll (nxt q) (prv q) x xs FakeTail" "nxt q x = Some (hd (xs @ [FakeTail]))"
    using assms dll_first by (auto simp: fq_repr_def)
  show ?thesis
    using assms d by (cases xs) (auto simp: fq_repr_def popleft_def Let_def)
qed

lemma popleft_n_loop_spec:
  assumes "dll N P a (xs @ ys) FakeTail" "distinct (xs @ ys)" "\<forall>b\<in>set xs. nxt q b = N b"
  shows "\<exists>q'. popleft_n_loop (length xs) (N a) ret q
              = Inr (Some (hd (ys @ [FakeTail])), ret @ xs, q') \<and>
           nxt q' = (\<lambda>b. if b \<in> set xs then None else nxt q b) \<and>
           prv q' = (\<lambda>b. if b \<in> set xs then None else prv q b) \<and>
           num_free_blocks q' = num_free_blocks q \<and> links_only q q'"
  using assms
proof (induction xs arbitrary: q a ret)
  case Nil
  then show ?case by (auto dest: dll_first)
next
  case (Cons x xs)
  let ?q = "set_next x None (set_prev x None q)"
  have "\<exists>q'. popleft_n_loop (length xs) (N x) (ret @ [x]) ?q
              = Inr (Some (hd (ys @ [FakeTail])), (ret @ [x]) @ xs, q') \<and>
           nxt q' = (\<lambda>b. if b \<in> set xs then None else nxt ?q b) \<and>
           prv q' = (\<lambda>b. if b \<in> set xs then None else prv ?q b) \<and>
           num_free_blocks q' = num_free_blocks ?q \<and> links_only ?q q'"
    by (rule Cons.IH) (use Cons.prems in auto)
  then obtain q' where q': "popleft_n_loop (length xs) (N x) (ret @ [x]) ?q
              = Inr (Some (hd (ys @ [FakeTail])), (ret @ [x]) @ xs, q')"
      "nxt q' = (\<lambda>b. if b \<in> set xs then None else nxt ?q b)"
      "prv q' = (\<lambda>b. if b \<in> set xs then None else prv ?q b)"
      "num_free_blocks q' = num_free_blocks ?q" "links_only ?q q'" by blast
  have "links_only q q'" using links_only_trans[OF _ q'(5)] by simp
  then show ?case
    using q'(1-4) Cons.prems by (intro exI[of _ q']) (auto simp: fun_eq_iff)
qed

lemma popleft_n_short: "fq_repr q xs \<Longrightarrow> int (length xs) < n \<Longrightarrow> popleft_n n q = Inl AssertionError"
  by (simp add: popleft_n_def fq_repr_def)

lemma popleft_n_spec:
  assumes r: "fq_repr q (xs @ ys)" and n: "n = int (length xs)"
  shows "\<exists>q'. popleft_n n q = Inr (xs, q') \<and> fq_repr q' ys \<and> links_only q q'"
proof (cases "xs = []")
  case True
  then show ?thesis using r n by (simp add: popleft_n_def)
next
  case False
  let ?q = "q\<lparr>num_free_blocks := num_free_blocks q - n\<rparr>" and ?f = "hd (ys @ [FakeTail])"
  have "\<exists>q'. popleft_n_loop (length xs) (nxt q FakeHead) [] ?q = Inr (Some ?f, [] @ xs, q') \<and>
      nxt q' = (\<lambda>b. if b \<in> set xs then None else nxt ?q b) \<and>
      prv q' = (\<lambda>b. if b \<in> set xs then None else prv ?q b) \<and>
      num_free_blocks q' = num_free_blocks ?q \<and> links_only ?q q'"
    by (rule popleft_n_loop_spec[where P = "prv q" and ys = ys])
      (use r in \<open>simp_all add: fq_repr_def\<close>)
  then obtain q' where q': "popleft_n_loop (length xs) (nxt q FakeHead) [] ?q = Inr (Some ?f, xs, q')"
      "nxt q' = (\<lambda>b. if b \<in> set xs then None else nxt q b)"
      "prv q' = (\<lambda>b. if b \<in> set xs then None else prv q b)"
      "num_free_blocks q' = int (length ys)" "links_only ?q q'"
    using r n by (auto simp: fq_repr_def cong: if_cong)
  let ?q' = "set_prev ?f (Some FakeHead) (set_next FakeHead (Some ?f) q')"
  have "links_only q ?q'" using links_only_trans[OF _ q'(5)] by simp
  moreover have "dll (nxt ?q') (prv ?q') FakeHead ys FakeTail"
    by (rule dll_drop[of "nxt q" "prv q" FakeHead xs ys FakeTail])
      (use r q'(2,3) in \<open>cases ys; auto simp: fq_repr_def disjoint_iff\<close>)+
  ultimately show ?thesis
    using q'(1,2,3,4) r n False
    by (intro exI[of _ ?q']) (cases ys; auto simp: popleft_n_def fq_repr_def)
qed


lemma remove_spec:
  assumes r: "fq_repr q (xs @ b # ys)"
  shows "\<exists>q'. remove_q b q = Inr q' \<and> fq_repr q' (xs @ ys) \<and> links_only q q'"
proof -
  let ?p = "last (FakeHead # xs)" and ?n = "hd (ys @ [FakeTail])"
  have d: "dll (nxt q) (prv q) FakeHead xs b" "dll (nxt q) (prv q) b ys FakeTail"
    using r by (auto simp: fq_repr_def)
  have l: "prv q b = Some ?p" "nxt q b = Some ?n"
    using dll_last[OF d(1)] dll_first[OF d(2)] by auto
  let ?q = "set_prev b None (set_next b None (set_prev ?n (Some ?p) (set_next ?p (Some ?n) q)))"
  have "dll (nxt ?q) (prv ?q) FakeHead (xs @ ys) FakeTail"
  proof (cases xs rule: rev_cases)
    case Nil
    have "dll (nxt ?q) (prv ?q) FakeHead ys FakeTail"
      by (rule dll_drop[of "nxt q" "prv q" FakeHead "[b]" ys FakeTail])
        (use r Nil in \<open>cases ys; auto simp: fq_repr_def\<close>)+
    then show ?thesis using Nil by simp
  next
    case (snoc zs z)
    have "dll (nxt ?q) (prv ?q) z ys FakeTail"
      by (rule dll_drop[of "nxt q" "prv q" z "[b]" ys FakeTail])
        (use r snoc in \<open>cases ys; auto simp: fq_repr_def\<close>)+
    moreover have "dll (nxt ?q) (prv ?q) FakeHead zs z"
      by (rule dll_cong[of FakeHead zs "nxt q" _ z "prv q", THEN iffD1])
        (use r snoc d(1) in \<open>cases ys; auto simp: fq_repr_def disjoint_iff\<close>)+
    ultimately show ?thesis using snoc by simp
  qed
  then show ?thesis
    using r l by (cases ys; cases xs rule: rev_cases) (auto simp: fq_repr_def remove_q_def Let_def)
qed

lemma remove_absent:
  "fq_repr q xs \<Longrightarrow> Blk i \<notin> set xs \<Longrightarrow> remove_q (Blk i) q = Inl RuntimeError"
  by (auto simp: fq_repr_def remove_q_def)

text \<open>The list seen as a chain without its end, for the loop that extends it at the back.\<close>

abbreviation linked :: "'z free_queue_scheme \<Rightarrow> bref \<Rightarrow> bref \<Rightarrow> bool" where
  "linked q x y \<equiv> nxt q x = Some y \<and> prv q y = Some x"

lemma dll_chain:
  "dll (nxt q) (prv q) a xs b \<longleftrightarrow> successively (linked q) (a # xs) \<and> linked q (last (a # xs)) b"
  by (induction xs arbitrary: a) auto

lemma chain_cong:
  "(\<And>x. x \<in> set (butlast ys) \<Longrightarrow> nxt q x = nxt q' x) \<Longrightarrow>
   (\<And>x. x \<in> set (tl ys) \<Longrightarrow> prv q x = prv q' x) \<Longrightarrow>
   successively (linked q) ys = successively (linked q') ys"
  by (induction ys rule: induct_list012) auto

lemma distinct_last_butlast: "distinct ys \<Longrightarrow> ys \<noteq> [] \<Longrightarrow> last ys \<notin> set (butlast ys)"
  by (induction ys rule: rev_induct) auto

lemma append_n_loop_spec:
  assumes "successively (linked q) (a # xs)" "l = last (a # xs)" "distinct (a # xs @ bs)"
  shows "\<exists>q'. append_n_loop l bs q = (last (l # bs), q') \<and> successively (linked q') (a # xs @ bs) \<and>
     (\<forall>c. c \<notin> set (l # bs) \<longrightarrow> nxt q' c = nxt q c) \<and> (\<forall>c. c \<notin> set bs \<longrightarrow> prv q' c = prv q c) \<and>
     num_free_blocks q' = num_free_blocks q \<and> links_only q q'"
  using assms
proof (induction bs arbitrary: q xs l)
  case (Cons b bs)
  let ?q = "set_next l (Some b) (set_prev b (Some l) q)"
  have "last (a # xs) \<notin> set (butlast (a # xs))"
    by (rule distinct_last_butlast) (use Cons.prems in auto)
  then have chain: "successively (linked ?q) (a # xs)"
    using Cons.prems by (subst chain_cong[of _ ?q q]) auto
  have "successively (linked ?q) (a # xs @ [b])"
    using chain Cons.prems by (auto simp: successively_append_iff simp flip: append_Cons)
  then have "\<exists>q'. append_n_loop b bs ?q = (last (b # bs), q') \<and>
     successively (linked q') (a # (xs @ [b]) @ bs) \<and>
     (\<forall>c. c \<notin> set (b # bs) \<longrightarrow> nxt q' c = nxt ?q c) \<and> (\<forall>c. c \<notin> set bs \<longrightarrow> prv q' c = prv ?q c) \<and>
     num_free_blocks q' = num_free_blocks ?q \<and> links_only ?q q'"
    by (rule Cons.IH) (use Cons.prems in auto)
  then show ?case
    using links_only_trans[of q ?q] Cons.prems by fastforce
qed simp


lemma append_n_spec:
  assumes r: "fq_repr q xs" and d: "distinct bs" "set bs \<inter> set xs = {}" "FakeHead \<notin> set bs" "FakeTail \<notin> set bs"
  shows "\<exists>q'. append_n bs q = Inr q' \<and> fq_repr q' (xs @ bs) \<and> links_only q q'"
proof (cases "bs = []")
  case True
  then show ?thesis using r by (simp add: append_n_def)
next
  case False
  let ?l = "last (FakeHead # xs)"
  have l: "prv q FakeTail = Some ?l" and c: "successively (linked q) (FakeHead # xs)"
    using r dll_last[of "nxt q" "prv q" FakeHead xs FakeTail] by (auto simp: fq_repr_def dll_chain)
  obtain q' where q': "append_n_loop ?l bs q = (last (?l # bs), q')"
      "successively (linked q') (FakeHead # xs @ bs)"
      "\<And>c. c \<notin> set (?l # bs) \<Longrightarrow> nxt q' c = nxt q c" "\<And>c. c \<notin> set bs \<Longrightarrow> prv q' c = prv q c"
      "num_free_blocks q' = num_free_blocks q" "links_only q q'"
    using append_n_loop_spec[OF c refl, of bs] r d by (auto simp: fq_repr_def disjoint_iff)
  have e: "last (?l # bs) = last (FakeHead # xs @ bs)" using False by simp
  let ?q = "set_prev FakeTail (Some (last (?l # bs))) (set_next (last (?l # bs)) (Some FakeTail) q')"
  have "last (FakeHead # xs @ bs) \<notin> set (butlast (FakeHead # xs @ bs))"
    by (rule distinct_last_butlast) (use r d in \<open>auto simp: fq_repr_def\<close>)
  then have "successively (linked ?q) (FakeHead # xs @ bs)"
    using q'(2) e r d by (subst chain_cong[of _ ?q q']) (auto simp: fq_repr_def)
  then have D: "dll (nxt ?q) (prv ?q) FakeHead (xs @ bs) FakeTail"
    unfolding dll_chain using False by (simp only: link_upd) simp
  have l2: "?l \<in> set (FakeHead # xs)" by (rule last_in_set) simp
  have n': "nxt ?q c = nxt q c" "prv ?q c = prv q c"
    if "c \<notin> set (xs @ bs)" "c \<noteq> FakeHead" "c \<noteq> FakeTail" for c
  proof -
    have "c \<notin> set (?l # bs)" "c \<noteq> last bs" using that l2 last_in_set[OF False] by auto
    then show "nxt ?q c = nxt q c" "prv ?q c = prv q c"
      using q'(3)[of c] q'(4)[of c] that False by auto
  qed
  have "nxt ?q FakeTail = nxt q FakeTail" "prv ?q FakeHead = prv q FakeHead"
  proof -
    have "FakeTail \<notin> set (?l # bs)" "FakeTail \<noteq> last bs" "FakeHead \<notin> set bs"
      using r d l2 last_in_set[OF False] by (auto simp: fq_repr_def)
    then show "nxt ?q FakeTail = nxt q FakeTail" "prv ?q FakeHead = prv q FakeHead"
      using q'(3)[of FakeTail] q'(4)[of FakeHead] False by auto
  qed
  with D n' have "fq_repr (?q\<lparr>num_free_blocks := num_free_blocks ?q + int (length bs)\<rparr>) (xs @ bs)"
    using r d q'(5) unfolding fq_repr_def link_upd
    by (intro conjI allI impI) (simp_all add: Int_commute)
  then show ?thesis
    using False l q'(1,6) by (simp add: append_n_def Let_def)
qed

lemma set_next_prev_commute: "set_next l v (set_prev b w q) = set_prev b w (set_next l v q)"
  by (cases "l = b"; cases "heap q b") (auto simp: upd_block_def fun_upd_twist)

lemma append_q_append_n: "prv q FakeTail \<noteq> None \<Longrightarrow> append_q b q = append_n [b] q"
  by (auto simp: append_q_def append_n_def set_next_prev_commute)

lemma append_spec:
  assumes "fq_repr q xs" "b \<notin> set xs" "b \<noteq> FakeHead" "b \<noteq> FakeTail"
  shows "\<exists>q'. append_q b q = Inr q' \<and> fq_repr q' (xs @ [b]) \<and> links_only q q'"
proof -
  have "prv q FakeTail \<noteq> None"
    using assms(1) dll_last[of "nxt q" "prv q" FakeHead xs FakeTail] by (auto simp: fq_repr_def)
  then show ?thesis using append_n_spec[OF assms(1), of "[b]"] assms by (simp add: append_q_append_n)
qed

lemma collect_free_spec:
  assumes "dll (nxt q) (prv q) a xs FakeTail" "nxt q FakeTail = None" "nxt q a = Some b"
  shows "collect_free (heap q) b ret = Some (ret @ xs)"
  using assms
proof (induction xs arbitrary: a b ret)
  case Nil
  then show ?case by (simp add: nxt_def collect_free.simps)
next
  case (Cons x xs)
  obtain c where c: "nxt q x = Some c" using Cons.prems(1) dll_first[of "nxt q"] by auto
  then have "collect_free (heap q) c (ret @ [x]) = Some ((ret @ [x]) @ xs)"
    using Cons by auto
  then show ?case using Cons.prems c by (subst collect_free.simps) (simp add: nxt_def)
qed

lemma get_all_free_blocks_spec: "fq_repr q xs \<Longrightarrow> get_all_free_blocks q = Some (Inr xs)"
  using collect_free_spec[of q FakeHead xs] dll_first[of "nxt q" "prv q" FakeHead xs FakeTail]
  by (auto simp: fq_repr_def get_all_free_blocks_def)

section \<open>The constructor\<close>

lemma link_neighbours_links:
  "nxt (link_neighbours blocks q k) b
     = (if k < length blocks - 1 \<and> b = blocks ! k then Some (blocks ! (k + 1)) else nxt q b)"
  "prv (link_neighbours blocks q k) b
     = (if 0 < k \<and> b = blocks ! k then Some (blocks ! (k - 1)) else prv q b)"
  "num_free_blocks (link_neighbours blocks q k) = num_free_blocks q"
  "links_only q (link_neighbours blocks q k)"
  by (auto simp: link_neighbours_def Let_def)

lemma link_neighbours_loop:
  fixes q :: "'z free_queue_scheme"
  assumes d: "distinct blocks" and k: "k \<le> length blocks"
  defines "q' \<equiv> \<lambda>k. foldl (link_neighbours blocks) q [0..<k]"
  shows "(\<forall>i<length blocks. nxt (q' k) (blocks ! i)
            = (if i < k \<and> i < length blocks - 1 then Some (blocks ! (i + 1)) else nxt q (blocks ! i)))"
    and "(\<forall>i<length blocks. prv (q' k) (blocks ! i)
            = (if i < k \<and> i > 0 then Some (blocks ! (i - 1)) else prv q (blocks ! i)))"
    and "(\<forall>b. b \<notin> set blocks \<longrightarrow> nxt (q' k) b = nxt q b \<and> prv (q' k) b = prv q b)"
    and "num_free_blocks (q' k) = num_free_blocks q"
    and "links_only q (q' k)"
proof -
  have s: "q' (Suc k) = link_neighbours blocks (q' k) k" for k by (simp add: q'_def)
  have z: "q' 0 = q" by (simp add: q'_def)
  have eq: "blocks ! i = blocks ! k \<longleftrightarrow> i = k" if "i < length blocks" "k < length blocks" for i k
    using d that by (rule nth_eq_iff_index_eq)
  show "(\<forall>i<length blocks. nxt (q' k) (blocks ! i)
            = (if i < k \<and> i < length blocks - 1 then Some (blocks ! (i + 1)) else nxt q (blocks ! i)))"
    using k by (induction k) (auto simp: s z eq link_neighbours_links less_Suc_eq)
  show "(\<forall>i<length blocks. prv (q' k) (blocks ! i)
            = (if i < k \<and> i > 0 then Some (blocks ! (i - 1)) else prv q (blocks ! i)))"
    using k by (induction k) (auto simp: s z eq link_neighbours_links less_Suc_eq)
  have "b \<noteq> blocks ! j" if "b \<notin> set blocks" "Suc j \<le> length blocks" for b j
    using that by (metis Suc_le_lessD nth_mem)
  with k show "(\<forall>b. b \<notin> set blocks \<longrightarrow> nxt (q' k) b = nxt q b \<and> prv (q' k) b = prv q b)"
    by (induction k) (simp_all add: s z link_neighbours_links)
  show "num_free_blocks (q' k) = num_free_blocks q"
    using k by (induction k) (auto simp: s z link_neighbours_links)
  show "links_only q (q' k)"
    using k by (induction k) (auto simp: s z intro: links_only_trans link_neighbours_links(4))
qed

lemma link_new_block [simp]:
  "nxt (upd_block b (\<lambda>_. new_KVCacheBlock i) q) = (nxt q)(b := None)"
  "prv (upd_block b (\<lambda>_. new_KVCacheBlock i) q) = (prv q)(b := None)"
  by (auto simp: nxt_def prv_def new_KVCacheBlock_def)

lemma FreeKVCacheBlockQueue_init_spec:
  fixes q :: "'z free_queue_scheme"
  assumes d: "distinct blocks" and f: "FakeHead \<notin> set blocks" "FakeTail \<notin> set blocks"
    and n: "\<And>i. nxt q (Blk i) = None \<and> prv q (Blk i) = None"
  defines "q' \<equiv> FreeKVCacheBlockQueue_init blocks q"
  shows "fq_repr q' blocks \<and> (\<forall>i. payload (heap q' (Blk i)) = payload (heap q (Blk i))) \<and>
         free_queue.more q' = free_queue.more q"
proof -
  let ?q0 = "q\<lparr>num_free_blocks := int (length blocks)\<rparr>"
  define r where "r = foldl (link_neighbours blocks) ?q0 [0..<length blocks]"
  have r: "\<And>i. i < length blocks \<Longrightarrow> i < length blocks - 1 \<Longrightarrow> nxt r (blocks ! i) = Some (blocks ! Suc i)"
      "\<And>i. i < length blocks \<Longrightarrow> i > 0 \<Longrightarrow> prv r (blocks ! i) = Some (blocks ! (i - 1))"
      "\<And>b. b \<notin> set blocks \<Longrightarrow> nxt r b = nxt q b \<and> prv r b = prv q b"
      "num_free_blocks r = int (length blocks)" "links_only q r"
    using link_neighbours_loop[OF d order_refl, of ?q0] by (auto simp: r_def links_only_def)
  have chain: "successively (linked r) blocks"
    using r(1,2) by (auto simp: successively_conv_nth)
  show ?thesis
  proof (cases "blocks = []")
    case True
    then have "q' = set_prev FakeTail (Some FakeHead) (set_next FakeHead (Some FakeTail)
        (upd_block FakeTail (\<lambda>_. new_KVCacheBlock (- 1)) (upd_block FakeHead (\<lambda>_. new_KVCacheBlock (- 1)) r)))"
      using r(4) by (simp add: q'_def FreeKVCacheBlockQueue_init_def Let_def r_def)
    moreover have "nxt q b = None \<and> prv q b = None" if "b \<noteq> FakeHead" "b \<noteq> FakeTail" for b
      using n that by (cases b) auto
    ultimately show ?thesis
      using True r by (auto simp: fq_repr_def links_only_def)
  next
    case False
    then have q': "q' = set_next (last blocks) (Some FakeTail) (set_prev FakeTail (Some (last blocks))
        (set_prev (hd blocks) (Some FakeHead) (set_next FakeHead (Some (hd blocks))
        (upd_block FakeTail (\<lambda>_. new_KVCacheBlock (- 1)) (upd_block FakeHead (\<lambda>_. new_KVCacheBlock (- 1)) r)))))"
      using r(4) by (simp add: q'_def FreeKVCacheBlockQueue_init_def Let_def r_def)
    have e: "last blocks \<notin> set (butlast blocks)" "hd blocks \<notin> set (tl blocks)"
        "last blocks \<in> set blocks" "hd blocks \<in> set blocks"
      using distinct_last_butlast[OF d False] d False by (cases blocks; auto)+
    then have "FakeHead \<noteq> last blocks" "FakeTail \<noteq> hd blocks" using f by metis+
    note e = e this
    have "nxt q' x = nxt r x" if "x \<in> set (butlast blocks)" for x
      using that in_set_butlastD[OF that] e f unfolding q' by (auto simp del: fun_upd_apply simp: fun_upd_def)
    moreover have "prv q' x = prv r x" if "x \<in> set (tl blocks)" for x
      using that list.set_sel(2)[OF False that] e f unfolding q' by auto
    ultimately have "successively (linked q') blocks"
      using chain by (subst chain_cong[of _ q' r]) auto
    then have "dll (nxt q') (prv q') FakeHead blocks FakeTail"
      using False e unfolding dll_chain by (simp add: successively_Cons q')
    moreover have "nxt q' b = None \<and> prv q' b = None"
      if "b \<notin> set blocks" "b \<noteq> FakeHead" "b \<noteq> FakeTail" for b
      using r(3)[OF that(1)] n that e unfolding q' by (cases b) auto
    moreover have "nxt q' FakeTail = None" "prv q' FakeHead = None" "num_free_blocks q' = int (length blocks)"
      using e f r(4) unfolding q' by auto
    ultimately show ?thesis
      using d f r(5) by (auto simp: fq_repr_def links_only_def q' payload_def)
  qed
qed


section \<open>The queue as an interface\<close>

text \<open>
  What the block pool relies on. \<open>repr q xs\<close> says that the queue holds the blocks \<open>xs\<close> in eviction
  order, \<open>real\<close> tells blocks from sentinels, and \<open>same\<close> is the frame: a queue method leaves the
  payload of every block, and everything around the queue, as it was.
\<close>

locale block_queue =
  fixes repr :: "'q \<Rightarrow> 'b list \<Rightarrow> bool"
    and real :: "'b \<Rightarrow> bool"
    and same :: "'q \<Rightarrow> 'q \<Rightarrow> bool"
    and pop :: "'q \<Rightarrow> ('b \<times> 'q) result"
    and pop_n :: "int \<Rightarrow> 'q \<Rightarrow> ('b list \<times> 'q) result"
    and rem :: "'b \<Rightarrow> 'q \<Rightarrow> 'q result"
    and app :: "'b \<Rightarrow> 'q \<Rightarrow> 'q result"
    and app_n :: "'b list \<Rightarrow> 'q \<Rightarrow> 'q result"
  assumes same_refl: "same q q"
    and same_trans: "same q r \<Longrightarrow> same r s \<Longrightarrow> same q s"
    and repr_distinct: "repr q xs \<Longrightarrow> distinct xs"
    and repr_real: "repr q xs \<Longrightarrow> b \<in> set xs \<Longrightarrow> real b"
    and pop_empty: "repr q [] \<Longrightarrow> pop q = Inl ValueError"
    and pop_first: "repr q (x # xs) \<Longrightarrow> \<exists>q'. pop q = Inr (x, q') \<and> repr q' xs \<and> same q q'"
    and pop_n_prefix: "repr q (xs @ ys) \<Longrightarrow> n = int (length xs) \<Longrightarrow>
          \<exists>q'. pop_n n q = Inr (xs, q') \<and> repr q' ys \<and> same q q'"
    and pop_n_short: "repr q xs \<Longrightarrow> int (length xs) < n \<Longrightarrow> pop_n n q = Inl AssertionError"
    and rem_middle: "repr q (xs @ b # ys) \<Longrightarrow>
          \<exists>q'. rem b q = Inr q' \<and> repr q' (xs @ ys) \<and> same q q'"
    and rem_absent: "repr q xs \<Longrightarrow> real b \<Longrightarrow> b \<notin> set xs \<Longrightarrow> rem b q = Inl RuntimeError"
    and app_last: "repr q xs \<Longrightarrow> real b \<Longrightarrow> b \<notin> set xs \<Longrightarrow>
          \<exists>q'. app b q = Inr q' \<and> repr q' (xs @ [b]) \<and> same q q'"
    and app_n_last: "repr q xs \<Longrightarrow> \<forall>b\<in>set bs. real b \<and> b \<notin> set xs \<Longrightarrow> distinct bs \<Longrightarrow>
          \<exists>q'. app_n bs q = Inr q' \<and> repr q' (xs @ bs) \<and> same q q'"
begin

lemma rem_member:
  assumes "repr q xs" "b \<in> set xs"
  shows "\<exists>q'. rem b q = Inr q' \<and> repr q' (remove1 b xs) \<and> same q q'"
proof -
  obtain ys zs where "xs = ys @ b # zs" "b \<notin> set ys"
    using split_list_first[OF assms(2)] by blast
  then show ?thesis using rem_middle[of q ys b zs] assms(1) by (simp add: remove1_append)
qed

lemma pop_n_take:
  assumes "repr q xs" "0 \<le> n" "n \<le> int (length xs)"
  shows "\<exists>q'. pop_n n q = Inr (take (nat n) xs, q') \<and> repr q' (drop (nat n) xs) \<and> same q q'"
  using pop_n_prefix[of q "take (nat n) xs" "drop (nat n) xs" n] assms by simp

text \<open>Popping one by one is popping in bulk, and recycling popped blocks rotates the queue.\<close>

fun pop_each :: "nat \<Rightarrow> 'q \<Rightarrow> ('b list \<times> 'q) result" where
  "pop_each 0 q = Inr ([], q)"
| "pop_each (Suc n) q =
     res_bind (pop q) (\<lambda>(b, q). res_bind (pop_each n q) (\<lambda>(bs, q). Inr (b # bs, q)))"

lemma pop_each_prefix:
  assumes "repr q (xs @ ys)"
  shows "\<exists>q'. pop_each (length xs) q = Inr (xs, q') \<and> repr q' ys \<and> same q q'"
  using assms
proof (induction xs arbitrary: q)
  case Nil
  then show ?case using same_refl by auto
next
  case (Cons x xs)
  then obtain r where r: "pop q = Inr (x, r)" "repr r (xs @ ys)" "same q r"
    using pop_first[of q x "xs @ ys"] by auto
  with Cons.IH[OF r(2)] show ?case using same_trans by fastforce
qed

lemma rotate:
  assumes "repr q (xs @ ys)" "distinct zs" "set zs = set xs"
  shows "\<exists>q' q''. pop_n (int (length xs)) q = Inr (xs, q') \<and> app_n zs q' = Inr q'' \<and>
           repr q'' (ys @ zs) \<and> same q q''"
proof -
  obtain q' where q': "pop_n (int (length xs)) q = Inr (xs, q')" "repr q' ys" "same q q'"
    using pop_n_prefix[OF assms(1) refl] by blast
  have "\<forall>b\<in>set zs. real b \<and> b \<notin> set ys"
    using repr_distinct[OF assms(1)] repr_real[OF assms(1)] assms(3) by auto
  then show ?thesis using app_n_last[OF q'(2) _ assms(2)] q' same_trans by blast
qed

end

definition real_block :: "bref \<Rightarrow> bool" where
  "real_block b \<longleftrightarrow> b \<noteq> FakeHead \<and> b \<noteq> FakeTail"

lemma real_block_Blk [simp]: "real_block (Blk i)"
  by (simp add: real_block_def)

lemma fq_repr_real: "fq_repr q xs \<Longrightarrow> b \<in> set xs \<Longrightarrow> real_block b"
  using fq_repr_Blk by fastforce

lemma remove_absent_real:
  "fq_repr q xs \<Longrightarrow> real_block b \<Longrightarrow> b \<notin> set xs \<Longrightarrow> remove_q b q = Inl RuntimeError"
  by (cases b) (auto simp: remove_absent real_block_def)

lemma append_real:
  assumes "fq_repr q xs" "real_block b" "b \<notin> set xs"
  shows "\<exists>q'. append_q b q = Inr q' \<and> fq_repr q' (xs @ [b]) \<and> links_only q q'"
  using append_spec[OF assms(1,3)] assms(2) by (simp add: real_block_def)

lemma append_n_real:
  assumes "fq_repr q xs" "\<forall>b\<in>set bs. real_block b \<and> b \<notin> set xs" "distinct bs"
  shows "\<exists>q'. append_n bs q = Inr q' \<and> fq_repr q' (xs @ bs) \<and> links_only q q'"
  by (rule append_n_spec[OF assms(1,3)]) (use assms(2) in \<open>auto simp: real_block_def\<close>)

lemmas fq_laws = links_only_refl links_only_trans fq_repr_distinct fq_repr_real popleft_Nil popleft_Cons
  popleft_n_spec popleft_n_short remove_spec remove_absent_real append_real append_n_real

interpretation fq: block_queue fq_repr real_block links_only popleft popleft_n remove_q append_q append_n
  by unfold_locales (rule fq_laws; assumption)+


section \<open>Refinement of whole call sequences\<close>

text \<open>
  A client is a sequence of method calls. \<open>abs_call\<close> states each call on the list of free blocks;
  \<open>None\<close> marks a call outside the contract (a block put back while it is still free, a sentinel
  handed in, a negative count).
\<close>

datatype queue_call = Popleft | PopleftN int | Remove bref | Append bref | AppendN "bref list"

fun queue_call_step ::
    "queue_call \<Rightarrow> 'z free_queue_scheme \<Rightarrow> (bref list \<times> 'z free_queue_scheme) result" where
  "queue_call_step Popleft q = res_bind (popleft q) (\<lambda>(b, q). Inr ([b], q))"
| "queue_call_step (PopleftN n) q = popleft_n n q"
| "queue_call_step (Remove b) q = res_bind (remove_q b q) (\<lambda>q. Inr ([], q))"
| "queue_call_step (Append b) q = res_bind (append_q b q) (\<lambda>q. Inr ([], q))"
| "queue_call_step (AppendN bs) q = res_bind (append_n bs q) (\<lambda>q. Inr ([], q))"

fun queue_run ::
    "queue_call list \<Rightarrow> 'z free_queue_scheme \<Rightarrow> (bref list list \<times> 'z free_queue_scheme) result" where
  "queue_run [] q = Inr ([], q)"
| "queue_run (c # cs) q = res_bind (queue_call_step c q) (\<lambda>(out, q).
     res_bind (queue_run cs q) (\<lambda>(outs, q). Inr (out # outs, q)))"

fun abs_call :: "queue_call \<Rightarrow> bref list \<Rightarrow> ((bref list \<times> bref list) result) option" where
  "abs_call Popleft xs = Some (case xs of [] \<Rightarrow> Inl ValueError | x # xs \<Rightarrow> Inr ([x], xs))"
| "abs_call (PopleftN n) xs =
     (if n < 0 then None
      else Some (if int (length xs) < n then Inl AssertionError
                 else Inr (take (nat n) xs, drop (nat n) xs)))"
| "abs_call (Remove b) xs =
     (if \<not> real_block b then None
      else Some (if b \<in> set xs then Inr ([], remove1 b xs) else Inl RuntimeError))"
| "abs_call (Append b) xs =
     (if real_block b \<and> b \<notin> set xs then Some (Inr ([], xs @ [b])) else None)"
| "abs_call (AppendN bs) xs =
     (if distinct bs \<and> list_all (\<lambda>b. real_block b \<and> b \<notin> set xs) bs then Some (Inr ([], xs @ bs))
      else None)"

fun abs_run :: "queue_call list \<Rightarrow> bref list \<Rightarrow> ((bref list list \<times> bref list) result) option" where
  "abs_run [] xs = Some (Inr ([], xs))"
| "abs_run (c # cs) xs = (case abs_call c xs of
       None \<Rightarrow> None
     | Some (Inl e) \<Rightarrow> Some (Inl e)
     | Some (Inr (out, xs)) \<Rightarrow> (case abs_run cs xs of
           None \<Rightarrow> None
         | Some (Inl e) \<Rightarrow> Some (Inl e)
         | Some (Inr (outs, ys)) \<Rightarrow> Some (Inr (out # outs, ys))))"

text \<open>The concrete outcome \<open>c\<close>, from state \<open>q\<close>, implements the abstract outcome \<open>a\<close>.\<close>

definition implements :: "'z free_queue_scheme \<Rightarrow> ('o \<times> 'z free_queue_scheme) result
    \<Rightarrow> ('o \<times> bref list) result \<Rightarrow> bool" where
  "implements q c a \<longleftrightarrow> (case a of
       Inl e \<Rightarrow> c = Inl e
     | Inr (out, ys) \<Rightarrow> (\<exists>q'. c = Inr (out, q') \<and> fq_repr q' ys \<and> links_only q q'))"

lemma queue_call_implements:
  assumes r: "fq_repr q xs" and a: "abs_call c xs = Some a"
  shows "implements q (queue_call_step c q) a"
proof (cases c)
  case Popleft
  then show ?thesis
    using r a fq.pop_empty fq.pop_first by (cases xs) (force simp: implements_def)+
next
  case (PopleftN n)
  then show ?thesis
    using a fq.pop_n_take[OF r, of n] fq.pop_n_short[OF r, of n]
    by (auto simp: implements_def split: if_splits)
next
  case (Remove b)
  then show ?thesis
    using a fq.rem_member[OF r, of b] fq.rem_absent[OF r, of b]
    by (auto simp: implements_def split: if_splits)
next
  case (Append b)
  then show ?thesis
    using a fq.app_last[OF r, of b] by (auto simp: implements_def split: if_splits)
next
  case (AppendN bs)
  then show ?thesis
    using a fq.app_n_last[OF r, of bs] by (auto simp: implements_def list_all_iff split: if_splits)
qed

text \<open>
  C4: every sequence of \<open>popleft\<close>, \<open>popleft_n\<close>, \<open>remove\<close>, \<open>append\<close> and \<open>append_n\<close> calls within the
  contract behaves on the linked list as on the plain list of free blocks: it returns the same
  blocks and raises the same exceptions, ends in a list that represents the abstract one, and
  changes nothing but links and the counter.
\<close>

theorem queue_run_refines:
  assumes "fq_repr q xs" "abs_run cs xs = Some a"
  shows "implements q (queue_run cs q) a"
  using assms
proof (induction cs arbitrary: q xs a)
  case Nil
  then show ?case by (auto simp: implements_def)
next
  case (Cons c cs)
  from Cons.prems(2) obtain a1 where a1: "abs_call c xs = Some a1" by (cases "abs_call c xs") auto
  note s = queue_call_implements[OF Cons.prems(1) a1]
  show ?case
  proof (cases a1)
    case (Inl e)
    then show ?thesis using s a1 Cons.prems(2) by (auto simp: implements_def)
  next
    case (Inr p)
    obtain out ys where p: "p = (out, ys)" by (cases p)
    then obtain q1 where q1: "queue_call_step c q = Inr (out, q1)" "fq_repr q1 ys" "links_only q q1"
      using s Inr by (auto simp: implements_def)
    obtain a2 where a2: "abs_run cs ys = Some a2"
      using Cons.prems(2) a1 Inr p by (cases "abs_run cs ys") auto
    have "implements q1 (queue_run cs q1) a2" by (rule Cons.IH[OF q1(2) a2])
    then show ?thesis
      using Cons.prems(2) a1 Inr p q1 a2 links_only_trans[OF q1(3)]
      by (cases a2) (auto simp: implements_def)
  qed
qed


definition sample_store :: free_queue where
  "sample_store = \<lparr>heap = \<lambda>b. new_KVCacheBlock 0, num_free_blocks = 0\<rparr>"

lemma sample_queue: "fq_repr (FreeKVCacheBlockQueue_init [Blk 0, Blk 1, Blk 2] sample_store) [Blk 0, Blk 1, Blk 2]"
  using FreeKVCacheBlockQueue_init_spec[of "[Blk 0, Blk 1, Blk 2]" sample_store]
  by (simp add: sample_store_def nxt_def prv_def new_KVCacheBlock_def)

theorem queue_run_refines_witness:
  "implements (FreeKVCacheBlockQueue_init [Blk 0, Blk 1, Blk 2] sample_store)
     (queue_run [Remove (Blk 1), PopleftN 2, AppendN [Blk 2, Blk 1], Popleft]
       (FreeKVCacheBlockQueue_init [Blk 0, Blk 1, Blk 2] sample_store))
     (Inr ([[], [Blk 0, Blk 2], [], [Blk 2]], [Blk 1]))"
  by (rule queue_run_refines[OF sample_queue]) (simp add: real_block_def)

text \<open>
  C38: \<open>FreeKVCacheBlockQueue(blocks)\<close> on freshly created, pairwise different blocks yields a queue
  that holds exactly these blocks in the given order, and leaves their payload alone.
\<close>

theorem FreeKVCacheBlockQueue_init_correct:
  assumes "distinct blocks" "\<forall>b\<in>set blocks. real_block b"
    and "\<forall>i. nxt q (Blk i) = None \<and> prv q (Blk i) = None"
  shows "fq_repr (FreeKVCacheBlockQueue_init blocks q) blocks \<and>
    get_all_free_blocks (FreeKVCacheBlockQueue_init blocks q) = Some (Inr blocks) \<and>
    (\<forall>i. payload (heap (FreeKVCacheBlockQueue_init blocks q) (Blk i)) = payload (heap q (Blk i)))"
proof -
  have "FakeHead \<notin> set blocks" "FakeTail \<notin> set blocks" using assms(2) by (auto simp: real_block_def)
  then show ?thesis
    using FreeKVCacheBlockQueue_init_spec[of blocks q] assms(1,3) by (simp add: get_all_free_blocks_spec)
qed

theorem FreeKVCacheBlockQueue_init_correct_witness:
  "get_all_free_blocks (FreeKVCacheBlockQueue_init [Blk 4, Blk 2] sample_store) = Some (Inr [Blk 4, Blk 2])"
  using FreeKVCacheBlockQueue_init_correct[of "[Blk 4, Blk 2]" sample_store]
  by (simp add: sample_store_def nxt_def prv_def new_KVCacheBlock_def)

end
