(* ===== verification/Block_Hash_Map.thy ===== *)
theory Block_Hash_Map
  imports Free_Block_Queue
begin

text \<open>
  The map from block hashes to cached blocks (class \<open>BlockHashToBlockMap\<close> of
  \<open>vllm/v1/core/block_pool.py\<close>) and the interface the block pool uses it through.
\<close>

section \<open>Operations\<close>

text \<open>A key is attached to one block, or to a dict from block ids to blocks.\<close>

datatype cache_entry = SingleBlock bref | BlockDict "(int \<times> bref) list"

type_synonym block_map = "bytes \<Rightarrow> cache_entry option"

definition get_one_block :: "block_map \<Rightarrow> bytes \<Rightarrow> bref option result" where
  "get_one_block c key = (case c key of
       None \<Rightarrow> Inr None
     | Some (SingleBlock b) \<Rightarrow> Inr (Some b)
     | Some (BlockDict d) \<Rightarrow> (case d of [] \<Rightarrow> Inl StopIteration | (i, b) # _ \<Rightarrow> Inr (Some b)))"

text \<open>\<open>ids\<close> reads the \<open>block_id\<close> attribute of a block object.\<close>

definition insert_block :: "(bref \<Rightarrow> int) \<Rightarrow> block_map \<Rightarrow> bytes \<Rightarrow> bref \<Rightarrow> block_map" where
  "insert_block ids c key block = (case c key of
       None \<Rightarrow> c(key \<mapsto> SingleBlock block)
     | Some (SingleBlock b) \<Rightarrow> c(key \<mapsto> BlockDict (AList.update (ids block) block [(ids b, b)]))
     | Some (BlockDict d) \<Rightarrow> c(key \<mapsto> BlockDict (AList.update (ids block) block d)))"

definition pop_block :: "(bref \<Rightarrow> int) \<Rightarrow> block_map \<Rightarrow> bytes \<Rightarrow> int \<Rightarrow> bref option \<times> block_map" where
  "pop_block ids c key bid = (case c key of
       None \<Rightarrow> (None, c)
     | Some (SingleBlock b) \<Rightarrow> if ids b = bid then (Some b, c(key := None)) else (None, c)
     | Some (BlockDict d) \<Rightarrow>
         (map_of d bid,
          c(key := (if AList.delete bid d = [] then None else Some (BlockDict (AList.delete bid d))))))"

section \<open>Representation\<close>

fun entry_blocks :: "cache_entry option \<Rightarrow> bref set" where
  "entry_blocks None = {}"
| "entry_blocks (Some (SingleBlock b)) = {b}"
| "entry_blocks (Some (BlockDict d)) = snd ` set d"

fun entry_wf :: "(bref \<Rightarrow> int) \<Rightarrow> cache_entry option \<Rightarrow> bool" where
  "entry_wf ids (Some (BlockDict d)) \<longleftrightarrow>
     d \<noteq> [] \<and> distinct (map fst d) \<and> (\<forall>(i, b)\<in>set d. i = ids b)"
| "entry_wf ids _ \<longleftrightarrow> True"

text \<open>
  \<open>map_repr ids D hs c\<close>: over the blocks \<open>D\<close>, whose ids are pairwise different, the map \<open>c\<close> attaches
  to each key exactly the blocks that carry this key as their hash.
\<close>

definition map_repr :: "(bref \<Rightarrow> int) \<Rightarrow> bref set \<Rightarrow> (bref \<Rightarrow> bytes option) \<Rightarrow> block_map \<Rightarrow> bool" where
  "map_repr ids D hs c \<longleftrightarrow> inj_on ids D \<and>
     (\<forall>key. entry_wf ids (c key) \<and> entry_blocks (c key) = {b \<in> D. hs b = Some key})"

lemma map_repr_empty: "inj_on ids D \<Longrightarrow> (\<And>b. b \<in> D \<Longrightarrow> hs b = None) \<Longrightarrow> map_repr ids D hs (\<lambda>_. None)"
  by (auto simp: map_repr_def)

lemma map_repr_cong: "(\<And>b. b \<in> D \<Longrightarrow> hs b = hs' b) \<Longrightarrow> map_repr ids D hs c = map_repr ids D hs' c"
  by (auto simp: map_repr_def)

lemma map_repr_get:
  assumes "map_repr ids D hs c"
  shows "\<exists>r. get_one_block c key = Inr r \<and>
     (case r of None \<Rightarrow> (\<forall>b\<in>D. hs b \<noteq> Some key) | Some b \<Rightarrow> b \<in> D \<and> hs b = Some key)"
proof -
  have w: "entry_wf ids (c key)" "entry_blocks (c key) = {b \<in> D. hs b = Some key}"
    using assms by (auto simp: map_repr_def)
  show ?thesis
  proof (cases "c key")
    case None
    then show ?thesis using w by (auto simp: get_one_block_def)
  next
    case (Some en)
    show ?thesis
    proof (cases en)
      case (SingleBlock b)
      then show ?thesis using w Some by (auto simp: get_one_block_def)
    next
      case (BlockDict d)
      then obtain i b d' where d: "d = (i, b) # d'" using w Some by (cases d) auto
      then have "b \<in> entry_blocks (c key)" using Some BlockDict by simp
      then show ?thesis using w Some BlockDict d by (auto simp: get_one_block_def)
    qed
  qed
qed

lemma update_new: "k \<notin> fst ` set d \<Longrightarrow> AList.update k v d = d @ [(k, v)]"
  by (induction d) auto

text \<open>Attaching one more block to an entry.\<close>

definition add_entry :: "(bref \<Rightarrow> int) \<Rightarrow> bref \<Rightarrow> cache_entry option \<Rightarrow> cache_entry" where
  "add_entry ids block en = (case en of
       None \<Rightarrow> SingleBlock block
     | Some (SingleBlock b) \<Rightarrow> BlockDict (AList.update (ids block) block [(ids b, b)])
     | Some (BlockDict d) \<Rightarrow> BlockDict (AList.update (ids block) block d))"

lemma insert_block_add: "insert_block ids c key b = c(key \<mapsto> add_entry ids b (c key))"
  by (auto simp: insert_block_def add_entry_def split: option.splits cache_entry.splits)

lemma add_entry_blocks:
  assumes "entry_wf ids en" "\<And>b'. b' \<in> entry_blocks en \<Longrightarrow> ids b' \<noteq> ids b"
  shows "entry_wf ids (Some (add_entry ids b en)) \<and> entry_blocks (Some (add_entry ids b en)) = insert b (entry_blocks en)"
proof (cases en)
  case None
  then show ?thesis by (simp add: add_entry_def)
next
  case (Some e)
  show ?thesis
  proof (cases e)
    case (SingleBlock b')
    then have "ids b' \<noteq> ids b" using assms(2) Some by simp
    then show ?thesis using Some SingleBlock by (auto simp: add_entry_def)
  next
    case (BlockDict d)
    then have "ids b \<notin> fst ` set d" using assms Some by fastforce
    then show ?thesis using assms(1) Some BlockDict by (auto simp: add_entry_def update_new)
  qed
qed

lemma map_repr_insert:
  assumes r: "map_repr ids D hs c" and b: "b \<in> D" "hs b = None"
  shows "map_repr ids D (hs(b := Some key)) (insert_block ids c key b)"
proof -
  have inj: "inj_on ids D" and w: "entry_wf ids (c k)" "entry_blocks (c k) = {b \<in> D. hs b = Some k}" for k
    using r by (simp_all add: map_repr_def)
  have "ids b' \<noteq> ids b" if "b' \<in> entry_blocks (c key)" for b'
  proof
    assume "ids b' = ids b"
    then have "b' = b" using inj_onD[OF inj] that w(2) b(1) by simp
    then show False using that w(2) b(2) by simp
  qed
  note a = add_entry_blocks[OF w(1) this]
  have "{x \<in> D. (hs(b := Some key)) x = Some k} = (if k = key then insert b (entry_blocks (c k)) else entry_blocks (c k))" for k
    using b w(2)[of k] by auto
  then show ?thesis using inj a w by (simp add: map_repr_def insert_block_add)
qed

text \<open>Detaching a block from an entry.\<close>

lemma pop_entry:
  assumes wf: "entry_wf ids en" and b: "b \<in> entry_blocks en"
    and inj: "inj_on ids (entry_blocks en)" and en: "c key = en"
  shows "\<exists>x. pop_block ids c key (ids b) = (Some b, c(key := x)) \<and> entry_wf ids x \<and>
     entry_blocks x = entry_blocks en - {b}"
proof (cases en rule: entry_blocks.cases)
  case (2 b')
  then show ?thesis using b en by (auto simp: pop_block_def)
next
  case (3 d)
  have d: "distinct (map fst d)" "\<And>i b. (i, b) \<in> set d \<Longrightarrow> i = ids b" using wf 3 by auto
  then have "(ids b, b) \<in> set d" using b 3 by fastforce
  then have m: "map_of d (ids b) = Some b" using d(1) by simp
  have s: "set (AList.delete (ids b) d) = {x \<in> set d. fst x \<noteq> ids b}" by (auto simp: AList.delete_eq)
  have "fst x = ids b \<longleftrightarrow> snd x = b" if "x \<in> set d" for x
  proof -
    have "fst x = ids (snd x)" using d(2)[of "fst x" "snd x"] that by simp
    moreover have "snd x \<in> entry_blocks en" using that 3 by simp
    ultimately show ?thesis using inj_on_eq_iff[OF inj _ b, of "snd x"] by simp
  qed
  then have "snd ` set (AList.delete (ids b) d) = snd ` set d - {b}" unfolding s by auto
  moreover have "distinct (map fst (AList.delete (ids b) d))" using d(1) by (rule distinct_delete)
  moreover have "\<forall>(i, b)\<in>set (AList.delete (ids b) d). i = ids b" using d(2) s by auto
  ultimately have "entry_wf ids (if AList.delete (ids b) d = [] then None else Some (BlockDict (AList.delete (ids b) d))) \<and>
      entry_blocks (if AList.delete (ids b) d = [] then None else Some (BlockDict (AList.delete (ids b) d))) = entry_blocks en - {b}"
    using 3 by auto
  then show ?thesis using m en 3 unfolding pop_block_def by (simp only: option.case cache_entry.case) blast
qed (use b in simp)

lemma map_repr_pop:
  assumes r: "map_repr ids D hs c" and b: "b \<in> D" "hs b = Some key"
  shows "\<exists>c'. pop_block ids c key (ids b) = (Some b, c') \<and> map_repr ids D (hs(b := None)) c'"
proof -
  have inj: "inj_on ids D" and w: "entry_wf ids (c k)" "entry_blocks (c k) = {b \<in> D. hs b = Some k}" for k
    using r by (simp_all add: map_repr_def)
  have "inj_on ids (entry_blocks (c key))" by (rule inj_on_subset[OF inj]) (simp add: w(2))
  then obtain x where x: "pop_block ids c key (ids b) = (Some b, c(key := x))" "entry_wf ids x"
    "entry_blocks x = entry_blocks (c key) - {b}"
    using pop_entry[of ids "c key" b c key] w(1)[of key] w(2) b by auto
  have "{b' \<in> D. (hs(b := None)) b' = Some k} = (if k = key then entry_blocks (c k) - {b} else entry_blocks (c k))" for k
    using b w(2)[of k] by auto
  then have "map_repr ids D (hs(b := None)) (c(key := x))"
    using inj w x(2,3) by (simp add: map_repr_def)
  then show ?thesis using x(1) by blast
qed


section \<open>The map as an interface\<close>

text \<open>
  What the pool relies on, over the blocks \<open>D\<close>: \<open>repr hs m\<close> says that \<open>m\<close> indexes the blocks of \<open>D\<close> by
  the hashes \<open>hs\<close> they carry.
\<close>

locale hash_index =
  fixes D :: "'b set"
    and repr :: "('b \<Rightarrow> 'k option) \<Rightarrow> 'm \<Rightarrow> bool"
    and get :: "'m \<Rightarrow> 'k \<Rightarrow> 'b option result"
    and ins :: "'m \<Rightarrow> 'k \<Rightarrow> 'b \<Rightarrow> 'm"
    and del :: "'m \<Rightarrow> 'k \<Rightarrow> 'b \<Rightarrow> 'b option \<times> 'm"
  assumes repr_cong: "(\<And>b. b \<in> D \<Longrightarrow> hs b = hs' b) \<Longrightarrow> repr hs m = repr hs' m"
    and get_spec: "repr hs m \<Longrightarrow> \<exists>r. get m k = Inr r \<and>
          (case r of None \<Rightarrow> (\<forall>b\<in>D. hs b \<noteq> Some k) | Some b \<Rightarrow> b \<in> D \<and> hs b = Some k)"
    and ins_spec: "repr hs m \<Longrightarrow> b \<in> D \<Longrightarrow> hs b = None \<Longrightarrow> repr (hs(b := Some k)) (ins m k b)"
    and del_spec: "repr hs m \<Longrightarrow> b \<in> D \<Longrightarrow> hs b = Some k \<Longrightarrow>
          \<exists>m'. del m k b = (Some b, m') \<and> repr (hs(b := None)) m'"
begin

lemma get_hit: "repr hs m \<Longrightarrow> b \<in> D \<Longrightarrow> hs b = Some k \<Longrightarrow> \<exists>b'\<in>D. get m k = Inr (Some b') \<and> hs b' = Some k"
  using get_spec[of hs m k] by (auto split: option.splits)

lemma get_miss: "repr hs m \<Longrightarrow> (\<And>b. b \<in> D \<Longrightarrow> hs b \<noteq> Some k) \<Longrightarrow> get m k = Inr None"
  using get_spec[of hs m k] by (auto split: option.splits)

text \<open>A key that was inserted is found, and inserting never hides another key.\<close>

lemma get_after_ins:
  assumes "repr hs m" "b \<in> D" "hs b = None"
  shows "\<exists>b'. get (ins m k b) k = Inr (Some b')"
    and "get m k' = Inr (Some b1) \<Longrightarrow> \<exists>b'. get (ins m k b) k' = Inr (Some b')"
proof -
  note r = ins_spec[OF assms, of k]
  show "\<exists>b'. get (ins m k b) k = Inr (Some b')" using get_hit[OF r assms(2)] by auto
  assume "get m k' = Inr (Some b1)"
  then have "b1 \<in> D" "hs b1 = Some k'" using get_spec[OF assms(1), of k'] by auto
  then have "b1 \<in> D" "(hs(b := Some k)) b1 = Some k'" using assms(3) by auto
  then show "\<exists>b'. get (ins m k b) k' = Inr (Some b')" using get_hit[OF r] by blast
qed

text \<open>After its last block has been deleted a key is no longer found.\<close>

lemma get_after_del_last:
  assumes "repr hs m" "b \<in> D" "hs b = Some k" "\<And>b'. b' \<in> D \<Longrightarrow> b' \<noteq> b \<Longrightarrow> hs b' \<noteq> Some k"
  shows "get (snd (del m k b)) k = Inr None"
proof -
  obtain m' where "del m k b = (Some b, m')" "repr (hs(b := None)) m'" using del_spec[OF assms(1-3)] by blast
  then show ?thesis using get_miss[of "hs(b := None)" m' k] assms(4) by auto
qed

end

interpretation bm: hash_index D "map_repr ids D" get_one_block "insert_block ids" "\<lambda>c k b. pop_block ids c k (ids b)" for ids D
  by unfold_locales (rule map_repr_cong map_repr_get map_repr_insert map_repr_pop; simp)+

end
