(* ===== verification/Block_Pool.thy ===== *)
theory Block_Pool
  imports Block_Hash Block_Hash_Map
begin

text \<open>
  The pool of KV cache blocks (class \<open>BlockPool\<close> of \<open>vllm/v1/core/block_pool.py\<close>). The pool record
  extends the state of the free queue, so the queue methods run on the pool itself: the block
  objects are shared between the pool, the queue and the hash map as in the code. The optional
  metrics collector only observes the pool and is taken to be absent.
\<close>

section \<open>State\<close>

datatype KVCacheEvent =
    BlockStored "ExternalBlockHash list" "ExternalBlockHash option" "int list" int "int option"
  | BlockRemoved "ExternalBlockHash list"
  | AllBlocksCleared

text \<open>
  \<open>use_int_block_hashes\<close> is the environment switch \<open>VLLM_KV_EVENTS_USE_INT_BLOCK_HASHES\<close>; the medium
  of an event is always the GPU and is left out of the event.
\<close>

record block_pool = free_queue +
  num_gpu_blocks :: int
  enable_caching :: bool
  hash_block_size :: int
  blocks :: "bref list"
  cached_block_hash_to_block :: block_map
  null_block :: bref
  enable_kv_cache_events :: bool
  kv_event_queue :: "KVCacheEvent list"
  use_int_block_hashes :: bool

text \<open>Reading the \<open>block_id\<close> attribute.\<close>

definition bid :: "block_pool \<Rightarrow> bref \<Rightarrow> int" where
  "bid p = (\<lambda>b. block_id (heap p b))"

section \<open>Operations\<close>

definition BlockPool_init :: "int \<Rightarrow> bool \<Rightarrow> int \<Rightarrow> bool \<Rightarrow> bool \<Rightarrow> block_pool result" where
  "BlockPool_init num_blocks caching hbs kv_events use_int =
     res_bind (py_assert (num_blocks > 0)) (\<lambda>_.
       let bs = map Blk [0..<nat num_blocks];
           p = \<lparr>heap = (\<lambda>b. case b of Blk i \<Rightarrow> new_KVCacheBlock (int i) | _ \<Rightarrow> new_KVCacheBlock (- 1)),
                num_free_blocks = 0, num_gpu_blocks = num_blocks, enable_caching = caching,
                hash_block_size = hbs, blocks = bs, cached_block_hash_to_block = (\<lambda>_. None),
                null_block = FakeHead, enable_kv_cache_events = kv_events, kv_event_queue = [],
                use_int_block_hashes = use_int\<rparr>;
           p = FreeKVCacheBlockQueue_init bs p
       in res_bind (popleft p) (\<lambda>(nb, p).
            Inr (upd_block nb (is_null_update (\<lambda>_. True)) (p\<lparr>null_block := nb\<rparr>))))"

fun get_cached_block_loop :: "block_pool \<Rightarrow> bytes \<Rightarrow> int list \<Rightarrow> bref list \<Rightarrow> bref list option result" where
  "get_cached_block_loop p h [] cached_blocks = Inr (Some cached_blocks)"
| "get_cached_block_loop p h (g # gs) cached_blocks =
     res_bind (make_block_hash_with_group_id h g) (\<lambda>key.
     res_bind (get_one_block (cached_block_hash_to_block p) key) (\<lambda>block.
       case block of
         None \<Rightarrow> Inr None
       | Some b \<Rightarrow> get_cached_block_loop p h gs (cached_blocks @ [b])))"

definition get_cached_block :: "block_pool \<Rightarrow> bytes \<Rightarrow> int list \<Rightarrow> bref list option result" where
  "get_cached_block p h kv_cache_group_ids = get_cached_block_loop p h kv_cache_group_ids []"

text \<open>One iteration of the loop of \<open>cache_full_blocks\<close>: set and index the hash of one block.\<close>

definition cache_one_block :: "int \<Rightarrow> block_pool \<Rightarrow> bref \<Rightarrow> bytes \<Rightarrow> block_pool result" where
  "cache_one_block group_id p blk h =
     res_bind (py_assert (block_hash (heap p blk) = None)) (\<lambda>_.
     res_bind (make_block_hash_with_group_id h group_id) (\<lambda>key.
     res_bind (set_block_hash blk key p) (\<lambda>p.
       Inr (p\<lparr>cached_block_hash_to_block :=
              insert_block (bid p) (cached_block_hash_to_block p) key blk\<rparr>))))"

fun cache_blocks_loop :: "int \<Rightarrow> block_pool \<Rightarrow> bref list \<Rightarrow> bytes list \<Rightarrow> block_pool result" where
  "cache_blocks_loop g p [] hs = Inr p"
| "cache_blocks_loop g p (b # bs) hs =
     (case hs of
        [] \<Rightarrow> res_bind (py_assert (block_hash (heap p b) = None)) (\<lambda>_. Inl IndexError)
      | h # hs' \<Rightarrow> res_bind (cache_one_block g p b h) (\<lambda>p. cache_blocks_loop g p bs hs'))"

text \<open>The hashes at the granularity of the group: \<open>block_hashes[num_cached_blocks:]\<close>.\<close>

definition new_block_hashes :: "block_pool \<Rightarrow> bytes list \<Rightarrow> int \<Rightarrow> int \<Rightarrow> bytes list result" where
  "new_block_hashes p hs block_size num_cached_blocks =
     (if block_size = hash_block_size p then Inr (drop (nat num_cached_blocks) hs)
      else if hash_block_size p = 0 then Inl ZeroDivisionError
      else res_bind (py_assert (block_size mod hash_block_size p = 0)) (\<lambda>_.
           res_bind (BlockHashListWithBlockSize_init hs (hash_block_size p) block_size) (\<lambda>l.
             bhl_from l num_cached_blocks)))"

definition block_stored_event ::
    "block_pool \<Rightarrow> Request \<Rightarrow> bref list \<Rightarrow> int \<Rightarrow> int \<Rightarrow> int \<Rightarrow> bytes list \<Rightarrow> KVCacheEvent result" where
  "block_stored_event p r bs num_cached_blocks num_full_blocks block_size hs =
     res_bind (if num_cached_blocks = 0 then Inr None
               else res_bind (py_index bs (num_cached_blocks - 1)) (\<lambda>parent_block.
                 case block_hash (heap p parent_block) of
                   None \<Rightarrow> Inl AssertionError
                 | Some k \<Rightarrow> Inr (Some (maybe_convert_block_hash (use_int_block_hashes p) (get_block_hash k)))))
       (\<lambda>parent. Inr (BlockStored (map (maybe_convert_block_hash (use_int_block_hashes p)) hs) parent
          (py_slice (all_token_ids r) (num_cached_blocks * block_size) (num_full_blocks * block_size))
          block_size (map_option adapter_id (lora_request r))))"

definition cache_full_blocks ::
    "Request \<Rightarrow> bref list \<Rightarrow> int \<Rightarrow> int \<Rightarrow> int \<Rightarrow> int \<Rightarrow> block_pool \<Rightarrow> block_pool result" where
  "cache_full_blocks r bs num_cached_blocks num_full_blocks block_size group_id p =
     (if num_cached_blocks \<ge> num_full_blocks then Inr p
      else
        let new_full_blocks = py_slice bs num_cached_blocks num_full_blocks
        in res_bind (py_assert (int (length (block_hashes r)) \<ge> num_full_blocks)) (\<lambda>_.
           res_bind (new_block_hashes p (block_hashes r) block_size num_cached_blocks) (\<lambda>hs.
           res_bind (cache_blocks_loop group_id p new_full_blocks hs) (\<lambda>p.
             if \<not> enable_kv_cache_events p then Inr p
             else res_bind (block_stored_event p r bs num_cached_blocks num_full_blocks block_size
                              (take (length new_full_blocks) hs)) (\<lambda>ev.
               Inr (p\<lparr>kv_event_queue := kv_event_queue p @ [ev]\<rparr>))))))"

definition maybe_evict_cached_block :: "bref \<Rightarrow> block_pool \<Rightarrow> bool \<times> block_pool" where
  "maybe_evict_cached_block b p = (case block_hash (heap p b) of
       None \<Rightarrow> (False, p)
     | Some key \<Rightarrow>
         (case pop_block (bid p) (cached_block_hash_to_block p) key (bid p b) of
            (popped, c) \<Rightarrow>
              let p = p\<lparr>cached_block_hash_to_block := c\<rparr>
              in case popped of
                   None \<Rightarrow> (False, p)
                 | Some _ \<Rightarrow>
                     let p = reset_hash b p
                     in (True, if enable_kv_cache_events p
                               then p\<lparr>kv_event_queue := kv_event_queue p
                                 @ [BlockRemoved [maybe_convert_block_hash (use_int_block_hashes p) (get_block_hash key)]]\<rparr>
                               else p)))"

definition get_num_free_blocks :: "block_pool \<Rightarrow> int" where
  "get_num_free_blocks p = num_free_blocks p"

definition acquire_block :: "block_pool \<Rightarrow> bref \<Rightarrow> block_pool result" where
  "acquire_block p b =
     (let p = (if enable_caching p then snd (maybe_evict_cached_block b p) else p)
      in res_bind (py_assert (ref_cnt (heap p b) = 0)) (\<lambda>_.
           Inr (upd_block b (ref_cnt_update (\<lambda>n. n + 1)) p)))"

definition get_new_blocks :: "int \<Rightarrow> block_pool \<Rightarrow> (bref list \<times> block_pool) result" where
  "get_new_blocks num_blocks p =
     (if num_blocks > get_num_free_blocks p then Inl ValueError
      else res_bind (popleft_n num_blocks p) (\<lambda>(ret, p).
           res_bind (res_fold acquire_block p ret) (\<lambda>p. Inr (ret, p))))"

definition touch_block :: "block_pool \<Rightarrow> bref \<Rightarrow> block_pool result" where
  "touch_block p b =
     res_bind (if ref_cnt (heap p b) = 0 \<and> \<not> is_null (heap p b) then remove_q b p else Inr p) (\<lambda>p.
       Inr (upd_block b (ref_cnt_update (\<lambda>n. n + 1)) p))"

definition touch :: "bref list list \<Rightarrow> block_pool \<Rightarrow> block_pool result" where
  "touch bss p = res_fold (\<lambda>p bs. res_fold touch_block p bs) p bss"

definition free_blocks :: "bref list \<Rightarrow> block_pool \<Rightarrow> block_pool result" where
  "free_blocks ordered_blocks p =
     (let p = foldl (\<lambda>p b. upd_block b (ref_cnt_update (\<lambda>n. n - 1)) p) p ordered_blocks
      in append_n (filter (\<lambda>b. ref_cnt (heap p b) = 0 \<and> \<not> is_null (heap p b)) ordered_blocks) p)"

definition pool_reset_prefix_cache :: "block_pool \<Rightarrow> bool \<times> block_pool" where
  "pool_reset_prefix_cache p =
     (if num_gpu_blocks p - get_num_free_blocks p \<noteq> 1 then (False, p)
      else
        let p = p\<lparr>cached_block_hash_to_block := (\<lambda>_. None)\<rparr>;
            p = foldl (\<lambda>p b. reset_hash b p) p (blocks p)
        in (True, if enable_kv_cache_events p
                  then p\<lparr>kv_event_queue := kv_event_queue p @ [AllBlocksCleared]\<rparr> else p))"

definition get_usage :: "block_pool \<Rightarrow> rat" where
  "get_usage p =
     (let total_gpu_blocks = num_gpu_blocks p - 1
      in if total_gpu_blocks = 0 then 0
         else 1 - of_int (get_num_free_blocks p) / of_int total_gpu_blocks)"

definition take_events :: "block_pool \<Rightarrow> KVCacheEvent list \<times> block_pool" where
  "take_events p =
     (if \<not> enable_kv_cache_events p then ([], p) else (kv_event_queue p, p\<lparr>kv_event_queue := []\<rparr>))"


section \<open>Invariant\<close>

definition rc :: "block_pool \<Rightarrow> bref \<Rightarrow> int" where
  "rc p = (\<lambda>b. ref_cnt (heap p b))"

definition bh :: "block_pool \<Rightarrow> bref \<Rightarrow> bytes option" where
  "bh p = (\<lambda>b. block_hash (heap p b))"

lemmas attr_defs = rc_def bh_def bid_def

lemma attr_upd [simp]:
  "rc (upd_block b (ref_cnt_update g) p) = (rc p)(b := g (rc p b))"
  "rc (upd_block b (block_hash_update h) p) = rc p" "rc (upd_block b (is_null_update k) p) = rc p"
  "bh (upd_block b (block_hash_update h) p) = (bh p)(b := h (bh p b))"
  "bh (upd_block b (ref_cnt_update g) p) = bh p" "bh (upd_block b (is_null_update k) p) = bh p"
  "bid (upd_block b (ref_cnt_update g) p) = bid p" "bid (upd_block b (block_hash_update h) p) = bid p"
  "bid (upd_block b (is_null_update k) p) = bid p"
  by (auto simp: attr_defs)

lemma attr_pool_upd [simp]:
  "rc (p\<lparr>cached_block_hash_to_block := c\<rparr>) = rc p" "bh (p\<lparr>cached_block_hash_to_block := c\<rparr>) = bh p"
  "bid (p\<lparr>cached_block_hash_to_block := c\<rparr>) = bid p"
  "rc (p\<lparr>kv_event_queue := e\<rparr>) = rc p" "bh (p\<lparr>kv_event_queue := e\<rparr>) = bh p" "bid (p\<lparr>kv_event_queue := e\<rparr>) = bid p"
  "rc (p\<lparr>null_block := nb\<rparr>) = rc p" "bh (p\<lparr>null_block := nb\<rparr>) = bh p" "bid (p\<lparr>null_block := nb\<rparr>) = bid p"
  by (simp_all add: attr_defs)

definition pool_blocks :: "block_pool \<Rightarrow> bref set" where
  "pool_blocks p = Blk ` {0..<nat (num_gpu_blocks p)}"

text \<open>The fixed layout: block \<open>i\<close> has id \<open>i\<close>, and block 0 is the null block.\<close>

definition pool_shape :: "block_pool \<Rightarrow> bool" where
  "pool_shape p \<longleftrightarrow> 0 < num_gpu_blocks p \<and> blocks p = map Blk [0..<nat (num_gpu_blocks p)] \<and>
     null_block p = Blk 0 \<and>
     (\<forall>i<nat (num_gpu_blocks p). bid p (Blk i) = int i \<and> (is_null (heap p (Blk i)) \<longleftrightarrow> i = 0))"

text \<open>
  The pool invariant: the free queue holds exactly the blocks without references, in eviction
  order; reference counts are never negative; the hash map indexes exactly the blocks that carry a
  hash; the null block is never free and never cached.
\<close>

definition pool_inv :: "block_pool \<Rightarrow> bref list \<Rightarrow> bool" where
  "pool_inv p free \<longleftrightarrow> pool_shape p \<and> fq_repr p free \<and>
     set free = {b \<in> pool_blocks p. b \<noteq> Blk 0 \<and> rc p b = 0} \<and>
     (\<forall>b\<in>pool_blocks p. b \<noteq> Blk 0 \<longrightarrow> 0 \<le> rc p b) \<and>
     bh p (Blk 0) = None \<and>
     map_repr (bid p) (pool_blocks p) (bh p) (cached_block_hash_to_block p) \<and>
     (\<not> enable_caching p \<longrightarrow> (\<forall>b\<in>pool_blocks p. bh p b = None))"

text \<open>What no operation changes after construction.\<close>

definition pool_frame :: "block_pool \<Rightarrow> block_pool \<Rightarrow> bool" where
  "pool_frame p p' \<longleftrightarrow>
     num_gpu_blocks p' = num_gpu_blocks p \<and> enable_caching p' = enable_caching p \<and>
     hash_block_size p' = hash_block_size p \<and> blocks p' = blocks p \<and> null_block p' = null_block p \<and>
     enable_kv_cache_events p' = enable_kv_cache_events p \<and>
     use_int_block_hashes p' = use_int_block_hashes p \<and>
     bid p' = bid p \<and> (\<forall>b. is_null (heap p' b) = is_null (heap p b))"

lemma pool_frame_refl [simp]: "pool_frame p p"
  by (simp add: pool_frame_def)

lemma pool_frame_trans: "pool_frame p q \<Longrightarrow> pool_frame q r \<Longrightarrow> pool_frame p r"
  by (simp add: pool_frame_def)

lemma pool_frame_blocks: "pool_frame p p' \<Longrightarrow> pool_blocks p' = pool_blocks p"
  by (simp add: pool_frame_def pool_blocks_def)

lemma pool_frame_shape: "pool_frame p p' \<Longrightarrow> pool_shape p \<Longrightarrow> pool_shape p'"
  by (simp add: pool_frame_def pool_shape_def)

lemma pool_frame_bid: "pool_frame p p' \<Longrightarrow> bid p' = bid p"
  by (simp add: pool_frame_def)

lemma pool_frame_caching: "pool_frame p p' \<Longrightarrow> enable_caching p' = enable_caching p"
  by (simp add: pool_frame_def)

text \<open>Assignments to reference counts and hashes, and to the map and the event queue.\<close>

lemma pool_upd_sel [simp]:
  "num_gpu_blocks (upd_block b f p) = num_gpu_blocks p" "enable_caching (upd_block b f p) = enable_caching p"
  "hash_block_size (upd_block b f p) = hash_block_size p" "blocks (upd_block b f p) = blocks p"
  "cached_block_hash_to_block (upd_block b f p) = cached_block_hash_to_block p"
  "null_block (upd_block b f p) = null_block p"
  "enable_kv_cache_events (upd_block b f p) = enable_kv_cache_events p"
  "kv_event_queue (upd_block b f p) = kv_event_queue p"
  "use_int_block_hashes (upd_block b f p) = use_int_block_hashes p"
  by (simp_all add: upd_block_def)

lemma pool_frame_upd [simp]:
  "pool_frame p (upd_block b (ref_cnt_update g) q) = pool_frame p q"
  "pool_frame p (upd_block b (block_hash_update h) q) = pool_frame p q"
  "pool_frame p (q\<lparr>cached_block_hash_to_block := c\<rparr>) = pool_frame p q"
  "pool_frame p (q\<lparr>kv_event_queue := evs\<rparr>) = pool_frame p q"
  by (auto simp: pool_frame_def)

lemma fq_repr_links:
  "nxt q = nxt p \<Longrightarrow> prv q = prv p \<Longrightarrow> num_free_blocks q = num_free_blocks p \<Longrightarrow> fq_repr q xs = fq_repr p xs"
  by (simp add: fq_repr_def)

lemma pool_links_upd [simp]:
  "nxt (p\<lparr>cached_block_hash_to_block := c\<rparr>) = nxt p" "prv (p\<lparr>cached_block_hash_to_block := c\<rparr>) = prv p"
  "nxt (p\<lparr>kv_event_queue := evs\<rparr>) = nxt p" "prv (p\<lparr>kv_event_queue := evs\<rparr>) = prv p"
  "nxt (p\<lparr>null_block := nb\<rparr>) = nxt p" "prv (p\<lparr>null_block := nb\<rparr>) = prv p"
  by (simp_all add: nxt_def prv_def)

lemma pool_fq_upd [simp]:
  "fq_repr (p\<lparr>cached_block_hash_to_block := c\<rparr>) xs = fq_repr p xs"
  "fq_repr (p\<lparr>kv_event_queue := evs\<rparr>) xs = fq_repr p xs"
  "fq_repr (p\<lparr>null_block := nb\<rparr>) xs = fq_repr p xs"
  by (simp_all add: fq_repr_def)

text \<open>What a queue method leaves alone in the pool that embeds the queue.\<close>

lemma links_only_pool:
  fixes p p' :: block_pool
  assumes "links_only p p'"
  shows "pool_frame p p'" "rc p' = rc p" "bh p' = bh p"
    "cached_block_hash_to_block p' = cached_block_hash_to_block p" "kv_event_queue p' = kv_event_queue p"
  using links_only_sel[OF assms] by (cases p; cases p'; simp add: pool_frame_def attr_defs)+

lemma pool_inv_frame:
  assumes "pool_inv p free" "pool_frame p p'" "fq_repr p' free'"
    "set free' = {b \<in> pool_blocks p. b \<noteq> Blk 0 \<and> rc p' b = 0}"
    "\<forall>b\<in>pool_blocks p. b \<noteq> Blk 0 \<longrightarrow> 0 \<le> rc p' b" "bh p' (Blk 0) = None"
    "map_repr (bid p) (pool_blocks p) (bh p') (cached_block_hash_to_block p')"
    "\<not> enable_caching p \<longrightarrow> (\<forall>b\<in>pool_blocks p. bh p' b = None)"
  shows "pool_inv p' free'"
  using assms pool_frame_shape[OF assms(2)] pool_frame_blocks[OF assms(2)] pool_frame_bid[OF assms(2)]
    pool_frame_caching[OF assms(2)]
  unfolding pool_inv_def by simp

lemma pool_invD:
  assumes "pool_inv p free"
  shows "fq_repr p free" "set free = {b \<in> pool_blocks p. b \<noteq> Blk 0 \<and> rc p b = 0}"
    "map_repr (bid p) (pool_blocks p) (bh p) (cached_block_hash_to_block p)"
    "\<not> enable_caching p \<longrightarrow> (\<forall>b\<in>pool_blocks p. bh p b = None)"
    "\<forall>b\<in>pool_blocks p. b \<noteq> Blk 0 \<longrightarrow> 0 \<le> rc p b" "bh p (Blk 0) = None" "pool_shape p"
  using assms by (simp_all add: pool_inv_def)

lemma pool_inv_null:
  "pool_inv p free \<Longrightarrow> b \<in> pool_blocks p \<Longrightarrow> is_null (heap p b) \<longleftrightarrow> b = Blk 0"
  by (auto simp: pool_inv_def pool_shape_def pool_blocks_def)

lemma pool_inv_free_iff:
  "pool_inv p free \<Longrightarrow> b \<in> set free \<longleftrightarrow> b \<in> pool_blocks p \<and> b \<noteq> Blk 0 \<and> rc p b = 0"
  by (simp add: pool_inv_def)

lemma pool_inv_num_free: "pool_inv p free \<Longrightarrow> get_num_free_blocks p = int (length free)"
  by (simp add: pool_inv_def get_num_free_blocks_def fq_repr_length)

lemma pool_blocks_real: "b \<in> pool_blocks p \<Longrightarrow> real_block b"
  by (auto simp: pool_blocks_def)


section \<open>Construction\<close>

lemma BlockPool_init_spec:
  assumes "0 < n"
  shows "\<exists>p. BlockPool_init n caching hbs kv_events use_int = Inr p \<and>
     pool_inv p (map Blk [1..<nat n]) \<and> num_gpu_blocks p = n \<and> enable_caching p = caching \<and>
     hash_block_size p = hbs \<and> enable_kv_cache_events p = kv_events \<and>
     (\<forall>b\<in>pool_blocks p. rc p b = 0 \<and> bh p b = None)"
proof -
  define bs where "bs = map Blk [0..<nat n]"
  define q :: block_pool where
    "q = \<lparr>heap = (\<lambda>b. case b of Blk i \<Rightarrow> new_KVCacheBlock (int i) | _ \<Rightarrow> new_KVCacheBlock (- 1)),
       num_free_blocks = 0, num_gpu_blocks = n, enable_caching = caching,
       hash_block_size = hbs, blocks = bs, cached_block_hash_to_block = (\<lambda>_. None),
       null_block = FakeHead, enable_kv_cache_events = kv_events, kv_event_queue = [],
       use_int_block_hashes = use_int\<rparr>"
  define q1 where "q1 = FreeKVCacheBlockQueue_init bs q"
  have "bs = Blk 0 # map Blk [1..<nat n]" using assms by (simp add: bs_def upt_conv_Cons)
  moreover have "distinct bs" "FakeHead \<notin> set bs" "FakeTail \<notin> set bs"
    by (auto simp: bs_def distinct_map inj_on_def)
  moreover have "nxt q (Blk i) = None \<and> prv q (Blk i) = None" for i
    by (simp add: nxt_def prv_def q_def new_KVCacheBlock_def)
  ultimately have q1: "fq_repr q1 (Blk 0 # map Blk [1..<nat n])"
    "\<forall>i. payload (heap q1 (Blk i)) = payload (heap q (Blk i))" "free_queue.more q1 = free_queue.more q"
    using FreeKVCacheBlockQueue_init_spec[of bs q] unfolding q1_def by auto
  obtain q2 where q2: "popleft q1 = Inr (Blk 0, q2)" "fq_repr q2 (map Blk [1..<nat n])" "links_only q1 q2"
    using fq.pop_first[OF q1(1)] by blast
  define p where "p = upd_block (Blk 0) (is_null_update (\<lambda>_. True)) (q2\<lparr>null_block := Blk 0\<rparr>)"
  have st: "num_gpu_blocks q1 = n" "enable_caching q1 = caching" "hash_block_size q1 = hbs" "blocks q1 = bs"
    "cached_block_hash_to_block q1 = (\<lambda>_. None)" "enable_kv_cache_events q1 = kv_events"
    using q1(3) by (cases q1; simp add: q_def)+
  note fr = links_only_pool[OF q2(3), unfolded pool_frame_def st]
  have pl: "payload (heap q2 (Blk i)) = payload (new_KVCacheBlock (int i))" for i
    using q1(2) q2(3) by (simp add: links_only_def q_def)
  then have sel: "bid q2 (Blk i) = int i" "rc q2 (Blk i) = 0" "bh q2 (Blk i) = None" "\<not> is_null (heap q2 (Blk i))" for i
    by (simp_all add: payload_def new_KVCacheBlock_def attr_defs)
  have sel': "bid p (Blk i) = int i" "rc p (Blk i) = 0" "bh p (Blk i) = None" "is_null (heap p (Blk i)) \<longleftrightarrow> i = 0" for i
    using sel[of i] by (auto simp: p_def)
  have st': "num_gpu_blocks p = n" "enable_caching p = caching" "hash_block_size p = hbs" "blocks p = bs"
    "cached_block_hash_to_block p = (\<lambda>_. None)" "null_block p = Blk 0" "enable_kv_cache_events p = kv_events"
    using fr by (simp_all add: p_def)
  have "fq_repr p (map Blk [1..<nat n])"
    using q2(2) by (simp add: p_def)
  moreover have "map_repr (bid p) (pool_blocks p) (bh p) (\<lambda>_. None)"
    by (rule map_repr_empty) (auto simp: inj_on_def pool_blocks_def sel')
  ultimately have "pool_inv p (map Blk [1..<nat n])"
    using assms by (auto simp: pool_inv_def pool_shape_def st' sel' pool_blocks_def bs_def)
  moreover have "BlockPool_init n caching hbs kv_events use_int = Inr p"
    using assms q2(1) by (simp add: BlockPool_init_def Let_def q_def[symmetric] bs_def[symmetric] q1_def[symmetric] p_def)
  ultimately show ?thesis using st' sel' by (auto simp: pool_blocks_def)
qed


section \<open>Eviction and allocation\<close>

text \<open>Two states that agree on everything the queue and the pool layout depend on.\<close>

definition same_queue :: "block_pool \<Rightarrow> block_pool \<Rightarrow> bool" where
  "same_queue p p' \<longleftrightarrow> pool_frame p p' \<and> nxt p' = nxt p \<and> prv p' = prv p \<and> num_free_blocks p' = num_free_blocks p"

lemma same_queue_fq: "same_queue p p' \<Longrightarrow> fq_repr p' xs = fq_repr p xs"
  by (simp add: same_queue_def fq_repr_def)

lemma same_queue_refl [simp]: "same_queue p p"
  by (simp add: same_queue_def)

lemma same_queue_trans: "same_queue p q \<Longrightarrow> same_queue q r \<Longrightarrow> same_queue p r"
  by (auto simp: same_queue_def intro: pool_frame_trans)

lemma maybe_evict_spec:
  assumes "map_repr (bid p) D (bh p) (cached_block_hash_to_block p)" "b \<in> D"
  defines "p' \<equiv> snd (maybe_evict_cached_block b p)"
  shows "same_queue p p' \<and> rc p' = rc p \<and> bh p' = (bh p)(b := None) \<and>
    map_repr (bid p) D (bh p') (cached_block_hash_to_block p') \<and>
    (fst (maybe_evict_cached_block b p) \<longleftrightarrow> bh p b \<noteq> None)"
proof (cases "bh p b")
  case None
  then have "p' = p" "\<not> fst (maybe_evict_cached_block b p)"
    by (simp_all add: p'_def maybe_evict_cached_block_def bh_def)
  then show ?thesis using None assms(1) by (simp add: fun_upd_idem)
next
  case (Some key)
  obtain c where c: "pop_block (bid p) (cached_block_hash_to_block p) key (bid p b) = (Some b, c)"
    "map_repr (bid p) D ((bh p)(b := None)) c"
    using bm.del_spec[OF assms(1,2) Some] by blast
  have k: "block_hash (heap p b) = Some key" using Some by (simp add: bh_def)
  show ?thesis
    using c Some by (simp add: p'_def maybe_evict_cached_block_def reset_hash_def Let_def same_queue_def k)
qed

lemma acquire_spec:
  assumes m: "map_repr (bid p) D (bh p) (cached_block_hash_to_block p)" and b: "b \<in> D" "rc p b = 0"
    and nc: "\<not> enable_caching p \<Longrightarrow> bh p b = None"
  shows "\<exists>p'. acquire_block p b = Inr p' \<and> same_queue p p' \<and> rc p' = (rc p)(b := 1) \<and> bh p' = (bh p)(b := None) \<and>
    map_repr (bid p) D (bh p') (cached_block_hash_to_block p')"
proof -
  define q where "q = (if enable_caching p then snd (maybe_evict_cached_block b p) else p)"
  have q: "same_queue p q" "rc q = rc p" "bh q = (bh p)(b := None)"
    "map_repr (bid p) D (bh q) (cached_block_hash_to_block q)"
    using maybe_evict_spec[OF m b(1)] m nc by (auto simp: q_def fun_upd_idem)
  have "ref_cnt (heap q b) = 0" using q(2) b(2) by (metis rc_def)
  then have "acquire_block p b = Inr (upd_block b (ref_cnt_update (\<lambda>n. n + 1)) q)"
    by (simp add: acquire_block_def Let_def q_def[symmetric])
  then show ?thesis using q b(2) by (simp add: same_queue_def)
qed

text \<open>The allocation loop: every popped block ends with one reference and no hash.\<close>

lemma acquire_loop:
  assumes "map_repr (bid p) D (bh p) (cached_block_hash_to_block p)" "set xs \<subseteq> D" "distinct xs"
    and "\<forall>b\<in>set xs. rc p b = 0" "\<not> enable_caching p \<Longrightarrow> \<forall>b\<in>D. bh p b = None"
  shows "\<exists>p'. res_fold acquire_block p xs = Inr p' \<and> same_queue p p' \<and>
    rc p' = (\<lambda>b. if b \<in> set xs then 1 else rc p b) \<and>
    bh p' = (\<lambda>b. if b \<in> set xs then None else bh p b) \<and>
    map_repr (bid p) D (bh p') (cached_block_hash_to_block p')"
proof (rule res_fold_prefix)
  show "same_queue p p \<and> rc p = (\<lambda>b. if b \<in> set [] then 1 else rc p b) \<and>
    bh p = (\<lambda>b. if b \<in> set [] then None else bh p b) \<and> map_repr (bid p) D (bh p) (cached_block_hash_to_block p)"
    using assms(1) by simp
next
  fix ys x zs t
  assume xs: "xs = ys @ x # zs"
    and I: "same_queue p t \<and> rc t = (\<lambda>b. if b \<in> set ys then 1 else rc p b) \<and>
      bh t = (\<lambda>b. if b \<in> set ys then None else bh p b) \<and> map_repr (bid p) D (bh t) (cached_block_hash_to_block t)"
  have fr: "bid t = bid p" "enable_caching t = enable_caching p"
    using I by (auto simp: same_queue_def pool_frame_bid pool_frame_caching)
  have x: "x \<in> D" "x \<notin> set ys" using assms(2,3) xs by auto
  moreover have "rc t x = 0" using I x(2) assms(4) xs by simp
  moreover have "\<not> enable_caching t \<Longrightarrow> bh t x = None" using I fr(2) assms(5) x by simp
  ultimately obtain t' where t': "acquire_block t x = Inr t'" "same_queue t t'" "rc t' = (rc t)(x := 1)"
    "bh t' = (bh t)(x := None)" "map_repr (bid p) D (bh t') (cached_block_hash_to_block t')"
    using acquire_spec[of t D x] I fr(1) by auto
  moreover have "same_queue p t'" using I t'(2) same_queue_trans by blast
  ultimately show "\<exists>t'. acquire_block t x = Inr t' \<and> same_queue p t' \<and>
      rc t' = (\<lambda>b. if b \<in> set (ys @ [x]) then 1 else rc p b) \<and>
      bh t' = (\<lambda>b. if b \<in> set (ys @ [x]) then None else bh p b) \<and>
      map_repr (bid p) D (bh t') (cached_block_hash_to_block t')"
    using I by (intro exI[of _ t']) (auto simp: fun_eq_iff)
qed

lemma get_new_blocks_spec:
  assumes inv: "pool_inv p free" and n: "0 \<le> n" "n \<le> int (length free)"
  shows "\<exists>p'. get_new_blocks n p = Inr (take (nat n) free, p') \<and> pool_inv p' (drop (nat n) free) \<and> pool_frame p p' \<and>
    rc p' = (\<lambda>b. if b \<in> set (take (nat n) free) then 1 else rc p b) \<and>
    bh p' = (\<lambda>b. if b \<in> set (take (nat n) free) then None else bh p b)"
proof -
  let ?xs = "take (nat n) free" and ?D = "pool_blocks p"
  note i = pool_invD[OF inv]
  obtain q where q: "popleft_n n p = Inr (?xs, q)" "fq_repr q (drop (nat n) free)" "links_only p q"
    using fq.pop_n_take[OF i(1) n] by blast
  note l = links_only_pool[OF q(3)]
  have sub: "set ?xs \<subseteq> set free" by (rule set_take_subset)
  have d: "distinct free" using i(1) by (rule fq_repr_distinct)
  have "\<exists>p'. res_fold acquire_block q ?xs = Inr p' \<and> same_queue q p' \<and>
      rc p' = (\<lambda>b. if b \<in> set ?xs then 1 else rc q b) \<and> bh p' = (\<lambda>b. if b \<in> set ?xs then None else bh q b) \<and>
      map_repr (bid q) ?D (bh p') (cached_block_hash_to_block p')"
    by (rule acquire_loop) (use i(2-4) l sub d pool_frame_bid[OF l(1)] pool_frame_caching[OF l(1)] in auto)
  then obtain p' where p': "res_fold acquire_block q ?xs = Inr p'" "same_queue q p'"
      "rc p' = (\<lambda>b. if b \<in> set ?xs then 1 else rc p b)" "bh p' = (\<lambda>b. if b \<in> set ?xs then None else bh p b)"
      "map_repr (bid p) ?D (bh p') (cached_block_hash_to_block p')"
    unfolding l(2,3) pool_frame_bid[OF l(1)] by blast
  have fr: "pool_frame p p'" using l(1) p'(2) pool_frame_trans by (auto simp: same_queue_def)
  have "set (drop (nat n) free) = set free - set ?xs"
    using d by (metis append_take_drop_id distinct_append Diff_cancel Diff_disjoint Un_Diff Int_commute
        Diff_triv sup_bot_left set_append)
  then have "pool_inv p' (drop (nat n) free)"
    by (intro pool_inv_frame[OF inv fr])
      (use q(2) same_queue_fq[OF p'(2)] p'(5) i in \<open>auto simp: p'(3,4)\<close>)
  then show ?thesis
    using q(1) p' fr n pool_inv_num_free[OF inv] by (simp add: get_new_blocks_def)
qed


section \<open>Sharing and releasing\<close>

lemma touch_block_spec:
  assumes inv: "pool_inv p free" and b: "b \<in> pool_blocks p"
  shows "\<exists>p'. touch_block p b = Inr p' \<and> pool_inv p' (remove1 b free) \<and> pool_frame p p' \<and>
    rc p' = (rc p)(b := rc p b + 1) \<and> bh p' = bh p"
proof -
  note i = pool_invD[OF inv]
  have c: "ref_cnt (heap p b) = 0 \<and> \<not> is_null (heap p b) \<longleftrightarrow> b \<in> set free"
    using pool_inv_free_iff[OF inv, of b] pool_inv_null[OF inv b] b by (auto simp: rc_def)
  obtain q where q: "(if ref_cnt (heap p b) = 0 \<and> \<not> is_null (heap p b) then remove_q b p else Inr p) = Inr q"
    "fq_repr q (remove1 b free)" "links_only p q"
    using fq.rem_member[OF i(1), of b] i(1) unfolding c by (cases "b \<in> set free") (auto simp: remove1_idem)
  note l = links_only_pool[OF q(3)]
  let ?p' = "upd_block b (ref_cnt_update (\<lambda>n. n + 1)) q"
  have fr: "pool_frame p ?p'" using l(1) by simp
  have rc': "rc ?p' = (rc p)(b := rc p b + 1)" using l(2) by simp
  have "distinct free" using i(1) by (rule fq_repr_distinct)
  then have f: "set (remove1 b free) = set free - {b}" by simp
  have "pool_inv ?p' (remove1 b free)"
  proof (rule pool_inv_frame[OF inv fr])
    show "set (remove1 b free) = {b' \<in> pool_blocks p. b' \<noteq> Blk 0 \<and> rc ?p' b' = 0}"
      using i(2,5) b unfolding f rc' by force
    show "\<forall>b'\<in>pool_blocks p. b' \<noteq> Blk 0 \<longrightarrow> 0 \<le> rc ?p' b'" using i(5) unfolding rc' by auto
  qed (use q(2) i l in simp_all)
  moreover have "touch_block p b = Inr ?p'" unfolding touch_block_def q(1) by simp
  ultimately show ?thesis using fr rc' l(3) by auto
qed

lemma touch_blocks_spec:
  assumes "pool_inv p free" "set xs \<subseteq> pool_blocks p"
  shows "\<exists>p'. res_fold touch_block p xs = Inr p' \<and> pool_inv p' (filter (\<lambda>b. b \<notin> set xs) free) \<and> pool_frame p p' \<and>
    rc p' = (\<lambda>b. rc p b + int (count_list xs b)) \<and> bh p' = bh p"
proof (rule res_fold_prefix)
  fix ys x zs t
  assume xs: "xs = ys @ x # zs" and I: "pool_inv t (filter (\<lambda>b. b \<notin> set ys) free) \<and> pool_frame p t \<and>
    rc t = (\<lambda>b. rc p b + int (count_list ys b)) \<and> bh t = bh p"
  have x: "x \<in> pool_blocks t" using assms(2) xs pool_frame_blocks I by auto
  obtain t' where t': "touch_block t x = Inr t'" "pool_inv t' (remove1 x (filter (\<lambda>b. b \<notin> set ys) free))"
    "pool_frame t t'" "rc t' = (rc t)(x := rc t x + 1)" "bh t' = bh t"
    using touch_block_spec[OF conjunct1[OF I] x] by blast
  have "distinct free" using pool_invD(1)[OF assms(1)] by (rule fq_repr_distinct)
  then have "remove1 x (filter (\<lambda>b. b \<notin> set ys) free) = filter (\<lambda>b. b \<notin> set (ys @ [x])) free"
    by (simp add: distinct_remove1_removeAll removeAll_filter_not_eq conj_commute eq_commute)
  then show "\<exists>t'. touch_block t x = Inr t' \<and> pool_inv t' (filter (\<lambda>b. b \<notin> set (ys @ [x])) free) \<and> pool_frame p t' \<and>
      rc t' = (\<lambda>b. rc p b + int (count_list (ys @ [x]) b)) \<and> bh t' = bh p"
    using t' I pool_frame_trans[of p t t'] by (intro exI[of _ t']) (auto simp: fun_eq_iff)
qed (use assms in simp)

lemma res_fold_concat: "res_fold (\<lambda>s xs. res_fold f s xs) s xss = res_fold f s (concat xss)"
  by (induction xss arbitrary: s) (auto simp: res_fold_append)

lemma touch_spec:
  assumes "pool_inv p free" "set (concat bss) \<subseteq> pool_blocks p"
  shows "\<exists>p'. touch bss p = Inr p' \<and> pool_inv p' (filter (\<lambda>b. b \<notin> set (concat bss)) free) \<and> pool_frame p p' \<and>
    rc p' = (\<lambda>b. rc p b + int (count_list (concat bss) b)) \<and> bh p' = bh p"
  unfolding touch_def res_fold_concat by (rule touch_blocks_spec[OF assms])

lemma decr_loop:
  defines "f \<equiv> \<lambda>p b. upd_block b (ref_cnt_update (\<lambda>n. n - 1)) p"
  shows "rc (foldl f p xs) = (\<lambda>b. rc p b - int (count_list xs b)) \<and> bh (foldl f p xs) = bh p \<and>
    same_queue p (foldl f p xs) \<and> cached_block_hash_to_block (foldl f p xs) = cached_block_hash_to_block p"
proof (induction xs rule: rev_induct)
  case (snoc x xs)
  then show ?case by (auto simp: f_def same_queue_def fun_eq_iff)
qed simp

text \<open>
  Releasing blocks, first in list first in line for eviction. A block other than the null block may
  occur only once in the list, and must be referenced.
\<close>

lemma free_blocks_spec:
  assumes inv: "pool_inv p free" and xs: "set xs \<subseteq> pool_blocks p" "distinct (filter (\<lambda>b. b \<noteq> Blk 0) xs)"
    "\<forall>b\<in>set xs. b \<noteq> Blk 0 \<longrightarrow> 0 < rc p b"
  shows "\<exists>p'. free_blocks xs p = Inr p' \<and> pool_inv p' (free @ filter (\<lambda>b. b \<noteq> Blk 0 \<and> rc p b = 1) xs) \<and>
    pool_frame p p' \<and> rc p' = (\<lambda>b. rc p b - int (count_list xs b)) \<and> bh p' = bh p"
proof -
  define q where "q = foldl (\<lambda>p b. upd_block b (ref_cnt_update (\<lambda>n. n - 1)) p) p xs"
  have q: "rc q = (\<lambda>b. rc p b - int (count_list xs b))" "bh q = bh p" "same_queue p q"
    "cached_block_hash_to_block q = cached_block_hash_to_block p"
    using decr_loop[of p xs] by (simp_all add: q_def)
  note i = pool_invD[OF inv]
  have c1: "count_list xs b = (if b \<in> set xs then 1 else 0)" if "b \<noteq> Blk 0" for b
    using xs(2) that by (induction xs) (auto split: if_splits)
  let ?new = "filter (\<lambda>b. b \<noteq> Blk 0 \<and> rc p b = 1) xs"
  have new: "filter (\<lambda>b. ref_cnt (heap q b) = 0 \<and> \<not> is_null (heap q b)) xs = ?new"
  proof (rule filter_cong[OF refl])
    fix b assume b: "b \<in> set xs"
    have "is_null (heap q b) \<longleftrightarrow> b = Blk 0"
      using q(3) pool_inv_null[OF inv, of b] xs(1) b by (auto simp: same_queue_def pool_frame_def)
    moreover have "ref_cnt (heap q b) = rc p b - int (count_list xs b)" using q(1) by (metis rc_def)
    ultimately show "(ref_cnt (heap q b) = 0 \<and> \<not> is_null (heap q b)) = (b \<noteq> Blk 0 \<and> rc p b = 1)"
      using c1[of b] b by auto
  qed
  have "?new = filter (\<lambda>b. rc p b = 1) (filter (\<lambda>b. b \<noteq> Blk 0) xs)" by (simp add: conj_commute)
  then have "distinct ?new" using xs(2) by (simp only: distinct_filter)
  moreover have "\<forall>b\<in>set ?new. real_block b \<and> b \<notin> set free"
    using xs(1) pool_blocks_real[of _ p] unfolding i(2) by auto
  ultimately obtain p' where p': "append_n ?new q = Inr p'" "fq_repr p' (free @ ?new)" "links_only q p'"
    using fq.app_n_last[of q free ?new] i(1) same_queue_fq[OF q(3)] by blast
  note l = links_only_pool[OF p'(3)]
  have fr: "pool_frame p p'" using l(1) q(3) pool_frame_trans by (auto simp: same_queue_def)
  have rc': "rc p' = (\<lambda>b. rc p b - int (count_list xs b))" using l(2) q(1) by simp
  have "pool_inv p' (free @ ?new)"
  proof (rule pool_inv_frame[OF inv fr p'(2)])
    show "set (free @ ?new) = {b \<in> pool_blocks p. b \<noteq> Blk 0 \<and> rc p' b = 0}"
      using xs(1,3) unfolding rc' set_append i(2) by (auto simp: c1 split: if_splits)
    show "\<forall>b\<in>pool_blocks p. b \<noteq> Blk 0 \<longrightarrow> 0 \<le> rc p' b"
    proof (intro ballI impI)
      fix b assume "b \<in> pool_blocks p" "b \<noteq> Blk 0"
      then show "0 \<le> rc p' b" using i(5) xs(3) by (cases "b \<in> set xs") (auto simp: rc' c1)
    qed
  qed (use i l q in simp_all)
  moreover have "free_blocks xs p = Inr p'" using p'(1) new by (simp add: free_blocks_def q_def Let_def)
  ultimately show ?thesis using fr rc' l(3) q(2) by auto
qed


section \<open>Caching and lookup\<close>

definition gkey :: "int \<Rightarrow> bytes \<Rightarrow> bytes" where
  "gkey g h = h @ to_bytes_be 4 (nat g)"

abbreviation group_ok :: "int \<Rightarrow> bool" where
  "group_ok g \<equiv> 0 \<le> g \<and> g < 2 ^ 32"

lemma make_gkey: "group_ok g \<Longrightarrow> make_block_hash_with_group_id h g = Inr (gkey g h)"
  by (simp add: make_block_hash_with_group_id_def gkey_def)

lemma gkey_inj: "group_ok g \<Longrightarrow> group_ok g' \<Longrightarrow> gkey g h = gkey g' h' \<longleftrightarrow> g = g' \<and> h = h'"
  using make_block_hash_unpack[OF make_gkey] by metis

lemma cache_one_spec:
  assumes m: "map_repr (bid p) D (bh p) (cached_block_hash_to_block p)" and b: "b \<in> D" "bh p b = None"
    and g: "group_ok g"
  shows "\<exists>p'. cache_one_block g p b h = Inr p' \<and> same_queue p p' \<and> rc p' = rc p \<and>
    bh p' = (bh p)(b := Some (gkey g h)) \<and> map_repr (bid p) D (bh p') (cached_block_hash_to_block p')"
proof -
  have "block_hash (heap p b) = None" using b(2) by (simp add: bh_def)
  then show ?thesis
    using bm.ins_spec[OF m b, of "gkey g h"]
    by (simp add: cache_one_block_def make_gkey[OF g] set_block_hash_def same_queue_def)
qed

lemma map_add_zip_Cons:
  "b \<notin> set xs \<Longrightarrow> (m(b \<mapsto> k)) ++ map_of (zip xs ks) = m ++ map_of (zip (b # xs) (k # ks))"
  by (rule ext) (auto simp: map_add_def split: option.splits dest: map_of_SomeD set_zip_leftD)

lemma cache_blocks_loop_spec:
  assumes "map_repr (bid p) D (bh p) (cached_block_hash_to_block p)" "set xs \<subseteq> D" "distinct xs"
    "\<forall>b\<in>set xs. bh p b = None" "group_ok g" "length xs \<le> length hs"
  shows "\<exists>p'. cache_blocks_loop g p xs hs = Inr p' \<and> same_queue p p' \<and> rc p' = rc p \<and>
    bh p' = bh p ++ map_of (zip xs (map (gkey g) hs)) \<and>
    map_repr (bid p) D (bh p') (cached_block_hash_to_block p')"
  using assms
proof (induction xs arbitrary: p hs)
  case (Cons b xs)
  then obtain h hs' where hs: "hs = h # hs'" by (cases hs) auto
  obtain q where q: "cache_one_block g p b h = Inr q" "same_queue p q" "rc q = rc p"
    "bh q = (bh p)(b := Some (gkey g h))" "map_repr (bid p) D (bh q) (cached_block_hash_to_block q)"
    using cache_one_spec[OF Cons.prems(1), of b g h] Cons.prems by auto
  have bq: "bid q = bid p" using q(2) by (simp add: same_queue_def pool_frame_bid)
  have "\<exists>p'. cache_blocks_loop g q xs hs' = Inr p' \<and> same_queue q p' \<and> rc p' = rc q \<and>
    bh p' = bh q ++ map_of (zip xs (map (gkey g) hs')) \<and> map_repr (bid q) D (bh p') (cached_block_hash_to_block p')"
  proof (rule Cons.IH)
    show "\<forall>b\<in>set xs. bh q b = None" using Cons.prems(3,4) by (auto simp: q(4))
  qed (use q(5) bq Cons.prems hs in simp_all)
  then obtain p' where p': "cache_blocks_loop g q xs hs' = Inr p'" "same_queue q p'" "rc p' = rc q"
    "bh p' = bh q ++ map_of (zip xs (map (gkey g) hs'))" "map_repr (bid p) D (bh p') (cached_block_hash_to_block p')"
    unfolding bq by blast
  have "bh p' = bh p ++ map_of (zip (b # xs) (map (gkey g) hs))"
    unfolding p'(4) q(4) hs using map_add_zip_Cons[of b xs "bh p" "gkey g h"] Cons.prems(3) by simp
  moreover have "cache_blocks_loop g p (b # xs) hs = Inr p'" using q(1) p'(1) hs by simp
  moreover have "rc p' = rc p" using p'(3) q(3) by simp
  ultimately show ?case using p'(5) same_queue_trans[OF q(2) p'(2)] by blast
qed simp

lemma map_repr_caching_inv:
  assumes inv: "pool_inv p free" and s: "same_queue p p'" "rc p' = rc p" and h: "bh p' (Blk 0) = None"
    and m: "map_repr (bid p) (pool_blocks p) (bh p') (cached_block_hash_to_block p')" and c: "enable_caching p"
  shows "pool_inv p' free"
  using pool_invD[OF inv] same_queue_fq[OF s(1)] s c h m
  by (intro pool_inv_frame[OF inv]) (auto simp: same_queue_def)

text \<open>
  Caching the blocks from \<open>num_cached_blocks\<close> up to \<open>num_full_blocks\<close> of a request: each of them is
  indexed under its hash, and nothing else changes.
\<close>

lemma cache_full_blocks_spec:
  assumes inv: "pool_inv p free" and c: "enable_caching p" and g: "group_ok g"
    and n: "0 \<le> nc" "nc < nf" "nf \<le> int (length bs)" "nf \<le> int (length (block_hashes r))"
    and hs: "new_block_hashes p (block_hashes r) bsz nc = Inr hs" "nf - nc \<le> int (length hs)"
    and xs: "set (py_slice bs nc nf) \<subseteq> pool_blocks p - {Blk 0}" "distinct (py_slice bs nc nf)"
      "\<forall>b\<in>set (py_slice bs nc nf). bh p b = None"
    and par: "0 < nc \<longrightarrow> enable_kv_cache_events p \<longrightarrow> bh p (bs ! nat (nc - 1)) \<noteq> None"
  shows "\<exists>p'. cache_full_blocks r bs nc nf bsz g p = Inr p' \<and> pool_inv p' free \<and> pool_frame p p' \<and> rc p' = rc p \<and>
    bh p' = bh p ++ map_of (zip (py_slice bs nc nf) (map (gkey g) hs))"
proof -
  let ?xs = "py_slice bs nc nf"
  have len: "length ?xs \<le> length hs" using n hs(2) by (simp add: py_slice_def nat_diff_distrib)
  obtain q where q: "cache_blocks_loop g p ?xs hs = Inr q" "same_queue p q" "rc q = rc p"
    "bh q = bh p ++ map_of (zip ?xs (map (gkey g) hs))"
    "map_repr (bid p) (pool_blocks p) (bh q) (cached_block_hash_to_block q)"
    using cache_blocks_loop_spec[OF pool_invD(3)[OF inv] _ xs(2,3) g len] xs(1) by blast
  have "Blk 0 \<notin> set ?xs" using xs(1) by auto
  then have "map_of (zip ?xs (map (gkey g) hs)) (Blk 0) = None" by (auto simp: map_of_eq_None_iff dest: set_zip_leftD)
  then have "bh q (Blk 0) = None" using q(4) pool_invD(6)[OF inv] by (simp add: map_add_def)
  then have inv': "pool_inv q free" by (rule map_repr_caching_inv[OF inv q(2,3) _ q(5) c])
  have "\<exists>ev. block_stored_event q r bs nc nf bsz (take (length ?xs) hs) = Inr ev" if ev: "enable_kv_cache_events q"
  proof (cases "nc = 0")
    case False
    then have pi: "py_index bs (nc - 1) = Inr (bs ! nat (nc - 1))" using n by (simp add: py_index_def)
    have "bh p (bs ! nat (nc - 1)) \<noteq> None" using par False n ev q(2) by (auto simp: same_queue_def pool_frame_def)
    then have "bh q (bs ! nat (nc - 1)) \<noteq> None" unfolding q(4) by (auto simp: map_add_def split: option.splits)
    then show ?thesis using False pi by (auto simp: block_stored_event_def bh_def)
  qed (simp add: block_stored_event_def)
  then obtain ev where ev: "enable_kv_cache_events q \<Longrightarrow>
      block_stored_event q r bs nc nf bsz (take (length ?xs) hs) = Inr ev" by blast
  let ?p' = "if enable_kv_cache_events q then q\<lparr>kv_event_queue := kv_event_queue q @ [ev]\<rparr> else q"
  have "cache_full_blocks r bs nc nf bsz g p = Inr ?p'"
    using n hs(1) q(1) ev by (simp add: cache_full_blocks_def Let_def)
  moreover have "same_queue p ?p'" "rc ?p' = rc p" "bh ?p' = bh q"
    "map_repr (bid p) (pool_blocks p) (bh ?p') (cached_block_hash_to_block ?p')"
    using q by (simp_all add: same_queue_def)
  moreover from this have "pool_inv ?p' free"
    using \<open>bh q (Blk 0) = None\<close> by (intro map_repr_caching_inv[OF inv _ _ _ _ c]) simp_all
  ultimately show ?thesis using q(4) unfolding same_queue_def by (metis (no_types, lifting))
qed

lemma cache_full_blocks_noop: "nf \<le> nc \<Longrightarrow> cache_full_blocks r bs nc nf bsz g p = Inr p"
  by (simp add: cache_full_blocks_def)

lemma get_cached_loop_spec:
  assumes inv: "pool_inv p free" and g: "\<forall>g\<in>set gs. group_ok g"
  shows "\<exists>res. get_cached_block_loop p h gs acc = Inr res \<and>
    (case res of
       None \<Rightarrow> \<exists>g\<in>set gs. \<forall>b\<in>pool_blocks p. bh p b \<noteq> Some (gkey g h)
     | Some bs \<Rightarrow> \<exists>xs. bs = acc @ xs \<and> list_all2 (\<lambda>g b. b \<in> pool_blocks p \<and> bh p b = Some (gkey g h)) gs xs)"
  using g
proof (induction gs arbitrary: acc)
  case (Cons a gs)
  obtain r where r: "get_one_block (cached_block_hash_to_block p) (gkey a h) = Inr r"
    "case r of None \<Rightarrow> \<forall>b\<in>pool_blocks p. bh p b \<noteq> Some (gkey a h) | Some b \<Rightarrow> b \<in> pool_blocks p \<and> bh p b = Some (gkey a h)"
    using bm.get_spec[OF pool_invD(3)[OF inv], of "gkey a h"] by blast
  have mk: "make_block_hash_with_group_id h a = Inr (gkey a h)" using Cons.prems by (simp add: make_gkey)
  show ?case
  proof (cases r)
    case None
    then show ?thesis using r mk by auto
  next
    case (Some b)
    obtain res where "get_cached_block_loop p h gs (acc @ [b]) = Inr res"
      "case res of None \<Rightarrow> \<exists>g\<in>set gs. \<forall>b\<in>pool_blocks p. bh p b \<noteq> Some (gkey g h)
       | Some bs \<Rightarrow> \<exists>xs. bs = (acc @ [b]) @ xs \<and> list_all2 (\<lambda>g b. b \<in> pool_blocks p \<and> bh p b = Some (gkey g h)) gs xs"
      using Cons.IH[of "acc @ [b]"] Cons.prems by auto
    then show ?thesis using r mk Some by (cases res) auto
  qed
qed simp

lemma get_cached_block_spec:
  assumes "pool_inv p free" "\<forall>g\<in>set gs. group_ok g"
  shows "\<exists>res. get_cached_block p h gs = Inr res \<and>
    (case res of
       None \<Rightarrow> \<exists>g\<in>set gs. \<forall>b\<in>pool_blocks p. bh p b \<noteq> Some (gkey g h)
     | Some bs \<Rightarrow> list_all2 (\<lambda>g b. b \<in> pool_blocks p \<and> bh p b = Some (gkey g h)) gs bs)"
proof -
  obtain res where "get_cached_block_loop p h gs [] = Inr res"
    "case res of None \<Rightarrow> \<exists>g\<in>set gs. \<forall>b\<in>pool_blocks p. bh p b \<noteq> Some (gkey g h)
     | Some bs \<Rightarrow> \<exists>xs. bs = [] @ xs \<and> list_all2 (\<lambda>g b. b \<in> pool_blocks p \<and> bh p b = Some (gkey g h)) gs xs"
    using get_cached_loop_spec[OF assms] by blast
  then show ?thesis by (intro exI[of _ res]) (simp add: get_cached_block_def split: option.splits)
qed

lemma get_cached_hit:
  assumes "pool_inv p free" "group_ok g" "b \<in> pool_blocks p" "bh p b = Some (gkey g h)"
  shows "\<exists>b'. get_cached_block p h [g] = Inr (Some [b'])"
  using get_cached_block_spec[OF assms(1), of "[g]" h] assms(2-) by (auto split: option.splits simp: list_all2_Cons1)

lemma get_cached_miss:
  assumes "pool_inv p free" "group_ok g" "\<And>b. b \<in> pool_blocks p \<Longrightarrow> bh p b \<noteq> Some (gkey g h)"
  shows "get_cached_block p h [g] = Inr None"
  using bm.get_miss[OF pool_invD(3)[OF assms(1)] assms(3)] assms(2) by (simp add: get_cached_block_def make_gkey)

lemma reset_hashes_loop:
  "rc (foldl (\<lambda>p b. reset_hash b p) p xs) = rc p \<and> same_queue p (foldl (\<lambda>p b. reset_hash b p) p xs) \<and>
   bh (foldl (\<lambda>p b. reset_hash b p) p xs) = (\<lambda>b. if b \<in> set xs then None else bh p b) \<and>
   cached_block_hash_to_block (foldl (\<lambda>p b. reset_hash b p) p xs) = cached_block_hash_to_block p"
  by (induction xs rule: rev_induct) (auto simp: reset_hash_def same_queue_def fun_eq_iff)


lemma pool_blocks_card: "pool_shape p \<Longrightarrow> finite (pool_blocks p) \<and> int (card (pool_blocks p - {Blk 0})) = num_gpu_blocks p - 1"
proof -
  assume s: "pool_shape p"
  then have n: "0 < num_gpu_blocks p" by (simp add: pool_shape_def)
  have "card (pool_blocks p) = nat (num_gpu_blocks p)"
    by (simp add: pool_blocks_def card_image inj_on_def)
  moreover have "Blk 0 \<in> pool_blocks p" using n by (simp add: pool_blocks_def)
  ultimately show ?thesis using n by (simp add: pool_blocks_def)
qed

text \<open>Free blocks and referenced blocks make up the pool, the null block aside.\<close>

lemma pool_conservation:
  assumes inv: "pool_inv p free"
  shows "int (length free) + int (card {b \<in> pool_blocks p. b \<noteq> Blk 0 \<and> 0 < rc p b}) = num_gpu_blocks p - 1"
proof -
  let ?used = "{b \<in> pool_blocks p. b \<noteq> Blk 0 \<and> 0 < rc p b}"
  have "length free = card (set free)" using fq_repr_distinct[OF pool_invD(1)[OF inv]] by (simp add: distinct_card)
  moreover have "set free \<inter> ?used = {}" "set free \<union> ?used = pool_blocks p - {Blk 0}"
    using pool_invD(2,5)[OF inv] by fastforce+
  moreover have "finite (set free)" "finite ?used"
    using pool_blocks_card[OF pool_invD(7)[OF inv]] by simp_all
  ultimately show ?thesis
    using pool_blocks_card[OF pool_invD(7)[OF inv]] card_Un_disjoint[of "set free" ?used] by simp
qed

lemma reset_spec:
  assumes inv: "pool_inv p free"
  shows "fst (pool_reset_prefix_cache p) \<longleftrightarrow> (\<forall>b\<in>pool_blocks p. b \<noteq> Blk 0 \<longrightarrow> rc p b = 0)"
    and "pool_inv (snd (pool_reset_prefix_cache p)) free"
    and "fst (pool_reset_prefix_cache p) \<Longrightarrow> b \<in> pool_blocks p \<Longrightarrow> bh (snd (pool_reset_prefix_cache p)) b = None"
    and "pool_frame p (snd (pool_reset_prefix_cache p))"
proof -
  let ?used = "{b \<in> pool_blocks p. b \<noteq> Blk 0 \<and> 0 < rc p b}"
  have fin: "finite ?used" using pool_blocks_card[OF pool_invD(7)[OF inv]] by simp
  have "fst (pool_reset_prefix_cache p) \<longleftrightarrow> num_gpu_blocks p - int (length free) = 1"
    by (simp add: pool_reset_prefix_cache_def Let_def pool_inv_num_free[OF inv])
  also have "\<dots> \<longleftrightarrow> ?used = {}" using pool_conservation[OF inv] card_0_eq[OF fin] by linarith
  also have "\<dots> \<longleftrightarrow> (\<forall>b\<in>pool_blocks p. b \<noteq> Blk 0 \<longrightarrow> rc p b = 0)"
    using pool_invD(5)[OF inv] by force
  finally show "fst (pool_reset_prefix_cache p) \<longleftrightarrow> (\<forall>b\<in>pool_blocks p. b \<noteq> Blk 0 \<longrightarrow> rc p b = 0)" .
  define q where "q = foldl (\<lambda>p b. reset_hash b p) (p\<lparr>cached_block_hash_to_block := (\<lambda>_. None)\<rparr>) (blocks p)"
  have bl: "set (blocks p) = pool_blocks p" using pool_invD(7)[OF inv] by (auto simp: pool_shape_def pool_blocks_def)
  have q: "rc q = rc p" "same_queue p q" "cached_block_hash_to_block q = (\<lambda>_. None)"
    "bh q = (\<lambda>b. if b \<in> pool_blocks p then None else bh p b)"
    using reset_hashes_loop[of "p\<lparr>cached_block_hash_to_block := (\<lambda>_. None)\<rparr>" "blocks p"]
    by (auto simp: q_def bl same_queue_def pool_frame_def)
  have snd: "snd (pool_reset_prefix_cache p) = (if fst (pool_reset_prefix_cache p)
      then (if enable_kv_cache_events q then q\<lparr>kv_event_queue := kv_event_queue q @ [AllBlocksCleared]\<rparr> else q) else p)"
    by (simp add: pool_reset_prefix_cache_def Let_def q_def)
  have m: "map_repr (bid p) (pool_blocks p) (bh q) (\<lambda>_. None)"
    by (rule map_repr_empty) (use pool_invD(3)[OF inv] in \<open>auto simp: map_repr_def q(4)\<close>)
  have iq: "pool_inv q' free" if "q' = q \<or> q' = q\<lparr>kv_event_queue := evs\<rparr>" for q' evs
  proof (rule pool_inv_frame[OF inv])
    show "pool_frame p q'" using q(2) that by (auto simp: same_queue_def)
    show "fq_repr q' free" using pool_invD(1)[OF inv] same_queue_fq[OF q(2)] that by auto
    have "rc q' = rc p" "bh q' = bh q" "cached_block_hash_to_block q' = (\<lambda>_. None)" using q that by auto
    then show "set free = {b \<in> pool_blocks p. b \<noteq> Blk 0 \<and> rc q' b = 0}"
      "\<forall>b\<in>pool_blocks p. b \<noteq> Blk 0 \<longrightarrow> 0 \<le> rc q' b" "bh q' (Blk 0) = None"
      "map_repr (bid p) (pool_blocks p) (bh q') (cached_block_hash_to_block q')"
      "\<not> enable_caching p \<longrightarrow> (\<forall>b\<in>pool_blocks p. bh q' b = None)"
      using pool_invD[OF inv] m q(4) by simp_all
  qed
  then show "pool_inv (snd (pool_reset_prefix_cache p)) free" using inv unfolding snd by auto
  show "pool_frame p (snd (pool_reset_prefix_cache p))" using q(2) unfolding snd by (auto simp: same_queue_def)
  assume "fst (pool_reset_prefix_cache p)" "b \<in> pool_blocks p"
  then show "bh (snd (pool_reset_prefix_cache p)) b = None" unfolding snd by (simp add: q(4))
qed

lemma get_usage_bounds:
  assumes "pool_inv p free"
  shows "0 \<le> get_usage p \<and> get_usage p \<le> 1"
proof (cases "num_gpu_blocks p - 1 = 0")
  case False
  let ?f = "int (length free)" and ?n = "num_gpu_blocks p - 1"
  have le: "0 \<le> ?f" "?f \<le> ?n" using pool_conservation[OF assms] by linarith+
  then have "(of_int ?f :: rat) \<le> of_int ?n" "0 < (of_int ?n :: rat)"
    using False by (simp only: of_int_le_iff, simp only: of_int_0_less_iff)
  then have "of_int ?f / of_int ?n \<le> (1 :: rat)" "0 \<le> of_int ?f / (of_int ?n :: rat)"
    by (simp_all only: divide_le_eq_1_pos) simp
  then show ?thesis using False by (simp add: get_usage_def Let_def pool_inv_num_free[OF assms])
qed (simp add: get_usage_def)

section \<open>The pool as a state machine\<close>

text \<open>
  The calls its clients make, with the conditions under which they make them. Blocks are touched
  and released only if they belong to the pool; a release needs a reference to release; blocks are
  cached once, and after their parent when events are recorded.
\<close>

inductive pool_step :: "block_pool \<Rightarrow> block_pool \<Rightarrow> bool" where
  alloc: "0 \<le> n \<Longrightarrow> get_new_blocks n p = Inr (bs, p') \<Longrightarrow> pool_step p p'"
| share: "set (concat bss) \<subseteq> pool_blocks p \<Longrightarrow> touch bss p = Inr p' \<Longrightarrow> pool_step p p'"
| release: "set xs \<subseteq> pool_blocks p \<Longrightarrow> distinct (filter (\<lambda>b. b \<noteq> Blk 0) xs) \<Longrightarrow>
    \<forall>b\<in>set xs. b \<noteq> Blk 0 \<longrightarrow> 0 < rc p b \<Longrightarrow> free_blocks xs p = Inr p' \<Longrightarrow> pool_step p p'"
| cache: "enable_caching p \<Longrightarrow> group_ok g \<Longrightarrow> 0 \<le> nc \<Longrightarrow> nc < nf \<Longrightarrow> nf \<le> int (length bs) \<Longrightarrow>
    nf \<le> int (length (block_hashes r)) \<Longrightarrow> new_block_hashes p (block_hashes r) bsz nc = Inr hs \<Longrightarrow>
    nf - nc \<le> int (length hs) \<Longrightarrow> set (py_slice bs nc nf) \<subseteq> pool_blocks p - {Blk 0} \<Longrightarrow>
    distinct (py_slice bs nc nf) \<Longrightarrow> \<forall>b\<in>set (py_slice bs nc nf). bh p b = None \<Longrightarrow>
    0 < nc \<longrightarrow> enable_kv_cache_events p \<longrightarrow> bh p (bs ! nat (nc - 1)) \<noteq> None \<Longrightarrow>
    cache_full_blocks r bs nc nf bsz g p = Inr p' \<Longrightarrow> pool_step p p'"
| reset: "pool_reset_prefix_cache p = (ok, p') \<Longrightarrow> pool_step p p'"
| collect: "take_events p = (evs, p') \<Longrightarrow> pool_step p p'"

inductive_cases pool_stepE: "pool_step p p'"

inductive pool_reachable :: "block_pool \<Rightarrow> bool" where
  init: "BlockPool_init n caching hbs kv_events use_int = Inr p \<Longrightarrow> pool_reachable p"
| step: "pool_reachable p \<Longrightarrow> pool_step p p' \<Longrightarrow> pool_reachable p'"

lemma get_new_blocks_short: "pool_inv p free \<Longrightarrow> int (length free) < n \<Longrightarrow> get_new_blocks n p = Inl ValueError"
  by (simp add: get_new_blocks_def pool_inv_num_free)

lemma take_events_inv: "pool_inv p free \<Longrightarrow> pool_inv (snd (take_events p)) free"
  by (auto simp: take_events_def pool_inv_def pool_shape_def pool_blocks_def)

lemma pool_step_inv:
  assumes s: "pool_step p p'" and inv: "pool_inv p free"
  shows "\<exists>free'. pool_inv p' free'"
  using s
proof cases
  case (alloc n bs)
  then have "n \<le> int (length free)" using get_new_blocks_short[OF inv, of n] by fastforce
  then show ?thesis using get_new_blocks_spec[OF inv alloc(1)] alloc(2) by auto
next
  case (share bss)
  then show ?thesis using touch_spec[OF inv share(1)] by auto
next
  case (release xs)
  then show ?thesis using free_blocks_spec[OF inv release(1,2,3)] by auto
next
  case cache
  then show ?thesis using cache_full_blocks_spec[OF inv cache(1-12)] by auto
next
  case (reset ok)
  then show ?thesis using reset_spec(2)[OF inv] by auto
next
  case (collect evs)
  then show ?thesis using take_events_inv[OF inv] by auto
qed

lemma BlockPool_init_error: "n \<le> 0 \<Longrightarrow> BlockPool_init n caching hbs kv_events use_int = Inl AssertionError"
  by (simp add: BlockPool_init_def)

lemma pool_reachable_inv: "pool_reachable p \<Longrightarrow> \<exists>free. pool_inv p free"
proof (induction rule: pool_reachable.induct)
  case (init n caching hbs kv_events use_int p)
  then have "0 < n" using BlockPool_init_error by (metis linorder_not_less sum.distinct(1))
  then show ?case using BlockPool_init_spec init by (metis sum.inject(2))
next
  case (step p p')
  then show ?case using pool_step_inv by blast
qed


section \<open>Properties\<close>

text \<open>
  C2: in every state the pool can reach, the free queue lists exactly the unreferenced blocks in
  order, without repetition; no reference count is negative; the hash map finds exactly the blocks
  that carry a hash; the null block is neither free nor cached; and free and referenced blocks add
  up to the pool size minus one.
\<close>

theorem pool_reachable_invariant:
  assumes "pool_reachable p"
  shows "\<exists>free. pool_inv p free \<and> distinct free \<and> get_num_free_blocks p = int (length free) \<and>
    int (length free) + int (card {b \<in> pool_blocks p. b \<noteq> Blk 0 \<and> 0 < rc p b}) = num_gpu_blocks p - 1"
  using pool_reachable_inv[OF assms] pool_conservation pool_inv_num_free pool_invD(1) fq_repr_distinct by blast

definition sample_pool :: block_pool where
  "sample_pool = (case BlockPool_init 4 True 2 False False of Inr p \<Rightarrow> p)"

lemma sample_pool_init: "BlockPool_init 4 True 2 False False = Inr sample_pool"
  using BlockPool_init_spec[of 4 True 2 False False] by (auto simp: sample_pool_def)

lemma sample_pool_inv:
  "pool_inv sample_pool [Blk 1, Blk 2, Blk 3]" "num_gpu_blocks sample_pool = 4" "enable_caching sample_pool"
  "hash_block_size sample_pool = 2" "\<forall>b\<in>pool_blocks sample_pool. rc sample_pool b = 0 \<and> bh sample_pool b = None"
  using BlockPool_init_spec[of 4 True 2 False False] sample_pool_init by (auto simp: upt_rec eval_nat_numeral)

theorem pool_reachable_invariant_witness:
  "pool_reachable sample_pool \<and> (\<exists>free. pool_inv sample_pool free \<and> get_num_free_blocks sample_pool = int (length free))"
  using pool_reachable_invariant[OF pool_reachable.init[OF sample_pool_init]] pool_reachable.init[OF sample_pool_init]
  by blast

text \<open>
  C15: allocation. Asking for more blocks than are free raises \<open>ValueError\<close>. Otherwise the call
  returns the requested number of blocks from the front of the eviction order, each with exactly one
  reference and no hash; the remaining free blocks keep their order, and no other block changes its
  count or its hash.
\<close>

theorem get_new_blocks_correct:
  assumes "pool_inv p free" "0 \<le> n"
  shows "if int (length free) < n then get_new_blocks n p = Inl ValueError
    else \<exists>p'. get_new_blocks n p = Inr (take (nat n) free, p') \<and> pool_inv p' (drop (nat n) free) \<and>
      (\<forall>b\<in>set (take (nat n) free). rc p' b = 1 \<and> bh p' b = None) \<and>
      (\<forall>b. b \<notin> set (take (nat n) free) \<longrightarrow> rc p' b = rc p b \<and> bh p' b = bh p b)"
  using get_new_blocks_short[OF assms(1), of n] get_new_blocks_spec[OF assms] by (auto simp: not_less)

theorem get_new_blocks_correct_witness:
  "\<exists>p'. get_new_blocks 2 sample_pool = Inr ([Blk 1, Blk 2], p') \<and> pool_inv p' [Blk 3] \<and> rc p' (Blk 1) = 1"
  using get_new_blocks_correct[OF sample_pool_inv(1), of 2] by (auto simp: eval_nat_numeral)

text \<open>
  C16: release. Dropping one reference of every listed block appends those whose count reaches zero
  to the eviction order, in list order, and keeps the pool invariant; hashes stay, so a released
  block can still be hit by a later request.
\<close>

theorem free_blocks_correct:
  assumes "pool_inv p free" "set xs \<subseteq> pool_blocks p" "distinct (filter (\<lambda>b. b \<noteq> Blk 0) xs)"
    "\<forall>b\<in>set xs. b \<noteq> Blk 0 \<longrightarrow> 0 < rc p b"
  shows "\<exists>p'. free_blocks xs p = Inr p' \<and> pool_inv p' (free @ filter (\<lambda>b. b \<noteq> Blk 0 \<and> rc p b = 1) xs) \<and>
    (\<forall>b. rc p' b = rc p b - int (count_list xs b) \<and> bh p' b = bh p b)"
  using free_blocks_spec[OF assms] by auto

theorem free_blocks_correct_witness:
  "\<exists>p p'. get_new_blocks 2 sample_pool = Inr ([Blk 1, Blk 2], p) \<and> free_blocks [Blk 2, Blk 1] p = Inr p' \<and>
     pool_inv p' [Blk 3, Blk 2, Blk 1]"
proof -
  obtain p where p: "get_new_blocks 2 sample_pool = Inr ([Blk 1, Blk 2], p)" "pool_inv p [Blk 3]"
    "pool_frame sample_pool p" "rc p = (\<lambda>b. if b \<in> set [Blk 1, Blk 2] then 1 else rc sample_pool b)"
    using get_new_blocks_spec[OF sample_pool_inv(1), of 2] by (auto simp: eval_nat_numeral)
  have "pool_blocks p = pool_blocks sample_pool" using p(3) by (rule pool_frame_blocks)
  then have "set [Blk 2, Blk 1] \<subseteq> pool_blocks p" using sample_pool_inv(2) by (simp add: pool_blocks_def)
  then have "\<exists>p'. free_blocks [Blk 2, Blk 1] p = Inr p' \<and>
      pool_inv p' ([Blk 3] @ filter (\<lambda>b. b \<noteq> Blk 0 \<and> rc p b = 1) [Blk 2, Blk 1])"
    using free_blocks_correct[OF p(2), of "[Blk 2, Blk 1]"] p(4) by auto
  then show ?thesis using p(1,4) by auto
qed

text \<open>
  C18: lookup. For group ids in range the lookup never raises; it returns a block for every group,
  each carrying the requested hash for that group, exactly when every group has such a block.
\<close>

theorem get_cached_block_correct:
  assumes "pool_inv p free" "\<forall>g\<in>set gs. 0 \<le> g \<and> g < 2 ^ 32"
  shows "(\<exists>bs. get_cached_block p h gs = Inr (Some bs) \<and>
            list_all2 (\<lambda>g b. b \<in> pool_blocks p \<and> bh p b = Some (gkey g h)) gs bs) \<or>
         (get_cached_block p h gs = Inr None \<and> (\<exists>g\<in>set gs. \<forall>b\<in>pool_blocks p. bh p b \<noteq> Some (gkey g h)))"
proof -
  obtain res where "get_cached_block p h gs = Inr res"
    "case res of None \<Rightarrow> \<exists>g\<in>set gs. \<forall>b\<in>pool_blocks p. bh p b \<noteq> Some (gkey g h)
     | Some bs \<Rightarrow> list_all2 (\<lambda>g b. b \<in> pool_blocks p \<and> bh p b = Some (gkey g h)) gs bs"
    using get_cached_block_spec[OF assms] by blast
  then show ?thesis by (cases res) auto
qed

theorem get_cached_block_correct_witness: "get_cached_block sample_pool [1, 2] [0, 1] = Inr None"
proof -
  have "\<not> list_all2 (\<lambda>g b. b \<in> pool_blocks sample_pool \<and> bh sample_pool b = Some (gkey g [1, 2])) [0, 1] bs" for bs
    using sample_pool_inv(5) by (cases bs) auto
  then show ?thesis using get_cached_block_correct[OF sample_pool_inv(1), of "[0, 1]" "[1, 2]"] by auto
qed

text \<open>The hashes that \<open>cache_full_blocks\<close> uses are the merged hashes of the request from the first new block on.\<close>

lemma new_block_hashes_scaled:
  assumes "0 < hash_block_size p" "0 < bsz" "bsz mod hash_block_size p = 0" "0 \<le> nc"
  shows "new_block_hashes p hs bsz nc = Inr (drop (nat nc) (scaled_hashes (hash_block_size p) bsz hs))"
proof (cases "bsz = hash_block_size p")
  case True
  then show ?thesis using assms(1) by (simp add: new_block_hashes_def scaled_same)
next
  case False
  then show ?thesis using bhl_scaled[OF assms(1-3), of hs] assms by (auto simp: new_block_hashes_def)
qed

text \<open>
  C17: caching registers each full block under the hash of its own tokens, makes it findable and loses nothing. Let \<open>f\<close> be the
  number of hashes of the request per block of the group. Block \<open>j\<close> of the request, for \<open>j\<close> from the first block that is
  not cached yet up to the last full one, gets the hashes \<open>j * f\<close> to \<open>j * f + f - 1\<close> of the request with the group as its
  key; a lookup of that hash in the group returns a block with this key; no other block changes its key, and every
  lookup that succeeded before still succeeds.
\<close>

theorem cache_full_blocks_lookup:
  fixes p r bsz and h :: "nat \<Rightarrow> bytes" and f :: nat
  defines "f \<equiv> nat (bsz div hash_block_size p)" and "h j \<equiv> concat (take f (drop (j * f) (block_hashes r)))"
  assumes "pool_inv p free" "enable_caching p" "0 \<le> g \<and> g < 2 ^ 32"
    "0 < hash_block_size p" "0 < bsz" "bsz mod hash_block_size p = 0"
    "0 \<le> nc" "nc < nf" "nf \<le> int (length bs)" "nf * (bsz div hash_block_size p) \<le> int (length (block_hashes r))"
    "set (py_slice bs nc nf) \<subseteq> pool_blocks p - {Blk 0}" "distinct (py_slice bs nc nf)"
    "\<forall>b\<in>set (py_slice bs nc nf). bh p b = None"
    "0 < nc \<longrightarrow> enable_kv_cache_events p \<longrightarrow> bh p (bs ! nat (nc - 1)) \<noteq> None"
  shows "\<exists>p'. cache_full_blocks r bs nc nf bsz g p = Inr p' \<and> pool_inv p' free \<and> rc p' = rc p \<and>
    (\<forall>j. nc \<le> int j \<and> int j < nf \<longrightarrow> bh p' (bs ! j) = Some (gkey g (h j)) \<and>
       (\<exists>b. get_cached_block p' (h j) [g] = Inr (Some [b]) \<and> bh p' b = Some (gkey g (h j)))) \<and>
    (\<forall>b. b \<notin> set (py_slice bs nc nf) \<longrightarrow> bh p' b = bh p b) \<and>
    (\<forall>h g' b. 0 \<le> g' \<and> g' < 2 ^ 32 \<longrightarrow> get_cached_block p h [g'] = Inr (Some [b]) \<longrightarrow>
       (\<exists>b'. get_cached_block p' h [g'] = Inr (Some [b'])))"
proof -
  let ?xs = "py_slice bs nc nf" and ?S = "scaled_hashes (hash_block_size p) bsz (block_hashes r)"
  let ?hs = "drop (nat nc) ?S"
  have "hash_block_size p \<le> bsz" using assms(7,8) by (intro zdvd_imp_le) auto
  then have f: "0 < bsz div hash_block_size p" using int_le_div_iff[OF assms(6), of 1 bsz] by simp
  have fi: "int f = bsz div hash_block_size p" using f by (simp add: f_def)
  have "int (nat nf) * int f \<le> int (length (block_hashes r))" using assms(9,10,12) by (simp add: fi)
  then have nf: "nat nf * f \<le> length (block_hashes r)" by (metis of_nat_le_iff of_nat_mult)
  have f0: "0 < f" using f by (simp add: f_def)
  have S1: "nat nf \<le> length ?S" using nf f0 by (simp add: length_scaled f_def[symmetric] less_eq_div_iff_mult_less_eq)
  have "nat nf * 1 \<le> nat nf * f" using f0 by (intro mult_le_mono2) simp
  then have S2: "nf \<le> int (length (block_hashes r))" using nf by linarith
  have S3: "nf - nc \<le> int (length ?hs)" using S1 assms(9) by (simp add: nat_le_iff)
  obtain p' where p': "cache_full_blocks r bs nc nf bsz g p = Inr p'" "pool_inv p' free" "pool_frame p p'" "rc p' = rc p"
    "bh p' = bh p ++ map_of (zip ?xs (map (gkey g) ?hs))"
    using cache_full_blocks_spec[OF assms(3-5,9-11) S2 new_block_hashes_scaled[OF assms(6-9)] S3 assms(13-16)] by blast
  have D: "pool_blocks p' = pool_blocks p" using p'(3) by (rule pool_frame_blocks)
  have k: "length ?xs = nat (nf - nc)" "length ?xs \<le> length ?hs"
    using assms(9-11) S3 by (auto simp: py_slice_def nat_diff_distrib)
  have key: "bh p' (bs ! j) = Some (gkey g (h j))" "bs ! j \<in> pool_blocks p'" if j: "nc \<le> int j" "int j < nf" for j
  proof -
    let ?i = "j - nat nc"
    have i: "?i < length ?xs" "?xs ! ?i = bs ! j" using j assms(9,11) k(1) by (auto simp: py_slice_def nat_diff_distrib nat_le_iff)
    have "j < length ?S" using j(2) S1 by linarith
    then have "?hs ! ?i = h j" using j(1) by (simp add: h_def scaled_hashes_def Let_def f_def[symmetric] nat_le_iff)
    then have "map_of (zip ?xs (map (gkey g) ?hs)) (?xs ! ?i) = Some (gkey g (h j))"
      using i(1) k assms(14) by (intro map_of_is_SomeI) (auto simp: in_set_zip map_fst_zip_take distinct_take)
    then show "bh p' (bs ! j) = Some (gkey g (h j))" using i(2) by (simp add: p'(5))
    show "bs ! j \<in> pool_blocks p'" using nth_mem[OF i(1)] assms(13) unfolding D i(2) by blast
  qed
  have hit: "\<exists>b. get_cached_block p' (h j) [g] = Inr (Some [b]) \<and> bh p' b = Some (gkey g (h j))" if j: "nc \<le> int j" "int j < nf" for j
    using get_cached_block_spec[OF p'(2), of "[g]" "h j"] assms(5) key[OF j] by (auto split: option.splits simp: list_all2_Cons1)
  have other: "bh p' b = bh p b" if "b \<notin> set ?xs" for b
  proof -
    have "map_of (zip ?xs (map (gkey g) ?hs)) b = None" using that by (auto simp: map_of_eq_None_iff dest: set_zip_leftD)
    then show ?thesis by (simp add: p'(5) map_add_def)
  qed
  have "\<exists>b'. get_cached_block p' h' [g'] = Inr (Some [b'])"
    if g': "0 \<le> g' \<and> g' < 2 ^ 32" and hit: "get_cached_block p h' [g'] = Inr (Some [b])" for h' g' b
  proof -
    have b: "b \<in> pool_blocks p" "bh p b = Some (gkey g' h')"
      using get_cached_block_spec[OF assms(3), of "[g']" h'] g' hit by auto
    then have "b \<notin> set ?xs" using assms(15) by auto
    then show ?thesis using get_cached_hit[OF p'(2) g', of b h'] b D other[of b] by simp
  qed
  then show ?thesis using p'(1,2,4) key(1) hit other by (intro exI[of _ p']) blast
qed

lemma sample_cache_step:
  defines "r \<equiv> (sample_request ''a'' [1, 2, 3] [])\<lparr>block_hashes := [[5]]\<rparr>"
  shows "new_block_hashes sample_pool (block_hashes r) 2 0 = Inr [[5]]" "py_slice [Blk 1] 0 1 = [Blk 1]"
    "set [Blk 1] \<subseteq> pool_blocks sample_pool - {Blk 0}" "bh sample_pool (Blk 1) = None"
  using sample_pool_inv(2,4,5) by (simp_all add: new_block_hashes_def r_def py_slice_def pool_blocks_def)

theorem cache_full_blocks_lookup_witness:
  "\<exists>p'. cache_full_blocks ((sample_request ''a'' [1, 2, 3] [])\<lparr>block_hashes := [[5]]\<rparr>) [Blk 1] 0 1 2 0 sample_pool = Inr p' \<and>
     bh p' (Blk 1) = Some (gkey 0 [5]) \<and> (\<exists>b. get_cached_block p' [5] [0] = Inr (Some [b]))"
  using cache_full_blocks_lookup[OF sample_pool_inv(1,3), of 0 2 0 1 "[Blk 1]"
      "(sample_request ''a'' [1, 2, 3] [])\<lparr>block_hashes := [[5]]\<rparr>"] sample_cache_step sample_pool_inv(4)
  by (fastforce dest: spec[of _ "0 :: nat"])

text \<open>
  C24: resetting the prefix cache succeeds exactly when no block is referenced; afterwards every
  lookup misses. Otherwise nothing changes. The reported usage always lies between 0 and 1.
\<close>

theorem reset_prefix_cache_correct:
  assumes "pool_inv p free" "pool_reset_prefix_cache p = (ok, p')"
  shows "(ok \<longleftrightarrow> (\<forall>b\<in>pool_blocks p. b \<noteq> Blk 0 \<longrightarrow> rc p b = 0)) \<and> pool_inv p' free \<and>
    (ok \<longrightarrow> (\<forall>h g. 0 \<le> g \<and> g < 2 ^ 32 \<longrightarrow> get_cached_block p' h [g] = Inr None)) \<and>
    (\<not> ok \<longrightarrow> p' = p) \<and> 0 \<le> get_usage p \<and> get_usage p \<le> 1"
proof -
  note r = reset_spec[OF assms(1)]
  have p': "p' = snd (pool_reset_prefix_cache p)" "ok = fst (pool_reset_prefix_cache p)" using assms(2) by simp_all
  have "get_cached_block p' h [g] = Inr None" if ok: ok and g: "0 \<le> g \<and> g < 2 ^ 32" for h g
  proof -
    have "bh p' b = None" if "b \<in> pool_blocks p'" for b
      using r(3)[of b] that ok p' pool_frame_blocks[OF r(4)] by simp
    then show ?thesis using get_cached_miss[OF r(2)[folded p'(1)] g] by simp
  qed
  moreover have "\<not> ok \<Longrightarrow> p' = p" using assms(2) by (auto simp: pool_reset_prefix_cache_def Let_def split: if_splits)
  moreover have "0 \<le> get_usage p \<and> get_usage p \<le> 1" by (rule get_usage_bounds[OF assms(1)])
  ultimately show ?thesis using r(1,2) unfolding p'[symmetric] by blast
qed

theorem reset_prefix_cache_correct_witness:
  "\<exists>p'. pool_reset_prefix_cache sample_pool = (True, p') \<and> get_cached_block p' [5] [0] = Inr None"
proof -
  obtain ok p' where p': "pool_reset_prefix_cache sample_pool = (ok, p')" by (cases "pool_reset_prefix_cache sample_pool")
  show ?thesis using reset_prefix_cache_correct[OF sample_pool_inv(1) p'] sample_pool_inv(5) p' by auto
qed

end
