(* ===== verification/Heapq.thy ===== *)
theory Heapq
  imports Main "HOL-Library.Multiset"
begin

text \<open>
  The functions of Python's standard module \<open>heapq\<close> that the priority request queue calls, over the
  comparison \<open>lt\<close> (the \<open>__lt__\<close> of the elements): \<open>heappush\<close>, \<open>heappop\<close> and \<open>heapify\<close>, with the
  two loops \<open>_siftdown\<close> (towards the root) and \<open>_siftup\<close> (towards the leaves, then back up).
\<close>

section \<open>The functions\<close>

definition par :: "nat \<Rightarrow> nat" where
  "par i = (i - 1) div 2"

lemma par_less [simp]: "0 < i \<Longrightarrow> par i < i"
  by (simp add: par_def)

lemma par_children: "0 < c \<Longrightarrow> par c = p \<longleftrightarrow> c = 2 * p + 1 \<or> c = 2 * p + 2"
  by (auto simp: par_def)

lemma par_lt [termination_simp]: "s < p \<Longrightarrow> par p < p"
  by simp

fun siftdown_loop :: "('a \<Rightarrow> 'a \<Rightarrow> bool) \<Rightarrow> 'a list \<Rightarrow> nat \<Rightarrow> nat \<Rightarrow> 'a \<Rightarrow> 'a list" where
  "siftdown_loop lt heap startpos pos newitem =
     (if pos > startpos \<and> lt newitem (heap ! par pos)
      then siftdown_loop lt (heap[pos := heap ! par pos]) startpos (par pos) newitem
      else heap[pos := newitem])"

declare siftdown_loop.simps [simp del]

definition siftdown :: "('a \<Rightarrow> 'a \<Rightarrow> bool) \<Rightarrow> 'a list \<Rightarrow> nat \<Rightarrow> nat \<Rightarrow> 'a list" where
  "siftdown lt heap startpos pos = siftdown_loop lt heap startpos pos (heap ! pos)"

definition smaller_child :: "('a \<Rightarrow> 'a \<Rightarrow> bool) \<Rightarrow> 'a list \<Rightarrow> nat \<Rightarrow> nat" where
  "smaller_child lt heap pos =
     (let childpos = 2 * pos + 1; rightpos = childpos + 1
      in if rightpos < length heap \<and> \<not> lt (heap ! childpos) (heap ! rightpos) then rightpos else childpos)"

function siftup_loop :: "('a \<Rightarrow> 'a \<Rightarrow> bool) \<Rightarrow> 'a list \<Rightarrow> nat \<Rightarrow> 'a list \<times> nat" where
  "siftup_loop lt heap pos =
     (if 2 * pos + 1 < length heap
      then siftup_loop lt (heap[pos := heap ! smaller_child lt heap pos]) (smaller_child lt heap pos)
      else (heap, pos))"
  by pat_completeness auto
termination
  by (relation "measure (\<lambda>(lt, heap, pos). length heap - pos)") (auto simp: smaller_child_def Let_def)

declare siftup_loop.simps [simp del]

definition siftup :: "('a \<Rightarrow> 'a \<Rightarrow> bool) \<Rightarrow> 'a list \<Rightarrow> nat \<Rightarrow> 'a list" where
  "siftup lt heap pos =
     (case siftup_loop lt heap pos of
        (heap', pos') \<Rightarrow> siftdown lt (heap'[pos' := heap ! pos]) pos pos')"

definition heappush :: "('a \<Rightarrow> 'a \<Rightarrow> bool) \<Rightarrow> 'a list \<Rightarrow> 'a \<Rightarrow> 'a list" where
  "heappush lt heap item = siftdown lt (heap @ [item]) 0 (length heap)"

text \<open>Only called on a non-empty list.\<close>

definition heappop :: "('a \<Rightarrow> 'a \<Rightarrow> bool) \<Rightarrow> 'a list \<Rightarrow> 'a \<times> 'a list" where
  "heappop lt heap =
     (let lastelt = last heap; heap = butlast heap
      in if heap = [] then (lastelt, []) else (heap ! 0, siftup lt (heap[0 := lastelt]) 0))"

definition heapify :: "('a \<Rightarrow> 'a \<Rightarrow> bool) \<Rightarrow> 'a list \<Rightarrow> 'a list" where
  "heapify lt x = foldl (siftup lt) x (rev [0..<length x div 2])"

lemma siftdown_loop_length [simp]: "length (siftdown_loop lt heap s pos x) = length heap"
  by (induction lt heap s pos x rule: siftdown_loop.induct) (subst siftdown_loop.simps, simp)

lemma siftup_loop_length: "length (fst (siftup_loop lt heap pos)) = length heap"
  by (induction lt heap pos rule: siftup_loop.induct) (subst siftup_loop.simps, simp)

lemma siftup_length [simp]: "length (siftup lt heap pos) = length heap"
  using siftup_loop_length[of lt heap pos] by (auto simp: siftup_def siftdown_def split: prod.splits)

lemma heappop_length: "heap \<noteq> [] \<Longrightarrow> length (snd (heappop lt heap)) = length heap - 1"
  by (cases heap rule: rev_cases) (simp_all add: heappop_def Let_def)

section \<open>Heaps under a strict weak order\<close>

fun in_sub :: "nat \<Rightarrow> nat \<Rightarrow> bool" where
  "in_sub s p = (if p \<le> s then p = s else in_sub s (par p))"

declare in_sub.simps [simp del]

lemma in_sub_le: "in_sub s p \<Longrightarrow> s \<le> p"
  by (subst (asm) in_sub.simps) (auto split: if_splits)

lemma in_sub_parent: "in_sub s p \<Longrightarrow> s < p \<Longrightarrow> in_sub s (par p) \<and> s \<le> par p"
  by (subst (asm) in_sub.simps) (auto dest: in_sub_le)

lemma in_sub_self [simp]: "in_sub s s"
  by (subst in_sub.simps) simp

lemma in_sub_child: "in_sub s p \<Longrightarrow> par c = p \<Longrightarrow> p < c \<Longrightarrow> in_sub s c"
  using in_sub_le[of s p] by (subst in_sub.simps) auto

locale strict_weak_order =
  fixes lt :: "'a \<Rightarrow> 'a \<Rightarrow> bool"
  assumes lt_asym: "lt a b \<Longrightarrow> \<not> lt b a"
    and lt_negtrans: "\<not> lt b a \<Longrightarrow> \<not> lt c b \<Longrightarrow> \<not> lt c a"
begin

text \<open>The heap order below position \<open>s\<close>, with an exception at one position.\<close>

definition heap_from :: "nat \<Rightarrow> 'a list \<Rightarrow> bool" where
  "heap_from s h \<longleftrightarrow> (\<forall>i. 0 < i \<and> i < length h \<and> s \<le> par i \<longrightarrow> \<not> lt (h ! i) (h ! par i))"

definition heap_but :: "nat \<Rightarrow> nat \<Rightarrow> 'a list \<Rightarrow> bool" where
  "heap_but s pos h \<longleftrightarrow>
     (\<forall>i. 0 < i \<and> i < length h \<and> s \<le> par i \<and> i \<noteq> pos \<longrightarrow> \<not> lt (h ! i) (h ! par i)) \<and>
     (s < pos \<longrightarrow> (\<forall>c. 0 < c \<and> c < length h \<and> par c = pos \<longrightarrow> \<not> lt (h ! c) (h ! par pos)))"

definition is_heap :: "'a list \<Rightarrow> bool" where
  "is_heap h \<longleftrightarrow> heap_from 0 h"

lemma siftdown_step:
  assumes b: "heap_but s pos h" and p: "in_sub s pos" "s < pos" "pos < length h" and l: "lt (h ! pos) (h ! par pos)"
  defines "h' \<equiv> h[pos := h ! par pos, par pos := h ! pos]"
  shows "heap_but s (par pos) h'"
proof -
  let ?p = "par pos"
  have pp: "?p < pos" "s \<le> ?p" using p in_sub_parent by auto
  have nth: "h' ! i = (if i = ?p then h ! pos else if i = pos then h ! ?p else h ! i)" if "i < length h" for i
    using that p(3) pp by (auto simp: h'_def nth_list_update)
  have ord: "\<not> lt (h ! i) (h ! par i)" if "0 < i" "i < length h" "s \<le> par i" "i \<noteq> pos" for i
    using b that by (auto simp: heap_but_def)
  have gp: "\<not> lt (h ! c) (h ! ?p)" if "0 < c" "c < length h" "par c = pos" for c
    using b that p(2) by (auto simp: heap_but_def)
  have "\<not> lt (h' ! i) (h' ! par i)" if i: "0 < i" "i < length h" "s \<le> par i" "i \<noteq> ?p" for i
  proof -
    have pi: "par i < i" "par i < length h" using par_less[OF i(1)] i(2) by linarith+
    consider "i = pos" | "i \<noteq> pos" "par i = pos" | "i \<noteq> pos" "par i = ?p" | "i \<noteq> pos" "par i \<noteq> pos" "par i \<noteq> ?p" by blast
    then show ?thesis
    proof cases
      case 1
      then show ?thesis using nth i pi l lt_asym by simp
    next
      case 2
      then show ?thesis using nth[OF i(2)] nth[OF pi(2)] i gp pp by simp
    next
      case 3
      then have "\<not> lt (h ! i) (h ! ?p)" using ord[OF i(1-3)] by simp
      then have "\<not> lt (h ! i) (h ! pos)" using lt_asym[OF l] lt_negtrans by blast
      then show ?thesis using nth[OF i(2)] nth[OF pi(2)] i 3 by simp
    next
      case 4
      then show ?thesis using nth[OF i(2)] nth[OF pi(2)] i ord by simp
    qed
  qed
  moreover have "\<not> lt (h' ! c) (h' ! par ?p)" if s: "s < ?p" and c: "0 < c" "c < length h" "par c = ?p" for c
  proof -
    have g: "\<not> lt (h ! ?p) (h ! par ?p)" using ord[of ?p] s p pp in_sub_parent[of s ?p] in_sub_parent[OF p(1,2)] by auto
    have "0 < ?p" using s by linarith
    then have pc: "par ?p < ?p" by (rule par_less)
    then have pc: "par ?p < ?p" "par ?p < length h" using p pp by linarith+
    have "c \<noteq> ?p" using c(3) pc(1) by (metis less_irrefl)
    show ?thesis
    proof (cases "c = pos")
      case True
      then show ?thesis using nth[OF c(2)] nth[OF pc(2)] pc pp g by simp
    next
      case False
      then have "\<not> lt (h ! c) (h ! ?p)" using ord[OF c(1,2)] c(3) pp by simp
      then have "\<not> lt (h ! c) (h ! par ?p)" using g lt_negtrans by blast
      then show ?thesis using nth[OF c(2)] nth[OF pc(2)] pc pp False \<open>c \<noteq> ?p\<close> by simp
    qed
  qed
  ultimately show ?thesis by (auto simp: heap_but_def h'_def)
qed

lemma mset_update_swap:
  assumes "i < length h" "j < length h" "i \<noteq> j"
  shows "mset (h[i := h ! j, j := x]) = mset (h[i := x])"
proof -
  have "h[i := x, j := x, i := h ! j] = h[i := h ! j, j := x]"
    using assms(3) list_update_swap[of i j h x x] list_update_swap[of i j h "h ! j" x] by simp
  then show ?thesis using assms mset_swap[of i "h[i := x]" j] by simp
qed

lemma siftdown_loop_heap:
  assumes "heap_but s pos (h[pos := x])" "in_sub s pos" "pos < length h"
  shows "heap_from s (siftdown_loop lt h s pos x) \<and> mset (siftdown_loop lt h s pos x) = mset (h[pos := x])"
  using assms
proof (induction pos arbitrary: h rule: less_induct)
  case (less pos)
  let ?p = "par pos"
  show ?case
  proof (cases "s < pos \<and> lt x (h ! ?p)")
    case True
    have pp: "?p < pos" "?p < length h" using True par_less[of pos] less.prems(3) by linarith+
    then have ne: "?p \<noteq> pos" "pos \<noteq> ?p" by linarith+
    have "heap_but s ?p (h[pos := x, pos := h[pos := x] ! ?p, ?p := h[pos := x] ! pos])"
      by (rule siftdown_step) (use less.prems True ne in simp_all)
    then have b: "heap_but s ?p (h[pos := h ! ?p, ?p := x])" using pp less.prems(3) by simp
    have "heap_from s (siftdown_loop lt (h[pos := h ! ?p]) s ?p x) \<and>
      mset (siftdown_loop lt (h[pos := h ! ?p]) s ?p x) = mset (h[pos := h ! ?p, ?p := x])"
      by (rule less.IH[OF pp(1) b]) (use in_sub_parent[OF less.prems(2)] True pp in simp_all)
    moreover have "siftdown_loop lt h s pos x = siftdown_loop lt (h[pos := h ! ?p]) s ?p x"
      using True by (subst siftdown_loop.simps) simp
    ultimately show ?thesis using mset_update_swap[OF less.prems(3) pp(2) ne(2)] by simp
  next
    case False
    then have e: "siftdown_loop lt h s pos x = h[pos := x]" by (subst siftdown_loop.simps) (simp only: if_False)
    have "\<not> lt (h[pos := x] ! i) (h[pos := x] ! par i)" if i: "0 < i" "i < length h" "s \<le> par i" for i
    proof (cases "i = pos")
      case True
      then have "s < pos" "par pos \<noteq> pos" using i par_less[OF i(1)] by (simp, metis less_irrefl)
      then show ?thesis using \<open>\<not> (s < pos \<and> lt x (h ! ?p))\<close> True i by simp
    next
      case False
      then show ?thesis using less.prems(1) i by (simp add: heap_but_def)
    qed
    then show ?thesis unfolding e by (simp add: heap_from_def)
  qed
qed

lemma siftdown_heap:
  assumes "heap_but s pos h" "in_sub s pos" "pos < length h"
  shows "heap_from s (siftdown lt h s pos)" "mset (siftdown lt h s pos) = mset h"
  using siftdown_loop_heap[of s pos h "h ! pos"] assms by (simp_all add: siftdown_def)

lemma heappush_heap:
  assumes "is_heap h"
  shows "is_heap (heappush lt h x)" "mset (heappush lt h x) = add_mset x (mset h)"
proof -
  have "heap_but 0 (length h) (h @ [x])"
  proof -
    have "\<not> lt ((h @ [x]) ! i) ((h @ [x]) ! par i)" if "0 < i" "i < length h" for i
    proof -
      have "par i < length h" using par_less[OF that(1)] that(2) by linarith
      then show ?thesis using assms that by (simp add: is_heap_def heap_from_def nth_append)
    qed
    moreover have "par c \<noteq> length h" if "0 < c" "c < length (h @ [x])" for c
      using par_less[OF that(1)] that(2) by simp
    ultimately show ?thesis unfolding heap_but_def by (metis length_append_singleton less_antisym)
  qed
  moreover have "in_sub 0 k" for k
    by (induction k rule: less_induct) (subst in_sub.simps, auto)
  ultimately show "is_heap (heappush lt h x)" "mset (heappush lt h x) = add_mset x (mset h)"
    using siftdown_heap[of 0 "length h" "h @ [x]"] by (simp_all add: is_heap_def heappush_def)
qed

text \<open>Sifting up: the hole moves to a leaf along the smaller children.\<close>

definition hole_at :: "nat \<Rightarrow> nat \<Rightarrow> 'a list \<Rightarrow> bool" where
  "hole_at s pos h \<longleftrightarrow>
     (\<forall>i. 0 < i \<and> i < length h \<and> s \<le> par i \<and> i \<noteq> pos \<and> par i \<noteq> pos \<longrightarrow> \<not> lt (h ! i) (h ! par i)) \<and>
     (s < pos \<longrightarrow> (\<forall>c. 0 < c \<and> c < length h \<and> par c = pos \<longrightarrow> \<not> lt (h ! c) (h ! par pos)))"

lemma smaller_child_spec:
  assumes "2 * pos + 1 < length h"
  defines "c \<equiv> smaller_child lt h pos"
  shows "par c = pos" "c < length h" "pos < c"
    "\<And>d. 0 < d \<Longrightarrow> d < length h \<Longrightarrow> par d = pos \<Longrightarrow> \<not> lt (h ! d) (h ! c)"
proof -
  show "par c = pos" "c < length h" "pos < c"
    using assms by (auto simp: smaller_child_def Let_def par_def)
  fix d assume d: "0 < d" "d < length h" "par d = pos"
  then have "d = 2 * pos + 1 \<or> d = 2 * pos + 2" using par_children by blast
  then show "\<not> lt (h ! d) (h ! c)"
    using d(2) lt_asym by (auto simp: c_def smaller_child_def Let_def)
qed

lemma hole_step:
  assumes ho: "hole_at s pos h" and p: "in_sub s pos" "2 * pos + 1 < length h"
  defines "c \<equiv> smaller_child lt h pos"
  shows "hole_at s c (h[pos := h ! c])"
proof -
  note c = smaller_child_spec[OF p(2), folded c_def]
  have sp: "s \<le> pos" using p(1) by (rule in_sub_le)
  have nth: "h[pos := h ! c] ! i = (if i = pos then h ! c else h ! i)" if "i < length h" for i
    using that by (simp add: nth_list_update)
  have ord: "\<not> lt (h ! i) (h ! par i)" if "0 < i" "i < length h" "s \<le> par i" "i \<noteq> pos" "par i \<noteq> pos" for i
    using ho that by (simp add: hole_at_def)
  have gp: "\<not> lt (h ! d) (h ! par pos)" if "s < pos" "0 < d" "d < length h" "par d = pos" for d
    using ho that by (simp add: hole_at_def)
  have "\<not> lt (h[pos := h ! c] ! i) (h[pos := h ! c] ! par i)"
    if i: "0 < i" "i < length h" "s \<le> par i" "i \<noteq> c" "par i \<noteq> c" for i
  proof -
    have pi: "par i < i" "par i < length h" using par_less[OF i(1)] i(2) by linarith+
    consider "i = pos" | "i \<noteq> pos" "par i = pos" | "i \<noteq> pos" "par i \<noteq> pos" by blast
    then show ?thesis
    proof cases
      case 1
      then have "s < pos" using i(3) pi by linarith
      then show ?thesis using nth[OF i(2)] nth[OF pi(2)] 1 pi gp[of c] c by simp
    next
      case 2
      then show ?thesis using nth[OF i(2)] nth[OF pi(2)] i c(4)[of i] by simp
    next
      case 3
      then show ?thesis using nth[OF i(2)] nth[OF pi(2)] i ord by simp
    qed
  qed
  moreover have "\<not> lt (h[pos := h ! c] ! d) (h[pos := h ! c] ! par c)"
    if d: "0 < d" "d < length h" "par d = c" for d
  proof -
    have "d \<noteq> pos" using d(3) c(3) par_less[OF d(1)] by linarith
    then have "\<not> lt (h ! d) (h ! c)" using ord[of d] d c sp by simp
    then show ?thesis using nth[OF d(2)] \<open>d \<noteq> pos\<close> c p(2) by simp
  qed
  ultimately show ?thesis by (auto simp: hole_at_def)
qed

lemma siftup_loop_spec:
  assumes "hole_at s pos h" "in_sub s pos" "pos < length h"
  shows "\<exists>h' pos'. siftup_loop lt h pos = (h', pos') \<and> hole_at s pos' h' \<and> in_sub s pos' \<and> pos' < length h' \<and>
    length h' \<le> 2 * pos' + 1 \<and> mset (h'[pos' := x]) = mset (h[pos := x]) \<and> length h' = length h"
  using assms
proof (induction "length h - pos" arbitrary: h pos rule: less_induct)
  case less
  show ?case
  proof (cases "2 * pos + 1 < length h")
    case True
    define c where "c = smaller_child lt h pos"
    note c = smaller_child_spec[OF True, folded c_def]
    have "\<exists>h' pos'. siftup_loop lt (h[pos := h ! c]) c = (h', pos') \<and> hole_at s pos' h' \<and> in_sub s pos' \<and>
        pos' < length h' \<and> length h' \<le> 2 * pos' + 1 \<and> mset (h'[pos' := x]) = mset (h[pos := h ! c, c := x]) \<and>
        length h' = length (h[pos := h ! c])"
      by (rule less.hyps)
        (use c hole_step[OF less.prems(1,2) True, folded c_def] in_sub_child[OF less.prems(2) c(1,3)] in simp_all)
    moreover have "mset (h[pos := h ! c, c := x]) = mset (h[pos := x])"
      by (rule mset_update_swap) (use c less.prems in simp_all)
    ultimately show ?thesis using True by (subst siftup_loop.simps) (simp add: c_def)
  next
    case False
    then show ?thesis using less.prems by (subst siftup_loop.simps) simp
  qed
qed

lemma siftup_heap:
  assumes "heap_from (Suc s) h" "s < length h"
  shows "heap_from s (siftup lt h s)" "mset (siftup lt h s) = mset h" "length (siftup lt h s) = length h"
proof -
  have "\<not> lt (h ! i) (h ! par i)" if "0 < i" "i < length h" "s \<le> par i" "par i \<noteq> s" for i
  proof -
    have "Suc s \<le> par i" using that(3,4) by linarith
    then show ?thesis using assms(1) that(1,2) unfolding heap_from_def by blast
  qed
  then have "hole_at s s h" unfolding hole_at_def by blast
  from siftup_loop_spec[OF this in_sub_self assms(2), of "h ! s"] obtain h' pos' where
    l: "siftup_loop lt h s = (h', pos')" "hole_at s pos' h'" "in_sub s pos'" "pos' < length h'"
      "length h' \<le> 2 * pos' + 1" "mset (h'[pos' := h ! s]) = mset h"
    unfolding list_update_id by blast
  have noc: "par i \<noteq> pos'" if "0 < i" "i < length h'" for i using that l(5) par_children by auto
  have "\<not> lt (h'[pos' := h ! s] ! i) (h'[pos' := h ! s] ! par i)"
    if "0 < i" "i < length h'" "s \<le> par i" "i \<noteq> pos'" for i
  proof -
    have "\<not> lt (h' ! i) (h' ! par i)" using l(2) noc[OF that(1,2)] that unfolding hole_at_def by blast
    then show ?thesis using noc[OF that(1,2)] that(4) by simp
  qed
  then have "heap_but s pos' (h'[pos' := h ! s])" using noc unfolding heap_but_def length_list_update by blast
  moreover have "pos' < length (h'[pos' := h ! s])" using l(4) by simp
  moreover have "siftup lt h s = siftdown lt (h'[pos' := h ! s]) s pos'" unfolding siftup_def l(1) by simp
  ultimately have r: "heap_from s (siftup lt h s) \<and> mset (siftup lt h s) = mset h"
    using siftdown_heap[of s pos' "h'[pos' := h ! s]"] l(3,6) by simp
  then show "heap_from s (siftup lt h s)" "mset (siftup lt h s) = mset h" by simp_all
  then show "length (siftup lt h s) = length h" by (metis size_mset)
qed

lemma heap_root_least:
  assumes "is_heap h" "i < length h"
  shows "\<not> lt (h ! i) (h ! 0)"
  using assms(2)
proof (induction i rule: less_induct)
  case (less i)
  show ?case
  proof (cases "i = 0")
    case True
    then show ?thesis using lt_asym by blast
  next
    case False
    then have p: "par i < i" "par i < length h" using par_less[of i] less.prems by linarith+
    have "\<not> lt (h ! i) (h ! par i)" using assms(1) False less.prems by (simp add: is_heap_def heap_from_def)
    then show ?thesis using less.IH[OF p] lt_negtrans by blast
  qed
qed

lemma is_heap_Nil [simp]: "is_heap []"
  by (simp add: is_heap_def heap_from_def)

lemma heappop_heap:
  assumes "is_heap h" "h \<noteq> []"
  shows "\<exists>h'. heappop lt h = (h ! 0, h') \<and> is_heap h' \<and> mset h = add_mset (h ! 0) (mset h')"
proof -
  obtain b l where h: "h = b @ [l]" using assms(2) by (metis append_butlast_last_id)
  show ?thesis
  proof (cases b)
    case Nil
    then show ?thesis by (simp add: h heappop_def)
  next
    case (Cons x b')
    have "\<not> lt (b[0 := l] ! i) (b[0 := l] ! par i)" if "0 < i" "i < length b" "Suc 0 \<le> par i" for i
    proof -
      have "par i < length b" using par_less[OF that(1)] that(2) by linarith
      moreover have "\<not> lt (h ! i) (h ! par i)" using assms(1) that by (simp add: is_heap_def heap_from_def h)
      ultimately show ?thesis using that by (simp add: h nth_append)
    qed
    then have "heap_from (Suc 0) (b[0 := l])" by (simp add: heap_from_def)
    from siftup_heap[OF this] Cons have
      "is_heap (siftup lt (b[0 := l]) 0)" "mset (siftup lt (b[0 := l]) 0) = mset (b[0 := l])"
      by (simp_all add: is_heap_def)
    then show ?thesis using Cons by (simp add: h heappop_def)
  qed
qed

lemma heapify_loop:
  assumes "heap_from n h" "n \<le> length h"
  shows "heap_from 0 (foldl (siftup lt) h (rev [0..<n])) \<and> mset (foldl (siftup lt) h (rev [0..<n])) = mset h"
  using assms
proof (induction n arbitrary: h)
  case (Suc n)
  then show ?case using siftup_heap[of n h] by simp
qed simp

lemma heapify_heap: "is_heap (heapify lt h)" "mset (heapify lt h) = mset h"
proof -
  have "heap_from (length h div 2) h"
    by (auto simp: heap_from_def par_def)
  from heapify_loop[OF this] show "is_heap (heapify lt h)" "mset (heapify lt h) = mset h"
    by (simp_all add: is_heap_def heapify_def)
qed

end

end
