(* ===== verification/Request_Queue.thy ===== *)
theory Request_Queue
  imports Requests Heapq
begin

text \<open>
  The waiting queues of the scheduler (\<open>vllm/v1/core/sched/request_queue.py\<close>): the abstract class
  \<open>RequestQueue\<close> with its two implementations, the first-come-first-served queue (a deque) and the
  priority queue (a binary heap under \<open>Request.__lt__\<close>), and the factory. Requests are compared by
  object identity, as the class defines no \<open>__eq__\<close>. The contract of the abstract class is a locale;
  both classes refine an ordered list: insertion order for the first, sorted order for the second.
\<close>

section \<open>The classes\<close>

datatype SchedulingPolicy = FCFS | PRIORITY

datatype RequestQueue = FCFSRequestQueue "Request list" | PriorityRequestQueue "Request list"

text \<open>The first element equal to the argument is removed; a missing element raises (\<open>list.remove\<close>).\<close>

fun py_remove :: "Request list \<Rightarrow> Request \<Rightarrow> Request list result" where
  "py_remove [] r = Inl ValueError"
| "py_remove (x # xs) r =
     (if obj_id x = obj_id r then Inr xs else res_bind (py_remove xs r) (\<lambda>ys. Inr (x # ys)))"

definition not_among :: "Request list \<Rightarrow> Request \<Rightarrow> bool" where
  "not_among requests r \<longleftrightarrow> obj_id r \<notin> set (map obj_id requests)"

subsection \<open>First come, first served\<close>

definition fcfs_add_request :: "Request list \<Rightarrow> Request \<Rightarrow> Request list" where
  [simp]: "fcfs_add_request q request = q @ [request]"

definition fcfs_pop_request :: "Request list \<Rightarrow> (Request \<times> Request list) result" where
  [simp]: "fcfs_pop_request q = (case q of [] \<Rightarrow> Inl IndexError | r # q' \<Rightarrow> Inr (r, q'))"

definition fcfs_peek_request :: "Request list \<Rightarrow> Request result" where
  [simp]: "fcfs_peek_request q = (if q = [] then Inl IndexError else Inr (q ! 0))"

definition fcfs_prepend_request :: "Request list \<Rightarrow> Request \<Rightarrow> Request list" where
  [simp]: "fcfs_prepend_request q request = request # q"

text \<open>\<open>deque.extendleft\<close> appends the elements one by one on the left; the argument is the reversed queue.\<close>

definition fcfs_prepend_requests :: "Request list \<Rightarrow> Request list \<Rightarrow> Request list" where
  [simp]: "fcfs_prepend_requests q reversed_requests = foldl (\<lambda>q r. r # q) q reversed_requests"

definition fcfs_remove_request :: "Request list \<Rightarrow> Request \<Rightarrow> Request list result" where
  [simp]: "fcfs_remove_request q request = py_remove q request"

definition fcfs_remove_requests :: "Request list \<Rightarrow> Request list \<Rightarrow> Request list" where
  [simp]: "fcfs_remove_requests q requests = filter (not_among requests) q"

definition fcfs_bool :: "Request list \<Rightarrow> bool" where
  [simp]: "fcfs_bool q \<longleftrightarrow> length q > 0"

definition fcfs_len :: "Request list \<Rightarrow> nat" where
  [simp]: "fcfs_len q = length q"

definition fcfs_iter :: "Request list \<Rightarrow> Request list" where
  [simp]: "fcfs_iter q = q"

definition fcfs_reversed :: "Request list \<Rightarrow> Request list" where
  [simp]: "fcfs_reversed q = rev q"

subsection \<open>Priority\<close>

definition priority_add_request :: "Request list \<Rightarrow> Request \<Rightarrow> Request list" where
  [simp]: "priority_add_request h request = heappush request_lt h request"

definition priority_pop_request :: "Request list \<Rightarrow> (Request \<times> Request list) result" where
  [simp]: "priority_pop_request h = (if h = [] then Inl IndexError else Inr (heappop request_lt h))"

definition priority_peek_request :: "Request list \<Rightarrow> Request result" where
  [simp]: "priority_peek_request h = (if h = [] then Inl IndexError else Inr (h ! 0))"

definition priority_prepend_request :: "Request list \<Rightarrow> Request \<Rightarrow> Request list" where
  [simp]: "priority_prepend_request h request = priority_add_request h request"

definition priority_prepend_requests :: "Request list \<Rightarrow> Request list \<Rightarrow> Request list" where
  [simp]: "priority_prepend_requests h requests = foldl priority_add_request h requests"

definition priority_remove_request :: "Request list \<Rightarrow> Request \<Rightarrow> Request list result" where
  [simp]: "priority_remove_request h request = res_bind (py_remove h request) (\<lambda>h'. Inr (heapify request_lt h'))"

definition priority_remove_requests :: "Request list \<Rightarrow> Request list \<Rightarrow> Request list" where
  [simp]: "priority_remove_requests h requests = heapify request_lt (filter (not_among requests) h)"

definition priority_bool :: "Request list \<Rightarrow> bool" where
  [simp]: "priority_bool h \<longleftrightarrow> h \<noteq> []"

definition priority_len :: "Request list \<Rightarrow> nat" where
  [simp]: "priority_len h = length h"

function heap_iter :: "Request list \<Rightarrow> Request list" where
  "heap_iter h = (if h = [] then [] else fst (heappop request_lt h) # heap_iter (snd (heappop request_lt h)))"
  by pat_completeness auto
termination
  by (relation "measure length") (auto simp: heappop_length)

declare heap_iter.simps [simp del]

definition priority_reversed :: "Request list \<Rightarrow> Request list" where
  [simp]: "priority_reversed h = rev (heap_iter h)"

subsection \<open>Dynamic dispatch\<close>

fun RequestQueue_iter :: "RequestQueue \<Rightarrow> Request list" where
  "RequestQueue_iter (FCFSRequestQueue q) = fcfs_iter q"
| "RequestQueue_iter (PriorityRequestQueue h) = heap_iter h"

fun RequestQueue_reversed :: "RequestQueue \<Rightarrow> Request list" where
  "RequestQueue_reversed (FCFSRequestQueue q) = fcfs_reversed q"
| "RequestQueue_reversed (PriorityRequestQueue h) = priority_reversed h"

fun RequestQueue_len :: "RequestQueue \<Rightarrow> nat" where
  "RequestQueue_len (FCFSRequestQueue q) = fcfs_len q"
| "RequestQueue_len (PriorityRequestQueue h) = priority_len h"

fun RequestQueue_bool :: "RequestQueue \<Rightarrow> bool" where
  "RequestQueue_bool (FCFSRequestQueue q) = fcfs_bool q"
| "RequestQueue_bool (PriorityRequestQueue h) = priority_bool h"

fun add_request :: "RequestQueue \<Rightarrow> Request \<Rightarrow> RequestQueue" where
  "add_request (FCFSRequestQueue q) request = FCFSRequestQueue (fcfs_add_request q request)"
| "add_request (PriorityRequestQueue h) request = PriorityRequestQueue (priority_add_request h request)"

fun pop_request :: "RequestQueue \<Rightarrow> (Request \<times> RequestQueue) result" where
  "pop_request (FCFSRequestQueue q) = res_bind (fcfs_pop_request q) (\<lambda>(r, q'). Inr (r, FCFSRequestQueue q'))"
| "pop_request (PriorityRequestQueue h) = res_bind (priority_pop_request h) (\<lambda>(r, h'). Inr (r, PriorityRequestQueue h'))"

fun peek_request :: "RequestQueue \<Rightarrow> Request result" where
  "peek_request (FCFSRequestQueue q) = fcfs_peek_request q"
| "peek_request (PriorityRequestQueue h) = priority_peek_request h"

fun prepend_request :: "RequestQueue \<Rightarrow> Request \<Rightarrow> RequestQueue" where
  "prepend_request (FCFSRequestQueue q) request = FCFSRequestQueue (fcfs_prepend_request q request)"
| "prepend_request (PriorityRequestQueue h) request = PriorityRequestQueue (priority_prepend_request h request)"

fun prepend_requests :: "RequestQueue \<Rightarrow> RequestQueue \<Rightarrow> RequestQueue" where
  "prepend_requests (FCFSRequestQueue q) requests =
     FCFSRequestQueue (fcfs_prepend_requests q (RequestQueue_reversed requests))"
| "prepend_requests (PriorityRequestQueue h) requests =
     PriorityRequestQueue (priority_prepend_requests h (RequestQueue_iter requests))"

fun remove_request :: "RequestQueue \<Rightarrow> Request \<Rightarrow> RequestQueue result" where
  "remove_request (FCFSRequestQueue q) request =
     res_bind (fcfs_remove_request q request) (\<lambda>q'. Inr (FCFSRequestQueue q'))"
| "remove_request (PriorityRequestQueue h) request =
     res_bind (priority_remove_request h request) (\<lambda>h'. Inr (PriorityRequestQueue h'))"

fun remove_requests :: "RequestQueue \<Rightarrow> Request list \<Rightarrow> RequestQueue" where
  "remove_requests (FCFSRequestQueue q) requests = FCFSRequestQueue (fcfs_remove_requests q requests)"
| "remove_requests (PriorityRequestQueue h) requests = PriorityRequestQueue (priority_remove_requests h requests)"

fun create_request_queue :: "SchedulingPolicy \<Rightarrow> RequestQueue" where
  "create_request_queue PRIORITY = PriorityRequestQueue []"
| "create_request_queue FCFS = FCFSRequestQueue []"

section \<open>The contract of the abstract class\<close>

text \<open>
  A queue is seen through its iteration order. What every implementation promises to the scheduler:
  popping and peeking follow the iteration order and fail with \<open>IndexError\<close> exactly on an empty
  queue, and no operation loses or duplicates a request.
\<close>

locale request_queue_contract =
  fixes inv :: "'q \<Rightarrow> bool"
    and iter :: "'q \<Rightarrow> Request list"
    and add :: "'q \<Rightarrow> Request \<Rightarrow> 'q"
    and pop :: "'q \<Rightarrow> (Request \<times> 'q) result"
    and peek :: "'q \<Rightarrow> Request result"
  assumes inv_add: "inv q \<Longrightarrow> inv (add q r)"
    and mset_add: "inv q \<Longrightarrow> mset (iter (add q r)) = add_mset r (mset (iter q))"
    and pop_Nil: "inv q \<Longrightarrow> iter q = [] \<Longrightarrow> pop q = Inl IndexError"
    and pop_Cons: "inv q \<Longrightarrow> iter q = r # rs \<Longrightarrow> \<exists>q'. pop q = Inr (r, q') \<and> inv q' \<and> iter q' = rs"
    and peek_Nil: "inv q \<Longrightarrow> iter q = [] \<Longrightarrow> peek q = Inl IndexError"
    and peek_Cons: "inv q \<Longrightarrow> iter q = r # rs \<Longrightarrow> peek q = Inr r"
begin

lemma peek_is_pop: "inv q \<Longrightarrow> peek q = res_bind (pop q) (\<lambda>(r, q'). Inr r)"
  by (cases "iter q") (use pop_Nil peek_Nil pop_Cons peek_Cons in fastforce)+

lemma add_all_mset: "inv q \<Longrightarrow> inv (foldl add q rs) \<and> mset (iter (foldl add q rs)) = mset rs + mset (iter q)"
  by (induction rs arbitrary: q) (simp_all add: inv_add mset_add)

end

section \<open>The implementations keep the contract\<close>

interpretation rh: strict_weak_order request_lt
  by unfold_locales (erule request_lt_asym, rule request_lt_negtrans)

fun rq_inv :: "RequestQueue \<Rightarrow> bool" where
  "rq_inv (FCFSRequestQueue q) = True"
| "rq_inv (PriorityRequestQueue h) = rh.is_heap h"

lemma heap_iter_Nil [simp]: "heap_iter [] = []"
  by (simp add: heap_iter.simps)

lemma heap_iter_unfold:
  assumes "rh.is_heap h" "h \<noteq> []"
  obtains h' where "heappop request_lt h = (h ! 0, h')" "rh.is_heap h'" "mset h = add_mset (h ! 0) (mset h')"
    "heap_iter h = h ! 0 # heap_iter h'" "length h' < length h"
proof -
  obtain h' where h': "heappop request_lt h = (h ! 0, h')" "rh.is_heap h'" "mset h = add_mset (h ! 0) (mset h')"
    using rh.heappop_heap[OF assms] by blast
  moreover have "heap_iter h = h ! 0 # heap_iter h'" using assms(2) h'(1) by (subst heap_iter.simps) simp
  moreover have "length h' < length h" using heappop_length[OF assms(2), of request_lt] h'(1) assms(2) by simp
  ultimately show ?thesis by (rule that)
qed

lemma heap_iter_mset: "rh.is_heap h \<Longrightarrow> mset (heap_iter h) = mset h"
proof (induction h rule: length_induct)
  case (1 h)
  show ?case
  proof (cases "h = []")
    case False
    from heap_iter_unfold[OF 1(2) False] obtain h' where "rh.is_heap h'" "mset h = add_mset (h ! 0) (mset h')"
      "heap_iter h = h ! 0 # heap_iter h'" "length h' < length h"
      by blast
    then show ?thesis using 1(1) by simp
  qed simp
qed

lemma heap_iter_set: "rh.is_heap h \<Longrightarrow> set (heap_iter h) = set h"
  using heap_iter_mset by (metis set_mset_mset)

lemma heap_iter_sorted: "rh.is_heap h \<Longrightarrow> sorted_wrt (\<lambda>a b. \<not> request_lt b a) (heap_iter h)"
proof (induction h rule: length_induct)
  case (1 h)
  show ?case
  proof (cases "h = []")
    case False
    from heap_iter_unfold[OF 1(2) False] obtain h' where h': "rh.is_heap h'" "mset h = add_mset (h ! 0) (mset h')"
      "heap_iter h = h ! 0 # heap_iter h'" "length h' < length h"
      by blast
    have "\<not> request_lt b (h ! 0)" if "b \<in> set h'" for b
    proof -
      have "b \<in> set h" using that h'(2) by (metis insert_iff set_mset_add_mset_insert set_mset_mset)
      then obtain i where "i < length h" "b = h ! i" by (metis in_set_conv_nth)
      then show ?thesis using rh.heap_root_least[OF 1(2)] by simp
    qed
    then show ?thesis using h' 1(1) heap_iter_set[OF h'(1)] by simp
  qed simp
qed

lemma rq_pop:
  assumes "rq_inv q"
  shows "RequestQueue_iter q = [] \<Longrightarrow> pop_request q = Inl IndexError \<and> peek_request q = Inl IndexError"
    "RequestQueue_iter q = r # rs \<Longrightarrow>
      peek_request q = Inr r \<and> (\<exists>q'. pop_request q = Inr (r, q') \<and> rq_inv q' \<and> RequestQueue_iter q' = rs)"
proof -
  have nil: "h = []" if "rh.is_heap h" "heap_iter h = []" for h
    using heap_iter_mset[OF that(1)] that(2) by simp
  show "pop_request q = Inl IndexError \<and> peek_request q = Inl IndexError" if "RequestQueue_iter q = []"
    using assms that nil by (cases q) auto
  show "peek_request q = Inr r \<and> (\<exists>q'. pop_request q = Inr (r, q') \<and> rq_inv q' \<and> RequestQueue_iter q' = rs)"
    if it: "RequestQueue_iter q = r # rs"
  proof (cases q)
    case (FCFSRequestQueue x)
    then show ?thesis using it by auto
  next
    case (PriorityRequestQueue h)
    then have "rh.is_heap h" "h \<noteq> []" using it assms by auto
    then obtain h' where "heappop request_lt h = (h ! 0, h')" "rh.is_heap h'" "heap_iter h = h ! 0 # heap_iter h'"
      by (rule heap_iter_unfold)
    then show ?thesis using it PriorityRequestQueue \<open>h \<noteq> []\<close> by simp
  qed
qed

lemma rq_add_mset:
  "rq_inv q \<Longrightarrow> rq_inv (add_request q r) \<and>
    mset (RequestQueue_iter (add_request q r)) = add_mset r (mset (RequestQueue_iter q))"
  by (cases q) (auto simp: heap_iter_mset rh.heappush_heap)

interpretation rqc: request_queue_contract rq_inv RequestQueue_iter add_request pop_request peek_request
  by unfold_locales (use rq_add_mset rq_pop in auto)

section \<open>Refinement of ordered lists\<close>

text \<open>
  The reference behaviour: a queue is the list of its requests in the order in which they will be
  popped. Adding inserts at the end, or at the place of the request in the total order of requests.
\<close>

fun insort_request :: "Request \<Rightarrow> Request list \<Rightarrow> Request list" where
  "insort_request r [] = [r]"
| "insort_request r (x # xs) = (if request_lt r x then r # x # xs else x # insort_request r xs)"

datatype queue_op =
    AddRequest Request | PopRequest | PrependRequest Request | PrependRequests RequestQueue
  | RemoveRequest Request | RemoveRequests "Request list"

fun queue_step :: "RequestQueue \<Rightarrow> queue_op \<Rightarrow> (Request list \<times> RequestQueue) result" where
  "queue_step q (AddRequest r) = Inr ([], add_request q r)"
| "queue_step q PopRequest = res_bind (pop_request q) (\<lambda>(r, q'). Inr ([r], q'))"
| "queue_step q (PrependRequest r) = Inr ([], prepend_request q r)"
| "queue_step q (PrependRequests rs) = Inr ([], prepend_requests q rs)"
| "queue_step q (RemoveRequest r) = res_bind (remove_request q r) (\<lambda>q'. Inr ([], q'))"
| "queue_step q (RemoveRequests rs) = Inr ([], remove_requests q rs)"

fun spec_insert :: "SchedulingPolicy \<Rightarrow> Request \<Rightarrow> Request list \<Rightarrow> Request list" where
  "spec_insert FCFS r xs = xs @ [r]"
| "spec_insert PRIORITY r xs = insort_request r xs"

fun spec_prepend :: "SchedulingPolicy \<Rightarrow> Request list \<Rightarrow> Request list \<Rightarrow> Request list" where
  "spec_prepend FCFS rs xs = rs @ xs"
| "spec_prepend PRIORITY rs xs = foldl (\<lambda>xs r. insort_request r xs) xs rs"

fun spec_step :: "SchedulingPolicy \<Rightarrow> Request list \<Rightarrow> queue_op \<Rightarrow> (Request list \<times> Request list) result" where
  "spec_step p xs (AddRequest r) = Inr ([], spec_insert p r xs)"
| "spec_step p xs PopRequest = (case xs of [] \<Rightarrow> Inl IndexError | r # rs \<Rightarrow> Inr ([r], rs))"
| "spec_step p xs (PrependRequest r) = Inr ([], spec_prepend p [r] xs)"
| "spec_step p xs (PrependRequests q) = Inr ([], spec_prepend p (RequestQueue_iter q) xs)"
| "spec_step p xs (RemoveRequest r) =
     (if not_among xs r then Inl ValueError else Inr ([], filter (not_among [r]) xs))"
| "spec_step p xs (RemoveRequests rs) = Inr ([], filter (not_among rs) xs)"

text \<open>The requests popped by a sequence of operations and the queue they leave.\<close>

fun queue_run :: "RequestQueue \<Rightarrow> queue_op list \<Rightarrow> (Request list \<times> RequestQueue) result" where
  "queue_run q [] = Inr ([], q)"
| "queue_run q (x # ops) =
     res_bind (queue_step q x) (\<lambda>(out, q'). res_bind (queue_run q' ops) (\<lambda>(outs, q''). Inr (out @ outs, q'')))"

fun spec_run :: "SchedulingPolicy \<Rightarrow> Request list \<Rightarrow> queue_op list \<Rightarrow> (Request list \<times> Request list) result" where
  "spec_run p xs [] = Inr ([], xs)"
| "spec_run p xs (x # ops) =
     res_bind (spec_step p xs x) (\<lambda>(out, xs'). res_bind (spec_run p xs' ops) (\<lambda>(outs, xs''). Inr (out @ outs, xs'')))"

text \<open>A request object is in a queue at most once: whoever adds one adds an absent one.\<close>

fun op_fresh :: "Request list \<Rightarrow> queue_op \<Rightarrow> bool" where
  "op_fresh xs (AddRequest r) = not_among xs r"
| "op_fresh xs (PrependRequest r) = not_among xs r"
| "op_fresh xs (PrependRequests q) \<longleftrightarrow> rq_inv q \<and> distinct (map obj_id (RequestQueue_iter q @ xs))"
| "op_fresh xs x = True"

fun run_fresh :: "SchedulingPolicy \<Rightarrow> Request list \<Rightarrow> queue_op list \<Rightarrow> bool" where
  "run_fresh p xs [] = True"
| "run_fresh p xs (x # ops) \<longleftrightarrow> op_fresh xs x \<and>
     (case spec_step p xs x of Inl _ \<Rightarrow> True | Inr (out, xs') \<Rightarrow> run_fresh p xs' ops)"

fun policy_of :: "RequestQueue \<Rightarrow> SchedulingPolicy" where
  "policy_of (FCFSRequestQueue q) = FCFS"
| "policy_of (PriorityRequestQueue h) = PRIORITY"

lemma sorted_request_unique:
  assumes "sorted_wrt request_lt xs" "sorted_wrt request_lt ys" "mset xs = mset ys"
  shows "xs = ys"
  using assms
proof (induction xs arbitrary: ys)
  case (Cons x xs)
  then obtain y ys' where ys: "ys = y # ys'" by (cases ys) auto
  have "x = y"
  proof (rule ccontr)
    assume "x \<noteq> y"
    moreover have "set (x # xs) = set (y # ys')" using Cons.prems(3) unfolding ys by (rule mset_eq_setD)
    ultimately have "x \<in> set ys'" "y \<in> set xs" by auto
    then show False using Cons.prems(1,2) request_lt_asym by (auto simp: ys)
  qed
  then show ?case using Cons by (auto simp: ys)
qed simp

lemma sorted_strict:
  assumes "sorted_wrt (\<lambda>a b. \<not> request_lt b a) xs" "distinct (map obj_id xs)"
  shows "sorted_wrt request_lt xs"
  using assms
proof (induction xs)
  case (Cons x xs)
  have "request_lt x y" if "y \<in> set xs" for y
  proof -
    have "obj_id x \<noteq> obj_id y" using Cons.prems(2) that by auto
    then show ?thesis using request_lt_total[of x y] Cons.prems(1) that by auto
  qed
  then show ?case using Cons by simp
qed simp

lemma heap_iter_eqI:
  assumes "rh.is_heap h" "sorted_wrt request_lt xs" "mset xs = mset h" "distinct (map obj_id xs)"
  shows "heap_iter h = xs"
proof (rule sorted_request_unique)
  have "mset (map obj_id (heap_iter h)) = mset (map obj_id xs)" using heap_iter_mset[OF assms(1)] assms(3) by simp
  then have "distinct (map obj_id (heap_iter h))" using assms(4) mset_eq_imp_distinct_iff by blast
  then show "sorted_wrt request_lt (heap_iter h)" using sorted_strict heap_iter_sorted[OF assms(1)] by blast
qed (use assms heap_iter_mset in auto)

lemma insort_request_mset [simp]: "mset (insort_request r xs) = add_mset r (mset xs)"
  by (induction xs) auto

lemma insort_request_set [simp]: "set (insort_request r xs) = insert r (set xs)"
  using insort_request_mset[of r xs] by (metis set_mset_add_mset_insert set_mset_mset)

lemma distinct_ids_insort: "distinct (map obj_id (insort_request r xs)) \<longleftrightarrow> not_among xs r \<and> distinct (map obj_id xs)"
proof -
  have "mset (map obj_id (insort_request r xs)) = mset (map obj_id (r # xs))" by simp
  then show ?thesis using mset_eq_imp_distinct_iff by (fastforce simp: not_among_def)
qed

lemma insort_request_sorted:
  "sorted_wrt request_lt xs \<Longrightarrow> not_among xs r \<Longrightarrow> sorted_wrt request_lt (insort_request r xs)"
proof (induction xs)
  case (Cons x xs)
  then have "obj_id x \<noteq> obj_id r" by (simp add: not_among_def)
  then have "request_lt x r" if "\<not> request_lt r x" using request_lt_total that by blast
  moreover have "request_lt r y" if "request_lt r x" "request_lt x y" for y using request_lt_trans that .
  ultimately show ?case using Cons by (auto simp: not_among_def)
qed simp

text \<open>The invariant under which a queue is the list it iterates over.\<close>

definition queue_ok :: "RequestQueue \<Rightarrow> bool" where
  "queue_ok q \<longleftrightarrow> rq_inv q \<and> distinct (map obj_id (RequestQueue_iter q))"

lemma priority_sorted: "queue_ok (PriorityRequestQueue h) \<Longrightarrow> sorted_wrt request_lt (heap_iter h)"
  using sorted_strict heap_iter_sorted by (simp add: queue_ok_def)

lemma priority_eqI:
  assumes "rh.is_heap h'" "mset h' = mset xs" "sorted_wrt request_lt xs" "distinct (map obj_id xs)"
  shows "queue_ok (PriorityRequestQueue h') \<and> heap_iter h' = xs"
  using heap_iter_eqI[OF assms(1,3) assms(2)[symmetric] assms(4)] assms by (simp add: queue_ok_def)

lemma add_request_refines:
  assumes "queue_ok q" "not_among (RequestQueue_iter q) r"
  shows "queue_ok (add_request q r) \<and> policy_of (add_request q r) = policy_of q \<and>
    RequestQueue_iter (add_request q r) = spec_insert (policy_of q) r (RequestQueue_iter q)"
proof (cases q)
  case (FCFSRequestQueue x)
  then show ?thesis using assms by (auto simp: queue_ok_def not_among_def)
next
  case (PriorityRequestQueue h)
  have h: "rh.is_heap h" using assms(1) PriorityRequestQueue by (simp add: queue_ok_def)
  have "queue_ok (PriorityRequestQueue (heappush request_lt h r)) \<and>
      heap_iter (heappush request_lt h r) = insort_request r (heap_iter h)"
    by (rule priority_eqI)
      (use assms PriorityRequestQueue h rh.heappush_heap[OF h] heap_iter_mset[OF h] priority_sorted insort_request_sorted
        in \<open>auto simp: distinct_ids_insort queue_ok_def\<close>)
  then show ?thesis using PriorityRequestQueue by simp
qed

lemma prepend_requests_refines:
  assumes "queue_ok q" "distinct (map obj_id (RequestQueue_iter rs @ RequestQueue_iter q))"
  shows "queue_ok (prepend_requests q rs) \<and> policy_of (prepend_requests q rs) = policy_of q \<and>
    RequestQueue_iter (prepend_requests q rs) = spec_prepend (policy_of q) (RequestQueue_iter rs) (RequestQueue_iter q)"
proof (cases q)
  case (FCFSRequestQueue x)
  have "foldl (\<lambda>q r. r # q) x ys = rev ys @ x" for ys :: "Request list" and x
    by (induction ys arbitrary: x) simp_all
  moreover have "rev (RequestQueue_reversed rs) = RequestQueue_iter rs" by (cases rs) simp_all
  ultimately show ?thesis using FCFSRequestQueue assms by (auto simp: queue_ok_def)
next
  case (PriorityRequestQueue h)
  have "queue_ok (foldl add_request p ys) \<and> policy_of (foldl add_request p ys) = PRIORITY \<and>
      RequestQueue_iter (foldl add_request p ys) = foldl (\<lambda>xs r. insort_request r xs) (RequestQueue_iter p) ys"
    if "queue_ok p" "policy_of p = PRIORITY" "distinct (map obj_id (ys @ RequestQueue_iter p))" for ys p
    using that
  proof (induction ys arbitrary: p)
    case (Cons y ys)
    have "not_among (RequestQueue_iter p) y" using Cons.prems(3) by (auto simp: not_among_def)
    then show ?case using Cons add_request_refines[of p y] by (auto simp: distinct_ids_insort)
  qed simp
  moreover have "foldl add_request (PriorityRequestQueue h) ys = PriorityRequestQueue (foldl priority_add_request h ys)" for ys
    by (induction ys arbitrary: h) simp_all
  ultimately show ?thesis using PriorityRequestQueue assms by (metis policy_of.simps(2) prepend_requests.simps(2)
    priority_prepend_requests_def spec_prepend.simps(2))
qed

lemma not_among_simps [simp]:
  "not_among [] r" "not_among (x # xs) r \<longleftrightarrow> obj_id r \<noteq> obj_id x \<and> not_among xs r"
  by (simp_all add: not_among_def)

lemma not_among_filter: "not_among xs r \<Longrightarrow> filter (not_among [r]) xs = xs"
  by (induction xs) auto

lemma py_remove_filter:
  "distinct (map obj_id xs) \<Longrightarrow>
    py_remove xs r = (if not_among xs r then Inl ValueError else Inr (filter (not_among [r]) xs))"
proof (induction xs)
  case (Cons x xs)
  have "not_among xs r" if "obj_id x = obj_id r" using Cons.prems that by (simp add: not_among_def)
  moreover have "not_among [r] = (\<lambda>a. obj_id a \<noteq> obj_id r)" by (simp add: fun_eq_iff)
  ultimately show ?case using Cons not_among_filter[of xs r] by auto
qed simp

lemma heapify_filter_refines:
  assumes "queue_ok (PriorityRequestQueue h)"
  shows "queue_ok (PriorityRequestQueue (heapify request_lt (filter P h))) \<and>
    heap_iter (heapify request_lt (filter P h)) = filter P (heap_iter h)"
proof (rule priority_eqI)
  have "rh.is_heap h" using assms by (simp add: queue_ok_def)
  then show "mset (heapify request_lt (filter P h)) = mset (filter P (heap_iter h))"
    using heap_iter_mset[of h] rh.heapify_heap by simp
qed (use assms priority_sorted rh.heapify_heap in \<open>auto simp: queue_ok_def sorted_wrt_filter distinct_map_filter\<close>)

lemma remove_requests_refines:
  assumes "queue_ok q"
  shows "queue_ok (remove_requests q rs) \<and> policy_of (remove_requests q rs) = policy_of q \<and>
    RequestQueue_iter (remove_requests q rs) = filter (not_among rs) (RequestQueue_iter q)"
  using assms heapify_filter_refines by (cases q) (auto simp: queue_ok_def distinct_map_filter)

lemma remove_request_refines:
  assumes "queue_ok q"
  shows "if not_among (RequestQueue_iter q) r then remove_request q r = Inl ValueError
    else \<exists>q'. remove_request q r = Inr q' \<and> queue_ok q' \<and> policy_of q' = policy_of q \<and>
      RequestQueue_iter q' = filter (not_among [r]) (RequestQueue_iter q)"
proof (cases q)
  case (FCFSRequestQueue xs)
  then show ?thesis using assms py_remove_filter[of xs r] by (auto simp: queue_ok_def distinct_map_filter)
next
  case (PriorityRequestQueue h)
  have h: "rh.is_heap h" "distinct (map obj_id (heap_iter h))"
    using assms PriorityRequestQueue by (simp_all add: queue_ok_def)
  have "mset (map obj_id (heap_iter h)) = mset (map obj_id h)" using heap_iter_mset[OF h(1)] by simp
  then have "distinct (map obj_id h)" using h(2) mset_eq_imp_distinct_iff by blast
  moreover have "not_among (heap_iter h) r = not_among h r" by (simp add: not_among_def heap_iter_set[OF h(1)])
  ultimately show ?thesis
    using py_remove_filter[of h r] heapify_filter_refines[of h "not_among [r]"] assms PriorityRequestQueue by auto
qed

lemma queue_step_refines:
  assumes ok: "queue_ok q" and fresh: "op_fresh (RequestQueue_iter q) x"
  shows "case queue_step q x of Inl e \<Rightarrow> spec_step (policy_of q) (RequestQueue_iter q) x = Inl e
    | Inr (out, q') \<Rightarrow> queue_ok q' \<and> policy_of q' = policy_of q \<and>
        spec_step (policy_of q) (RequestQueue_iter q) x = Inr (out, RequestQueue_iter q')"
proof (cases x)
  case (AddRequest r)
  then show ?thesis using add_request_refines[OF ok] fresh by simp
next
  case PopRequest
  have inv: "rq_inv q" using ok by (simp add: queue_ok_def)
  have pol: "policy_of q' = policy_of q" if "pop_request q = Inr (r, q')" for r q'
    using that by (cases q) (auto split: list.splits if_splits prod.splits)
  show ?thesis
  proof (cases "RequestQueue_iter q")
    case Nil
    then show ?thesis using PopRequest rq_pop(1)[OF inv] by simp
  next
    case (Cons r rs)
    then obtain q' where "pop_request q = Inr (r, q')" "rq_inv q'" "RequestQueue_iter q' = rs"
      using rq_pop(2)[OF inv Cons] by blast
    then show ?thesis using PopRequest Cons ok pol by (auto simp: queue_ok_def)
  qed
next
  case (PrependRequest r)
  then show ?thesis
  proof (cases q)
    case (FCFSRequestQueue xs)
    then show ?thesis using PrependRequest ok fresh by (auto simp: queue_ok_def not_among_def)
  next
    case (PriorityRequestQueue h)
    then show ?thesis using PrependRequest add_request_refines[OF ok, of r] fresh by simp
  qed
next
  case (PrependRequests rs)
  then show ?thesis using prepend_requests_refines[OF ok, of rs] fresh by simp
next
  case (RemoveRequest r)
  then show ?thesis using remove_request_refines[OF ok, of r] by (auto split: if_splits)
next
  case (RemoveRequests rs)
  then show ?thesis using remove_requests_refines[OF ok, of rs] by simp
qed

lemma not_request_lt:
  "\<not> request_lt s r \<Longrightarrow> priority r < priority s \<or> priority r = priority s \<and> arrival_time r \<le> arrival_time s"
  by (simp add: request_lt_def split: if_splits)

section \<open>Properties\<close>

text \<open>
  C9: Both request queues behave as the ordered list of their requests. Started on any queue in which
  every request object occurs once, any sequence of additions of absent requests, pops, prepends
  (single or of a whole queue) and removals raises the same exception as the reference list of the
  queue's policy or returns the same requests in the same order, and leaves a queue that iterates
  over exactly the reference's final list: insertion order with prepending at the front for
  \<open>FCFSRequestQueue\<close>, the order of \<open>Request.__lt__\<close> for the heap of \<open>PriorityRequestQueue\<close>.
\<close>
theorem request_queue_refines:
  assumes "queue_ok q" "run_fresh (policy_of q) (RequestQueue_iter q) ops"
  shows "case queue_run q ops of Inl e \<Rightarrow> spec_run (policy_of q) (RequestQueue_iter q) ops = Inl e
    | Inr (outs, q') \<Rightarrow> queue_ok q' \<and> spec_run (policy_of q) (RequestQueue_iter q) ops = Inr (outs, RequestQueue_iter q')"
  using assms
proof (induction ops arbitrary: q)
  case (Cons x ops)
  have f: "op_fresh (RequestQueue_iter q) x" using Cons.prems(2) by simp
  note st = queue_step_refines[OF Cons.prems(1) f]
  show ?case
  proof (cases "queue_step q x")
    case (Inl e)
    then show ?thesis using st by simp
  next
    case (Inr oq)
    obtain out q' where oq: "oq = (out, q')" by (cases oq)
    then have "queue_ok q'" "policy_of q' = policy_of q" "run_fresh (policy_of q') (RequestQueue_iter q') ops"
      "spec_step (policy_of q) (RequestQueue_iter q) x = Inr (out, RequestQueue_iter q')"
      using st Inr Cons.prems(2) by auto
    then show ?thesis using Cons.IH[of q'] Inr oq by (cases "queue_run q' ops") auto
  qed
qed simp

text \<open>Two requests of different priority for the witnesses.\<close>

definition req_low :: Request where
  "req_low = sample_request ''low'' [1] []\<lparr>obj_id := 1, priority := 5\<rparr>"

definition req_high :: Request where
  "req_high = sample_request ''high'' [2] []\<lparr>obj_id := 2, priority := 1\<rparr>"

lemma req_samples [simp]:
  "obj_id req_low = 1" "obj_id req_high = 2" "priority req_low = 5" "priority req_high = 1"
  "request_lt req_high req_low" "\<not> request_lt req_low req_high"
  by (simp_all add: req_low_def req_high_def request_lt_def)

lemma heap_two: "heappush request_lt (heappush request_lt [] req_low) req_high = [req_high, req_low]"
  by (simp add: heappush_def siftdown_def siftdown_loop.simps par_def)

theorem request_queue_refines_witness:
  "queue_ok (create_request_queue PRIORITY) \<and>
   queue_run (create_request_queue PRIORITY) [AddRequest req_low, AddRequest req_high, PopRequest] =
     Inr ([req_high], PriorityRequestQueue [req_low]) \<and>
   spec_run PRIORITY [] [AddRequest req_low, AddRequest req_high, PopRequest] = Inr ([req_high], [req_low])"
proof -
  have e: "queue_run (create_request_queue PRIORITY) [AddRequest req_low, AddRequest req_high, PopRequest] =
     Inr ([req_high], PriorityRequestQueue [req_low])"
    by (simp add: heap_two heappop_def siftup_def siftup_loop.simps siftdown_def siftdown_loop.simps)
  have ok: "queue_ok (create_request_queue PRIORITY)" by (simp add: queue_ok_def)
  have it: "heap_iter [req_low] = [req_low]" by (simp add: heap_iter.simps heappop_def)
  have "run_fresh PRIORITY [] [AddRequest req_low, AddRequest req_high, PopRequest]" by (simp add: not_among_def)
  then show ?thesis
    using request_queue_refines[of "create_request_queue PRIORITY" "[AddRequest req_low, AddRequest req_high, PopRequest]"]
      ok e it by simp
qed

text \<open>
  C23: What the priority queue pops is the most urgent request. On a well-formed heap the popped
  request has the smallest priority value of the queue, and among those the earliest arrival time;
  the queue that remains holds exactly the other requests and is well-formed again.
\<close>
theorem priority_pop_least:
  assumes "queue_ok (PriorityRequestQueue h)" "h \<noteq> []"
  shows "\<exists>r h'. pop_request (PriorityRequestQueue h) = Inr (r, PriorityRequestQueue h') \<and>
    queue_ok (PriorityRequestQueue h') \<and> mset h = add_mset r (mset h') \<and>
    (\<forall>s \<in> set h. priority r < priority s \<or> priority r = priority s \<and> arrival_time r \<le> arrival_time s)"
proof -
  have h: "rh.is_heap h" using assms(1) by (simp add: queue_ok_def)
  then obtain h' where h': "heappop request_lt h = (h ! 0, h')" "rh.is_heap h'"
    "mset h = add_mset (h ! 0) (mset h')" "heap_iter h = h ! 0 # heap_iter h'"
    using assms(2) by (rule heap_iter_unfold)
  have "priority (h ! 0) < priority s \<or> priority (h ! 0) = priority s \<and> arrival_time (h ! 0) \<le> arrival_time s"
    if s: "s \<in> set h" for s
  proof -
    obtain i where i: "i < length h" "s = h ! i" using s unfolding in_set_conv_nth by blast
    have "\<not> request_lt s (h ! 0)" unfolding i(2) by (rule rh.heap_root_least[OF h i(1)])
    then show ?thesis by (rule not_request_lt)
  qed
  moreover have "queue_ok (PriorityRequestQueue h')"
    using assms(1) h'(2) unfolding queue_ok_def RequestQueue_iter.simps h'(4) by simp
  moreover have "pop_request (PriorityRequestQueue h) = Inr (h ! 0, PriorityRequestQueue h')"
    using assms(2) h'(1) by simp
  ultimately show ?thesis using h'(3) by blast
qed

theorem priority_pop_least_witness:
  "queue_ok (PriorityRequestQueue [req_high, req_low]) \<and>
   (\<exists>r h'. pop_request (PriorityRequestQueue [req_high, req_low]) = Inr (r, PriorityRequestQueue h') \<and>
     mset [req_high, req_low] = add_mset r (mset h') \<and> priority r \<le> 1)"
proof -
  have hp: "rh.is_heap [req_high, req_low]"
    using rh.heappush_heap(1)[OF rh.heappush_heap(1)[OF rh.is_heap_Nil], of req_low req_high] by (simp add: heap_two)
  then have "mset (map obj_id (heap_iter [req_high, req_low])) = mset [2, 1 :: int]" by (simp add: heap_iter_mset)
  then have "distinct (map obj_id (heap_iter [req_high, req_low]))" using mset_eq_imp_distinct_iff by fastforce
  then have ok: "queue_ok (PriorityRequestQueue [req_high, req_low])" using hp by (simp add: queue_ok_def)
  from priority_pop_least[OF ok] obtain r h' where r: "pop_request (PriorityRequestQueue [req_high, req_low]) = Inr (r, PriorityRequestQueue h')"
    "mset [req_high, req_low] = add_mset r (mset h')" "priority r < priority req_high \<or> priority r = priority req_high"
    by auto
  then have "priority r \<le> 1" by auto
  then show ?thesis using ok r(1,2) by blast
qed

end
