(* ===== verification/Encoder_Cache.thy ===== *)
theory Encoder_Cache
  imports Requests
begin

text \<open>
  The cache of multimodal encoder outputs (\<open>vllm/v1/core/encoder_cache_manager.py\<close>): reference sets per
  content hash, the insertion-ordered dictionary of unreferenced entries, eviction at allocation time
  and the two budgets. Slots are counted in encoder tokens.
\<close>

section \<open>State and operations\<close>

record EncoderCacheManager =
  cache_size :: int
  num_free_slots :: int
  num_freeable_slots :: int
  cached :: "string \<Rightarrow> string set option"
  freeable :: "(string \<times> int) list"
  freed :: "string list"

definition EncoderCacheManager_init :: "int \<Rightarrow> EncoderCacheManager" where
  "EncoderCacheManager_init n =
     \<lparr>cache_size = n, num_free_slots = n, num_freeable_slots = n,
      cached = (\<lambda>_. None), freeable = [], freed = []\<rparr>"

definition mm_hash_of :: "Request \<Rightarrow> nat \<Rightarrow> string result" where
  "mm_hash_of request input_id =
     (if input_id < length (mm_features request) then Inr (mm_identifier (mm_features request ! input_id))
      else Inl IndexError)"

text \<open>\<open>OrderedDict.pop(key)\<close> and assignment to a key, on the list of items in insertion order.\<close>

fun od_pop :: "string \<Rightarrow> (string \<times> int) list \<Rightarrow> (int \<times> (string \<times> int) list) result" where
  "od_pop k [] = Inl KeyError"
| "od_pop k ((k', v) # d) =
     (if k' = k then Inr (v, d) else res_bind (od_pop k d) (\<lambda>(w, d'). Inr (w, (k', v) # d')))"

fun od_set :: "string \<Rightarrow> int \<Rightarrow> (string \<times> int) list \<Rightarrow> (string \<times> int) list" where
  "od_set k v [] = [(k, v)]"
| "od_set k v ((k', v') # d) = (if k' = k then (k, v) # d else (k', v') # od_set k v d)"

definition check_and_update_cache :: "EncoderCacheManager \<Rightarrow> Request \<Rightarrow> nat \<Rightarrow> (bool \<times> EncoderCacheManager) result" where
  "check_and_update_cache c request input_id =
     res_bind (mm_hash_of request input_id) (\<lambda>mm_hash.
       case cached c mm_hash of
         None \<Rightarrow> Inr (False, c)
       | Some ids \<Rightarrow>
           res_bind (if ids = {}
                     then res_bind (od_pop mm_hash (freeable c)) (\<lambda>(n_tokens, d).
                       Inr (c\<lparr>freeable := d, num_freeable_slots := num_freeable_slots c - n_tokens\<rparr>))
                     else Inr c) (\<lambda>c.
             Inr (True, c\<lparr>cached := (cached c)(mm_hash \<mapsto> insert (request_id request) ids)\<rparr>)))"

function evict_loop :: "int \<Rightarrow> EncoderCacheManager \<Rightarrow> EncoderCacheManager result" where
  "evict_loop n_tokens c =
     (if n_tokens > num_free_slots c
      then (case freeable c of
              [] \<Rightarrow> Inl KeyError
            | (mm_hash, num_free_token) # d \<Rightarrow>
                if cached c mm_hash = None then Inl KeyError
                else evict_loop n_tokens
                  (c\<lparr>freeable := d, cached := (cached c)(mm_hash := None), freed := freed c @ [mm_hash],
                     num_free_slots := num_free_slots c + num_free_token\<rparr>))
      else Inr c)"
  by pat_completeness auto
termination
  by (relation "measure (\<lambda>(n_tokens, c). length (freeable c))") auto

declare evict_loop.simps [simp del]

definition can_allocate :: "EncoderCacheManager \<Rightarrow> Request \<Rightarrow> nat \<Rightarrow> int \<Rightarrow> int \<Rightarrow> (bool \<times> EncoderCacheManager) result" where
  "can_allocate c request input_id encoder_compute_budget num_tokens_to_schedule =
     res_bind (get_num_encoder_tokens request input_id) (\<lambda>n_tokens.
       if n_tokens > encoder_compute_budget then Inr (False, c)
       else let n_tokens = n_tokens + num_tokens_to_schedule
         in if n_tokens \<le> num_free_slots c then Inr (True, c)
            else if n_tokens > num_freeable_slots c then Inr (False, c)
            else res_bind (evict_loop n_tokens c) (\<lambda>c'. Inr (True, c')))"

definition allocate :: "EncoderCacheManager \<Rightarrow> Request \<Rightarrow> nat \<Rightarrow> EncoderCacheManager result" where
  "allocate c request input_id =
     res_bind (mm_hash_of request input_id) (\<lambda>mm_hash.
     res_bind (get_num_encoder_tokens request input_id) (\<lambda>num_encoder_tokens.
     res_bind (py_assert (num_free_slots c \<ge> num_encoder_tokens)) (\<lambda>_.
     res_bind (py_assert (num_freeable_slots c \<ge> num_encoder_tokens)) (\<lambda>_.
       let ids = (case cached c mm_hash of None \<Rightarrow> {} | Some ids \<Rightarrow> ids)
       in Inr (c\<lparr>cached := (cached c)(mm_hash \<mapsto> insert (request_id request) ids),
                 num_free_slots := num_free_slots c - num_encoder_tokens,
                 num_freeable_slots := num_freeable_slots c - num_encoder_tokens\<rparr>)))))"

definition get_cached_input_ids :: "EncoderCacheManager \<Rightarrow> Request \<Rightarrow> nat set" where
  "get_cached_input_ids c request =
     set (filter (\<lambda>i. cached c (mm_identifier (mm_features request ! i)) \<noteq> None) [0..<length (mm_features request)])"

definition free_encoder_input :: "EncoderCacheManager \<Rightarrow> Request \<Rightarrow> nat \<Rightarrow> EncoderCacheManager result" where
  "free_encoder_input c request input_id =
     res_bind (mm_hash_of request input_id) (\<lambda>mm_hash.
       case cached c mm_hash of
         None \<Rightarrow> Inr c
       | Some ids \<Rightarrow>
           if ids = {} then Inr c
           else let ids' = ids - {request_id request}; c = c\<lparr>cached := (cached c)(mm_hash \<mapsto> ids')\<rparr>
             in if ids' = {}
                then res_bind (get_num_encoder_tokens request input_id) (\<lambda>n_tokens.
                  Inr (c\<lparr>freeable := od_set mm_hash n_tokens (freeable c),
                         num_freeable_slots := num_freeable_slots c + n_tokens\<rparr>))
                else Inr c)"

text \<open>
  Python does not fix the order in which a set is iterated; it is the parameter \<open>set_order\<close>, of which the
  code relies on every element being visited once.
\<close>

definition set_iteration :: "(nat set \<Rightarrow> nat list) \<Rightarrow> bool" where
  "set_iteration set_order \<longleftrightarrow> (\<forall>S. finite S \<longrightarrow> set (set_order S) = S \<and> distinct (set_order S))"

definition free_encoder :: "(nat set \<Rightarrow> nat list) \<Rightarrow> EncoderCacheManager \<Rightarrow> Request \<Rightarrow> EncoderCacheManager result" where
  "free_encoder set_order c request =
     res_fold (\<lambda>c i. free_encoder_input c request i) c (set_order (get_cached_input_ids c request))"

definition get_freed_mm_hashes :: "EncoderCacheManager \<Rightarrow> string list \<times> EncoderCacheManager" where
  "get_freed_mm_hashes c = (freed c, c\<lparr>freed := []\<rparr>)"

section \<open>Budgets\<close>

record SchedulerBudgetConfig =
  disable_chunked_mm_input :: bool
  max_num_batched_tokens_b :: int
  max_num_encoder_input_tokens :: int
  encoder_cache_size :: int

definition compute_text_encoder_budget :: "int \<times> int" where
  "compute_text_encoder_budget = (0, 0)"

definition compute_mm_encoder_budget :: "SchedulerBudgetConfig \<Rightarrow> (string \<times> int) list \<Rightarrow> (int \<times> int) result" where
  "compute_mm_encoder_budget cfg max_tokens_by_modality =
     (if max_tokens_by_modality = [] then Inr (0, 0)
      else let max_tokens_per_mm_item = Max (set (map snd max_tokens_by_modality))
        in if disable_chunked_mm_input cfg \<and> max_tokens_per_mm_item > max_num_batched_tokens_b cfg
           then Inl ValueError
           else Inr (max (max_num_encoder_input_tokens cfg) max_tokens_per_mm_item,
                     max (encoder_cache_size cfg) max_tokens_per_mm_item))"

text \<open>The multimodal registry is not part of the engine core: its two answers are arguments.\<close>

definition compute_encoder_budget :: "bool \<Rightarrow> (string \<times> int) list \<Rightarrow> SchedulerBudgetConfig \<Rightarrow> (int \<times> int) result" where
  "compute_encoder_budget supports_multimodal_inputs max_tokens_per_item_by_modality cfg =
     (if supports_multimodal_inputs then compute_mm_encoder_budget cfg max_tokens_per_item_by_modality
      else Inr compute_text_encoder_budget)"

section \<open>Invariant\<close>

text \<open>
  \<open>tok h\<close> is the number of encoder tokens of the content with hash \<open>h\<close>; a request whose features agree with
  it is \<open>sized\<close>. The invariant: the freeable entries are the unreferenced cached ones, each once and with
  its size; the free slots and the sizes of all cached entries add up to the cache size; the freeable
  slots are the free ones plus the sizes of the freeable entries.
\<close>

definition sized :: "(string \<Rightarrow> int) \<Rightarrow> Request \<Rightarrow> bool" where
  "sized tok r \<longleftrightarrow> (\<forall>f \<in> set (mm_features r). length_p (mm_position f) = tok (mm_identifier f) \<and> 0 \<le> tok (mm_identifier f))"

definition ec_inv :: "(string \<Rightarrow> int) \<Rightarrow> EncoderCacheManager \<Rightarrow> bool" where
  "ec_inv tok c \<longleftrightarrow>
     finite (dom (cached c)) \<and> distinct (map fst (freeable c)) \<and>
     fst ` set (freeable c) = {h. cached c h = Some {}} \<and> (\<forall>(h, n) \<in> set (freeable c). n = tok h) \<and>
     num_freeable_slots c = num_free_slots c + sum_list (map snd (freeable c)) \<and>
     num_free_slots c + sum tok (dom (cached c)) = cache_size c \<and>
     0 \<le> num_free_slots c \<and> (\<forall>h \<in> dom (cached c). 0 \<le> tok h)"

lemma ec_invD:
  assumes "ec_inv tok c"
  shows "finite (dom (cached c))" "distinct (map fst (freeable c))"
    "h \<in> fst ` set (freeable c) \<longleftrightarrow> cached c h = Some {}" "(h, n) \<in> set (freeable c) \<Longrightarrow> n = tok h"
    "num_freeable_slots c = num_free_slots c + sum_list (map snd (freeable c))"
    "num_free_slots c + sum tok (dom (cached c)) = cache_size c" "0 \<le> num_free_slots c"
    "h \<in> dom (cached c) \<Longrightarrow> 0 \<le> tok h"
  using assms by (auto simp: ec_inv_def)

lemma freeable_sum_nonneg:
  assumes "ec_inv tok c" shows "0 \<le> sum_list (map snd (freeable c))"
proof (rule sum_list_nonneg)
  fix x assume "x \<in> set (map snd (freeable c))"
  then obtain h where h: "(h, x) \<in> set (freeable c)" by auto
  then have "cached c h = Some {}" using ec_invD(3)[OF assms, of h] by force
  then have "0 \<le> tok h" using ec_invD(8)[OF assms, of h] by blast
  then show "0 \<le> x" using ec_invD(4)[OF assms h] by simp
qed

lemma slots_bounds:
  assumes "ec_inv tok c"
  shows "num_free_slots c \<le> num_freeable_slots c" "num_freeable_slots c \<le> cache_size c" "num_free_slots c \<le> cache_size c"
proof -
  show le: "num_free_slots c \<le> num_freeable_slots c" using ec_invD(5) freeable_sum_nonneg assms by fastforce
  have "map snd (freeable c) = map tok (map fst (freeable c))"
    using ec_invD(4)[OF assms] by (auto simp: split_beta)
  then have "sum_list (map snd (freeable c)) = sum_list (map tok (map fst (freeable c)))" by (rule arg_cong)
  also have "\<dots> = sum tok (set (map fst (freeable c)))"
    by (rule sum_list_distinct_conv_sum_set[OF ec_invD(2)[OF assms]])
  also have "\<dots> \<le> sum tok (dom (cached c))"
    using ec_invD(1,3,8)[OF assms] by (intro sum_mono2) auto
  finally show "num_freeable_slots c \<le> cache_size c" using ec_invD(5,6)[OF assms] by simp
  then show "num_free_slots c \<le> cache_size c" using le by simp
qed

lemma od_pop_spec:
  "distinct (map fst d) \<Longrightarrow> k \<in> fst ` set d \<Longrightarrow>
    \<exists>v d1 d2. d = d1 @ (k, v) # d2 \<and> od_pop k d = Inr (v, d1 @ d2)"
proof (induction d)
  case (Cons x d)
  obtain k' v where x: "x = (k', v)" by (cases x)
  show ?case
  proof (cases "k' = k")
    case True
    then show ?thesis using x by (intro exI[of _ v] exI[of _ "[]"] exI[of _ d]) simp
  next
    case False
    then obtain w d1 d2 where "d = d1 @ (k, w) # d2" "od_pop k d = Inr (w, d1 @ d2)" using Cons x by auto
    then show ?thesis using False x by (intro exI[of _ w] exI[of _ "(k', v) # d1"] exI[of _ d2]) simp
  qed
qed simp

lemma od_set_new: "k \<notin> fst ` set d \<Longrightarrow> od_set k v d = d @ [(k, v)]"
  by (induction d) auto

lemma mm_hash_of_Inr [simp]:
  "i < length (mm_features r) \<Longrightarrow> mm_hash_of r i = Inr (mm_identifier (mm_features r ! i))"
  by (simp add: mm_hash_of_def)

lemma sized_tokens:
  "sized tok r \<Longrightarrow> i < length (mm_features r) \<Longrightarrow>
    get_num_encoder_tokens r i = Inr (tok (mm_identifier (mm_features r ! i))) \<and> 0 \<le> tok (mm_identifier (mm_features r ! i))"
  by (simp add: sized_def get_num_encoder_tokens_def)

lemma ec_init_inv: "0 \<le> n \<Longrightarrow> ec_inv tok (EncoderCacheManager_init n)"
  by (simp add: ec_inv_def EncoderCacheManager_init_def)

section \<open>The operations\<close>

lemma evict_one_inv:
  assumes inv: "ec_inv tok c" and f: "freeable c = (h, n) # d"
  shows "cached c h = Some {}" "ec_inv tok (c\<lparr>freeable := d, cached := (cached c)(h := None), freed := freed c @ [h],
      num_free_slots := num_free_slots c + n\<rparr>)"
proof -
  show ch: "cached c h = Some {}" using ec_invD(3)[OF inv, of h] f by simp
  have n: "n = tok h" "0 \<le> tok h" using ec_invD(4)[OF inv, of h n] ec_invD(8)[OF inv, of h] ch f by auto
  have "sum tok (dom (cached c) - {h}) = sum tok (dom (cached c)) - tok h"
    using ec_invD(1)[OF inv] ch by (auto simp: sum_diff1)
  moreover have "h \<notin> fst ` set d" using ec_invD(2)[OF inv] f by simp
  moreover have "k \<in> fst ` set d \<longleftrightarrow> k \<noteq> h \<and> cached c k = Some {}" for k
    using ec_invD(3)[OF inv, of k] ch f \<open>h \<notin> fst ` set d\<close> by auto
  ultimately show "ec_inv tok (c\<lparr>freeable := d, cached := (cached c)(h := None), freed := freed c @ [h],
      num_free_slots := num_free_slots c + n\<rparr>)"
    using inv n by (auto simp: ec_inv_def f)
qed

text \<open>Eviction takes the shortest sufficient prefix of the freeable entries, oldest first.\<close>

definition after_eviction :: "(string \<times> int) list \<Rightarrow> (string \<times> int) list \<Rightarrow> EncoderCacheManager \<Rightarrow> EncoderCacheManager" where
  "after_eviction ev rest c =
     c\<lparr>freeable := rest, cached := (\<lambda>h. if h \<in> fst ` set ev then None else cached c h), freed := freed c @ map fst ev,
       num_free_slots := num_free_slots c + sum_list (map snd ev)\<rparr>"

lemma evict_loop_spec:
  assumes "ec_inv tok c" "n \<le> num_freeable_slots c"
  shows "\<exists>ev rest. freeable c = ev @ rest \<and> evict_loop n c = Inr (after_eviction ev rest c) \<and>
    ec_inv tok (after_eviction ev rest c) \<and> n \<le> num_free_slots (after_eviction ev rest c) \<and>
    (ev \<noteq> [] \<longrightarrow> num_free_slots c + sum_list (map snd (butlast ev)) < n)"
  using assms
proof (induction "length (freeable c)" arbitrary: c)
  case 0
  then have f: "freeable c = []" and le: "n \<le> num_free_slots c" using ec_invD(5)[OF 0(2)] by auto
  have "after_eviction [] [] c = c" using f by (simp add: after_eviction_def)
  then show ?case using 0 f le by (intro exI[of _ "[]"]) (simp add: evict_loop.simps)
next
  case (Suc k)
  show ?case
  proof (cases "n \<le> num_free_slots c")
    case True
    have "after_eviction [] (freeable c) c = c" by (simp add: after_eviction_def)
    then show ?thesis using Suc.prems True
      by (intro exI[of _ "[]"] exI[of _ "freeable c"]) (simp add: evict_loop.simps)
  next
    case False
    obtain h m d where f: "freeable c = (h, m) # d" using Suc.hyps(2) by (cases "freeable c") auto
    define c1 where "c1 = c\<lparr>freeable := d, cached := (cached c)(h := None), freed := freed c @ [h],
      num_free_slots := num_free_slots c + m\<rparr>"
    note one = evict_one_inv[OF Suc.prems(1) f, folded c1_def]
    have len: "k = length (freeable c1)" using Suc.hyps(2) f by (simp add: c1_def)
    have le: "n \<le> num_freeable_slots c1" using Suc.prems(2) by (simp add: c1_def)
    from Suc.hyps(1)[OF len one(2) le] obtain ev rest where
      r: "freeable c1 = ev @ rest" "evict_loop n c1 = Inr (after_eviction ev rest c1)" "ec_inv tok (after_eviction ev rest c1)"
        "n \<le> num_free_slots (after_eviction ev rest c1)" "ev \<noteq> [] \<longrightarrow> num_free_slots c1 + sum_list (map snd (butlast ev)) < n"
      by blast
    have e: "after_eviction ev rest c1 = after_eviction ((h, m) # ev) rest c"
      by (rule EncoderCacheManager.equality) (auto simp: after_eviction_def c1_def fun_eq_iff)
    have "evict_loop n c = evict_loop n c1" using False one(1) by (subst evict_loop.simps) (simp add: f c1_def)
    moreover have "num_free_slots c + sum_list (map snd (butlast ((h, m) # ev))) < n"
      using r(5) False by (cases ev) (auto simp: c1_def)
    ultimately show ?thesis using r unfolding e
      by (intro exI[of _ "(h, m) # ev"] exI[of _ rest]) (simp add: f c1_def)
  qed
qed

lemma can_allocate_spec:
  assumes inv: "ec_inv tok c" and r: "sized tok r" "i < length (mm_features r)"
  defines "t \<equiv> tok (mm_identifier (mm_features r ! i))"
  shows "\<exists>ev rest. freeable c = ev @ rest \<and>
    can_allocate c r i budget sched = Inr (t \<le> budget \<and> t + sched \<le> num_freeable_slots c, after_eviction ev rest c) \<and>
    ec_inv tok (after_eviction ev rest c) \<and>
    (t \<le> budget \<and> t + sched \<le> num_freeable_slots c \<longrightarrow> t + sched \<le> num_free_slots (after_eviction ev rest c)) \<and>
    (ev \<noteq> [] \<longrightarrow> num_free_slots c + sum_list (map snd (butlast ev)) < t + sched)"
proof -
  have tk: "get_num_encoder_tokens r i = Inr t" using sized_tokens[OF r] by (simp add: t_def)
  have id: "after_eviction [] (freeable c) c = c" by (simp add: after_eviction_def)
  show ?thesis
  proof (cases "t \<le> budget \<and> num_free_slots c < t + sched \<and> t + sched \<le> num_freeable_slots c")
    case True
    from evict_loop_spec[OF inv, of "t + sched"] True obtain ev rest where
      "freeable c = ev @ rest" "evict_loop (t + sched) c = Inr (after_eviction ev rest c)"
      "ec_inv tok (after_eviction ev rest c)" "t + sched \<le> num_free_slots (after_eviction ev rest c)"
      "ev \<noteq> [] \<longrightarrow> num_free_slots c + sum_list (map snd (butlast ev)) < t + sched"
      by blast
    then show ?thesis using True tk by (intro exI[of _ ev] exI[of _ rest]) (simp add: can_allocate_def)
  next
    case False
    then have "can_allocate c r i budget sched = Inr (t \<le> budget \<and> t + sched \<le> num_freeable_slots c, c)"
      using tk slots_bounds(1)[OF inv] by (auto simp: can_allocate_def Let_def)
    then show ?thesis using False id inv by (intro exI[of _ "[]"] exI[of _ "freeable c"]) auto
  qed
qed

text \<open>Every operation but eviction changes the reference set of one hash.\<close>

lemma ec_inv_refs:
  assumes inv: "ec_inv tok c" and h: "cached c h = Some ids" and ne: "ids \<noteq> {}" "ids' \<noteq> {}"
  shows "ec_inv tok (c\<lparr>cached := (cached c)(h \<mapsto> ids')\<rparr>)"
proof -
  have "dom ((cached c)(h \<mapsto> ids')) = dom (cached c)" using h by auto
  moreover have "((cached c)(h \<mapsto> ids')) k = Some {} \<longleftrightarrow> cached c k = Some {}" for k using h ne by auto
  ultimately show ?thesis using inv by (simp add: ec_inv_def)
qed

lemma ec_inv_take:
  assumes inv: "ec_inv tok c" and h: "cached c h = Some {}" and ne: "ids' \<noteq> {}"
  shows "\<exists>d. od_pop h (freeable c) = Inr (tok h, d) \<and>
    ec_inv tok (c\<lparr>freeable := d, num_freeable_slots := num_freeable_slots c - tok h, cached := (cached c)(h \<mapsto> ids')\<rparr>)"
proof -
  have "h \<in> fst ` set (freeable c)" using ec_invD(3)[OF inv] h by simp
  from od_pop_spec[OF ec_invD(2)[OF inv] this] obtain v d1 d2 where
    d: "freeable c = d1 @ (h, v) # d2" "od_pop h (freeable c) = Inr (v, d1 @ d2)" by blast
  have v: "v = tok h" using ec_invD(4)[OF inv, of h v] d by simp
  have nd: "h \<notin> fst ` set (d1 @ d2)" using ec_invD(2)[OF inv] d by auto
  have "k \<in> fst ` set (d1 @ d2) \<longleftrightarrow> ((cached c)(h \<mapsto> ids')) k = Some {}" for k
    using ec_invD(3)[OF inv, of k] nd ne by (cases "k = h") (auto simp: d)
  moreover have "dom ((cached c)(h \<mapsto> ids')) = dom (cached c)" using h by auto
  ultimately have "ec_inv tok (c\<lparr>freeable := d1 @ d2, num_freeable_slots := num_freeable_slots c - tok h,
      cached := (cached c)(h \<mapsto> ids')\<rparr>)"
    using inv v by (auto simp: ec_inv_def d)
  then show ?thesis using d(2) v by blast
qed

lemma ec_inv_release:
  assumes inv: "ec_inv tok c" and h: "cached c h = Some ids" "ids \<noteq> {}"
  shows "ec_inv tok (c\<lparr>cached := (cached c)(h \<mapsto> {}), freeable := od_set h (tok h) (freeable c),
    num_freeable_slots := num_freeable_slots c + tok h\<rparr>)"
proof -
  have nh: "h \<notin> fst ` set (freeable c)" using ec_invD(3)[OF inv] h by simp
  have "k \<in> fst ` set (freeable c @ [(h, tok h)]) \<longleftrightarrow> ((cached c)(h \<mapsto> {})) k = Some {}" for k
    using ec_invD(3)[OF inv, of k] by (cases "k = h") auto
  moreover have "dom ((cached c)(h \<mapsto> {})) = dom (cached c)" using h by auto
  ultimately show ?thesis using inv nh by (auto simp: ec_inv_def od_set_new[OF nh])
qed

lemma check_and_update_cache_spec:
  assumes inv: "ec_inv tok c" and r: "sized tok r" "i < length (mm_features r)"
  defines "h \<equiv> mm_identifier (mm_features r ! i)"
  shows "\<exists>c'. check_and_update_cache c r i = Inr (cached c h \<noteq> None, c') \<and> ec_inv tok c' \<and>
    cached c' = (\<lambda>k. if k = h then map_option (insert (request_id r)) (cached c h) else cached c k) \<and>
    num_free_slots c' = num_free_slots c \<and> cache_size c' = cache_size c \<and> freed c' = freed c"
proof (cases "cached c h")
  case None
  then have "check_and_update_cache c r i = Inr (False, c)" using r by (simp add: check_and_update_cache_def h_def)
  then show ?thesis using None inv by (auto simp: fun_eq_iff)
next
  case (Some ids)
  show ?thesis
  proof (cases "ids = {}")
    case True
    from ec_inv_take[OF inv Some[unfolded True], of "{request_id r}"] obtain d where
      d: "od_pop h (freeable c) = Inr (tok h, d)"
        "ec_inv tok (c\<lparr>freeable := d, num_freeable_slots := num_freeable_slots c - tok h, cached := (cached c)(h \<mapsto> {request_id r})\<rparr>)"
      by auto
    have "check_and_update_cache c r i = Inr (True, c\<lparr>freeable := d, num_freeable_slots := num_freeable_slots c - tok h,
        cached := (cached c)(h \<mapsto> {request_id r})\<rparr>)"
      using r Some True d(1) by (simp add: check_and_update_cache_def h_def)
    then show ?thesis using d(2) Some True by (auto simp: fun_eq_iff)
  next
    case False
    have "check_and_update_cache c r i = Inr (True, c\<lparr>cached := (cached c)(h \<mapsto> insert (request_id r) ids)\<rparr>)"
      using r Some False by (simp add: check_and_update_cache_def h_def)
    then show ?thesis using ec_inv_refs[OF inv Some False, of "insert (request_id r) ids"] Some by (auto simp: fun_eq_iff)
  qed
qed

lemma allocate_spec:
  assumes inv: "ec_inv tok c" and r: "sized tok r" "i < length (mm_features r)"
  defines "h \<equiv> mm_identifier (mm_features r ! i)"
  assumes n: "cached c h = None" and sp: "tok h \<le> num_free_slots c"
  shows "\<exists>c'. allocate c r i = Inr c' \<and> ec_inv tok c' \<and> cached c' = (cached c)(h \<mapsto> {request_id r}) \<and>
    num_free_slots c' = num_free_slots c - tok h \<and> num_freeable_slots c' = num_freeable_slots c - tok h \<and>
    freeable c' = freeable c \<and> cache_size c' = cache_size c \<and> freed c' = freed c"
proof -
  have t: "get_num_encoder_tokens r i = Inr (tok h)" "0 \<le> tok h" using sized_tokens[OF r] by (auto simp: h_def)
  define c' where "c' = c\<lparr>cached := (cached c)(h \<mapsto> {request_id r}), num_free_slots := num_free_slots c - tok h,
    num_freeable_slots := num_freeable_slots c - tok h\<rparr>"
  have "allocate c r i = Inr c'"
    using r t n sp slots_bounds(1)[OF inv] by (simp add: allocate_def c'_def flip: h_def)
  moreover have "ec_inv tok c'"
  proof -
    have "sum tok (insert h (dom (cached c))) = tok h + sum tok (dom (cached c))"
      using n ec_invD(1)[OF inv] by (subst sum.insert) auto
    moreover have "((cached c)(h \<mapsto> {request_id r})) k = Some {} \<longleftrightarrow> cached c k = Some {}" for k using n by auto
    ultimately show ?thesis using inv t(2) sp by (simp add: ec_inv_def c'_def)
  qed
  ultimately show ?thesis by (simp add: c'_def)
qed

lemma free_encoder_input_spec:
  assumes inv: "ec_inv tok c" and r: "sized tok r" "i < length (mm_features r)"
  defines "h \<equiv> mm_identifier (mm_features r ! i)"
  shows "\<exists>c'. free_encoder_input c r i = Inr c' \<and> ec_inv tok c' \<and>
    cached c' = (\<lambda>k. if k = h then map_option (\<lambda>ids. ids - {request_id r}) (cached c h) else cached c k) \<and>
    num_free_slots c' = num_free_slots c \<and> cache_size c' = cache_size c \<and> freed c' = freed c"
proof -
  have t: "get_num_encoder_tokens r i = Inr (tok h)" using sized_tokens[OF r] by (auto simp: h_def)
  consider "cached c h = None \<or> cached c h = Some {}"
    | ids where "cached c h = Some ids" "ids \<noteq> {}" "ids - {request_id r} = {}"
    | ids where "cached c h = Some ids" "ids \<noteq> {}" "ids - {request_id r} \<noteq> {}"
    by (cases "cached c h") blast+
  then show ?thesis
  proof cases
    case 1
    then have "free_encoder_input c r i = Inr c" using r by (auto simp: free_encoder_input_def h_def)
    then show ?thesis using 1 inv by (auto simp: fun_eq_iff)
  next
    case 2
    have "free_encoder_input c r i = Inr (c\<lparr>cached := (cached c)(h \<mapsto> {}), freeable := od_set h (tok h) (freeable c),
        num_freeable_slots := num_freeable_slots c + tok h\<rparr>)"
      using r 2(1,2) t by (simp add: free_encoder_input_def Let_def 2(3) flip: h_def)
    then show ?thesis using ec_inv_release[OF inv 2(1,2)] 2 by (auto simp: fun_eq_iff)
  next
    case 3
    have "free_encoder_input c r i = Inr (c\<lparr>cached := (cached c)(h \<mapsto> ids - {request_id r})\<rparr>)"
      using r 3 by (simp add: free_encoder_input_def Let_def flip: h_def)
    then show ?thesis using ec_inv_refs[OF inv 3] 3 by (auto simp: fun_eq_iff)
  qed
qed

lemma get_cached_input_ids_iff:
  "i \<in> get_cached_input_ids c r \<longleftrightarrow> i < length (mm_features r) \<and> cached c (mm_identifier (mm_features r ! i)) \<noteq> None"
  by (auto simp: get_cached_input_ids_def)

lemma free_encoder_spec:
  assumes inv: "ec_inv tok c" and r: "sized tok r" and so: "set_iteration set_order"
  shows "\<exists>c'. free_encoder set_order c r = Inr c' \<and> ec_inv tok c' \<and>
    cached c' = (\<lambda>k. if k \<in> mm_identifier ` set (mm_features r)
                     then map_option (\<lambda>ids. ids - {request_id r}) (cached c k) else cached c k) \<and>
    num_free_slots c' = num_free_slots c \<and> cache_size c' = cache_size c \<and> freed c' = freed c"
proof -
  define S where "S = get_cached_input_ids c r"
  define hs where "hs = (\<lambda>is. (\<lambda>i. mm_identifier (mm_features r ! i)) ` set is)"
  define I where "I = (\<lambda>is c'. ec_inv tok c' \<and>
    cached c' = (\<lambda>k. if k \<in> hs is then map_option (\<lambda>ids. ids - {request_id r}) (cached c k) else cached c k) \<and>
    num_free_slots c' = num_free_slots c \<and> cache_size c' = cache_size c \<and> freed c' = freed c)"
  have "finite S" by (simp add: S_def get_cached_input_ids_def)
  then have S: "set (set_order S) = S" using so by (simp add: set_iteration_def)
  have "\<exists>c'. res_fold (\<lambda>c i. free_encoder_input c r i) c (set_order S) = Inr c' \<and> I (set_order S) c'"
  proof (rule res_fold_prefix)
    show "I [] c" using inv by (simp add: I_def hs_def)
  next
    fix ys i zs t
    assume o: "set_order S = ys @ i # zs" and t: "I ys t"
    have "i \<in> set (set_order S)" unfolding o by simp
    then have "i \<in> S" unfolding S .
    then have i: "i < length (mm_features r)" by (simp add: S_def get_cached_input_ids_iff)
    have "ec_inv tok t" using t by (simp add: I_def)
    from free_encoder_input_spec[OF this r i] show "\<exists>t'. free_encoder_input t r i = Inr t' \<and> I (ys @ [i]) t'"
      using t by (auto simp: I_def hs_def fun_eq_iff option.map_comp comp_def)
  qed
  then obtain c' where c': "free_encoder set_order c r = Inr c'" "I (set_order S) c'"
    by (auto simp: free_encoder_def S_def)
  have hsS: "k \<in> hs (set_order S) \<longleftrightarrow> k \<in> mm_identifier ` set (mm_features r) \<and> cached c k \<noteq> None" for k
  proof -
    have "k \<in> mm_identifier ` set (mm_features r) \<longleftrightarrow> (\<exists>i<length (mm_features r). k = mm_identifier (mm_features r ! i))"
      by (metis image_iff in_set_conv_nth)
    moreover have "k \<in> hs (set_order S) \<longleftrightarrow> (\<exists>i \<in> S. k = mm_identifier (mm_features r ! i))"
      unfolding hs_def S by blast
    ultimately show ?thesis unfolding S_def by (auto simp: get_cached_input_ids_iff)
  qed
  have "(\<lambda>k. if k \<in> hs (set_order S) then map_option (\<lambda>ids. ids - {request_id r}) (cached c k) else cached c k) =
    (\<lambda>k. if k \<in> mm_identifier ` set (mm_features r) then map_option (\<lambda>ids. ids - {request_id r}) (cached c k) else cached c k)"
    using hsS by (auto simp: fun_eq_iff)
  then show ?thesis using c' by (simp add: I_def)
qed

text \<open>The states the scheduler can bring the manager into; it allocates only what is not cached.\<close>

inductive ec_reachable :: "(string \<Rightarrow> int) \<Rightarrow> int \<Rightarrow> EncoderCacheManager \<Rightarrow> bool" for tok n where
  init: "ec_reachable tok n (EncoderCacheManager_init n)"
| check: "ec_reachable tok n c \<Longrightarrow> sized tok r \<Longrightarrow> i < length (mm_features r) \<Longrightarrow>
    check_and_update_cache c r i = Inr (b, c') \<Longrightarrow> ec_reachable tok n c'"
| can: "ec_reachable tok n c \<Longrightarrow> sized tok r \<Longrightarrow> i < length (mm_features r) \<Longrightarrow>
    can_allocate c r i budget sched = Inr (b, c') \<Longrightarrow> ec_reachable tok n c'"
| alloc: "ec_reachable tok n c \<Longrightarrow> sized tok r \<Longrightarrow> i < length (mm_features r) \<Longrightarrow>
    cached c (mm_identifier (mm_features r ! i)) = None \<Longrightarrow> allocate c r i = Inr c' \<Longrightarrow> ec_reachable tok n c'"
| free_input: "ec_reachable tok n c \<Longrightarrow> sized tok r \<Longrightarrow> i < length (mm_features r) \<Longrightarrow>
    free_encoder_input c r i = Inr c' \<Longrightarrow> ec_reachable tok n c'"
| free: "ec_reachable tok n c \<Longrightarrow> sized tok r \<Longrightarrow> set_iteration set_order \<Longrightarrow>
    free_encoder set_order c r = Inr c' \<Longrightarrow> ec_reachable tok n c'"
| take: "ec_reachable tok n c \<Longrightarrow> get_freed_mm_hashes c = (hs, c') \<Longrightarrow> ec_reachable tok n c'"

lemma allocate_Inr_space:
  "allocate c r i = Inr c' \<Longrightarrow> sized tok r \<Longrightarrow> i < length (mm_features r) \<Longrightarrow>
    tok (mm_identifier (mm_features r ! i)) \<le> num_free_slots c"
  using sized_tokens[of tok r i] by (auto simp: allocate_def res_bind_eq_Inr)

lemma ec_reachable_inv:
  assumes "ec_reachable tok n c" "0 \<le> n"
  shows "ec_inv tok c \<and> cache_size c = n"
  using assms(1)
proof induction
  case init
  then show ?case using ec_init_inv[OF assms(2)] by (simp add: EncoderCacheManager_init_def)
next
  case (check c r i b c')
  then show ?case using check_and_update_cache_spec[of tok c r i] by auto
next
  case (can c r i budget sched b c')
  then show ?case using can_allocate_spec[of tok c r i budget sched] by (auto simp: after_eviction_def)
next
  case (alloc c r i c')
  then show ?case using allocate_spec[of tok c r i] allocate_Inr_space[OF alloc.hyps(5,2,3)] by auto
next
  case (free_input c r i c')
  then show ?case using free_encoder_input_spec[of tok c r i] by auto
next
  case (free c r set_order c')
  then show ?case using free_encoder_spec[of tok c r set_order] by auto
next
  case (take c hs c')
  then have "c' = c\<lparr>freed := []\<rparr>" by (simp add: get_freed_mm_hashes_def)
  then show ?case using take.IH by (simp add: ec_inv_def)
qed

section \<open>Properties\<close>

text \<open>
  C12: In every state that the scheduler can bring the encoder cache into, the slot accounting is exact:
  the free slots and the sizes of all cached entries add up to the cache size, the freeable slots are
  the free slots plus the sizes of the unreferenced entries, the eviction queue lists exactly the
  unreferenced entries, and neither counter leaves the range from zero to the cache size.
\<close>
theorem encoder_cache_accounting:
  assumes "ec_reachable tok n c" "0 \<le> n"
  shows "num_free_slots c + sum tok (dom (cached c)) = n \<and>
    num_freeable_slots c = num_free_slots c + sum tok {h. cached c h = Some {}} \<and>
    fst ` set (freeable c) = {h. cached c h = Some {}} \<and> distinct (map fst (freeable c)) \<and>
    0 \<le> num_free_slots c \<and> num_free_slots c \<le> num_freeable_slots c \<and> num_freeable_slots c \<le> n"
proof -
  have inv: "ec_inv tok c" and n: "cache_size c = n" using ec_reachable_inv[OF assms] by auto
  have "sum_list (map snd (freeable c)) = sum_list (map tok (map fst (freeable c)))"
    using ec_invD(4)[OF inv] by (intro arg_cong[of _ _ sum_list]) auto
  also have "\<dots> = sum tok (set (map fst (freeable c)))"
    by (rule sum_list_distinct_conv_sum_set[OF ec_invD(2)[OF inv]])
  finally have "sum_list (map snd (freeable c)) = sum tok {h. cached c h = Some {}}"
    using inv by (simp add: ec_inv_def)
  then show ?thesis using inv slots_bounds[OF inv] n by (simp add: ec_inv_def)
qed

definition sample_image :: "string \<Rightarrow> MultiModalFeatureSpec" where
  "sample_image h = \<lparr>modality = ''image'', mm_identifier = h, mm_position = \<lparr>offset = 0, length_p = 4\<rparr>\<rparr>"

lemma sample_image_sel [simp]: "mm_identifier (sample_image h) = h" "length_p (mm_position (sample_image h)) = 4"
  by (simp_all add: sample_image_def)

definition img_request :: "string \<Rightarrow> string \<Rightarrow> Request" where
  "img_request rid h = sample_request rid [1, 2, 3, 4] [sample_image h]"

lemma img_request_sel [simp]:
  "mm_features (img_request rid h) = [sample_image h]" "request_id (img_request rid h) = rid"
  "sized (\<lambda>_. 4) (img_request rid h)"
  by (simp_all add: img_request_def sized_def)

text \<open>A cache of six slots that holds one unreferenced image of four tokens.\<close>

definition sample_cache :: EncoderCacheManager where
  "sample_cache = \<lparr>cache_size = 6, num_free_slots = 2, num_freeable_slots = 6,
     cached = [''x'' \<mapsto> {}], freeable = [(''x'', 4)], freed = []\<rparr>"

lemma sample_cache_reachable: "ec_reachable (\<lambda>_. 4) 6 sample_cache"
proof -
  have a: "\<exists>c'. allocate (EncoderCacheManager_init 6) (img_request ''r'' ''x'') 0 = Inr c' \<and>
      free_encoder_input c' (img_request ''r'' ''x'') 0 = Inr sample_cache"
    by (simp add: allocate_def EncoderCacheManager_init_def get_num_encoder_tokens_def
        free_encoder_input_def sample_cache_def Let_def fun_eq_iff)
  then obtain c' where c': "allocate (EncoderCacheManager_init 6) (img_request ''r'' ''x'') 0 = Inr c'"
      "free_encoder_input c' (img_request ''r'' ''x'') 0 = Inr sample_cache" by blast
  have "ec_reachable (\<lambda>_. 4) 6 c'"
    by (rule ec_reachable.alloc[OF ec_reachable.init _ _ _ c'(1)]) (simp_all add: EncoderCacheManager_init_def)
  then show ?thesis by (rule ec_reachable.free_input[OF _ _ _ c'(2)]) simp_all
qed

theorem encoder_cache_accounting_witness:
  "ec_reachable (\<lambda>_. 4) 6 sample_cache \<and> num_free_slots sample_cache + sum (\<lambda>_. 4) (dom (cached sample_cache)) = 6 \<and>
   num_freeable_slots sample_cache \<le> 6"
  using encoder_cache_accounting[OF sample_cache_reachable] sample_cache_reachable by simp

text \<open>
  C20: \<open>can_allocate\<close> on a consistent cache never raises and its loop terminates. It answers yes
  exactly if the input fits the compute budget and the free plus reclaimable slots suffice for it and for
  what is already scheduled; after a yes the free slots do suffice. It evicts a prefix of the eviction
  queue, oldest first and no longer than needed, reports exactly these hashes as freed, and never
  evicts an entry that some request references.
\<close>
theorem can_allocate_correct:
  assumes "ec_inv tok c" "sized tok r" "i < length (mm_features r)"
  shows "\<exists>ok c' ev. can_allocate c r i budget sched = Inr (ok, c') \<and> ec_inv tok c' \<and>
    (ok \<longleftrightarrow> tok (mm_identifier (mm_features r ! i)) \<le> budget \<and>
            tok (mm_identifier (mm_features r ! i)) + sched \<le> num_freeable_slots c) \<and>
    (ok \<longrightarrow> tok (mm_identifier (mm_features r ! i)) + sched \<le> num_free_slots c') \<and>
    freeable c = ev @ freeable c' \<and> freed c' = freed c @ map fst ev \<and>
    num_free_slots c' = num_free_slots c + sum_list (map snd ev) \<and> num_freeable_slots c' = num_freeable_slots c \<and>
    (ev \<noteq> [] \<longrightarrow> num_free_slots c + sum_list (map snd (butlast ev)) < tok (mm_identifier (mm_features r ! i)) + sched) \<and>
    (\<forall>h ids. ids \<noteq> {} \<longrightarrow> (cached c h = Some ids \<longleftrightarrow> cached c' h = Some ids))"
proof -
  from can_allocate_spec[OF assms, of budget sched] obtain ev rest where
    e: "freeable c = ev @ rest"
      "can_allocate c r i budget sched = Inr (tok (mm_identifier (mm_features r ! i)) \<le> budget \<and>
         tok (mm_identifier (mm_features r ! i)) + sched \<le> num_freeable_slots c, after_eviction ev rest c)"
      "ec_inv tok (after_eviction ev rest c)"
      "tok (mm_identifier (mm_features r ! i)) \<le> budget \<and> tok (mm_identifier (mm_features r ! i)) + sched \<le> num_freeable_slots c \<longrightarrow>
         tok (mm_identifier (mm_features r ! i)) + sched \<le> num_free_slots (after_eviction ev rest c)"
      "ev \<noteq> [] \<longrightarrow> num_free_slots c + sum_list (map snd (butlast ev)) < tok (mm_identifier (mm_features r ! i)) + sched"
    by blast
  have "cached c h = Some {}" if "h \<in> fst ` set ev" for h
    using ec_invD(3)[OF assms(1), of h] that e(1) by auto
  then have "\<forall>h ids. ids \<noteq> {} \<longrightarrow> (cached c h = Some ids \<longleftrightarrow> cached (after_eviction ev rest c) h = Some ids)"
    by (auto simp: after_eviction_def)
  then show ?thesis using e
    by (intro exI[of _ "tok (mm_identifier (mm_features r ! i)) \<le> budget \<and> tok (mm_identifier (mm_features r ! i)) + sched \<le> num_freeable_slots c"]
        exI[of _ "after_eviction ev rest c"] exI[of _ ev]) (simp add: after_eviction_def)
qed

theorem can_allocate_correct_witness:
  "ec_inv (\<lambda>_. 4) sample_cache \<and> sized (\<lambda>_. 4) (img_request ''s'' ''y'') \<and>
   (\<exists>c'. can_allocate sample_cache (img_request ''s'' ''y'') 0 8 0 = Inr (True, c') \<and> 4 \<le> num_free_slots c')"
proof -
  have inv: "ec_inv (\<lambda>_. 4) sample_cache" using ec_reachable_inv[OF sample_cache_reachable] by simp
  then show ?thesis
    using can_allocate_correct[OF inv, of "img_request ''s'' ''y''" 0 8 0] by (auto simp: sample_cache_def)
qed

text \<open>
  C26: Freeing a request's encoder inputs never raises, whatever the order in which Python iterates over
  the set of its cached inputs. Afterwards the request is in no reference set of its inputs, the
  references of other requests and all other entries are untouched, nothing is evicted, and the
  accounting stays exact, so entries it alone referenced have become freeable.
\<close>
theorem free_encoder_correct:
  assumes "ec_inv tok c" "sized tok r" "set_iteration set_order"
  shows "\<exists>c'. free_encoder set_order c r = Inr c' \<and> ec_inv tok c' \<and> dom (cached c') = dom (cached c) \<and>
    (\<forall>f ids. f \<in> set (mm_features r) \<longrightarrow> cached c' (mm_identifier f) = Some ids \<longrightarrow> request_id r \<notin> ids) \<and>
    (\<forall>h rid. rid \<noteq> request_id r \<longrightarrow> (rid \<in> (\<Union> (set_option (cached c' h))) \<longleftrightarrow> rid \<in> (\<Union> (set_option (cached c h))))) \<and>
    (\<forall>h. h \<notin> mm_identifier ` set (mm_features r) \<longrightarrow> cached c' h = cached c h) \<and>
    num_free_slots c' = num_free_slots c \<and> freed c' = freed c"
proof -
  from free_encoder_spec[OF assms] obtain c' where c': "free_encoder set_order c r = Inr c'" "ec_inv tok c'"
    "cached c' = (\<lambda>k. if k \<in> mm_identifier ` set (mm_features r)
       then map_option (\<lambda>ids. ids - {request_id r}) (cached c k) else cached c k)"
    "num_free_slots c' = num_free_slots c" "freed c' = freed c"
    by blast
  have "dom (cached c') = dom (cached c)" unfolding c'(3) by (auto simp: dom_def split: if_splits)
  moreover have "\<forall>f ids. f \<in> set (mm_features r) \<longrightarrow> cached c' (mm_identifier f) = Some ids \<longrightarrow> request_id r \<notin> ids"
    unfolding c'(3) by auto
  moreover have "\<forall>h rid. rid \<noteq> request_id r \<longrightarrow> (rid \<in> (\<Union> (set_option (cached c' h))) \<longleftrightarrow> rid \<in> (\<Union> (set_option (cached c h))))"
    unfolding c'(3) by auto
  moreover have "\<forall>h. h \<notin> mm_identifier ` set (mm_features r) \<longrightarrow> cached c' h = cached c h" unfolding c'(3) by simp
  ultimately show ?thesis using c'(1,2,4,5) by blast
qed

theorem free_encoder_correct_witness:
  "ec_inv (\<lambda>_. 4) sample_cache \<and> set_iteration sorted_list_of_set \<and>
   (\<exists>c'. free_encoder sorted_list_of_set sample_cache (img_request ''r'' ''x'') = Inr c' \<and>
     dom (cached c') = {''x''} \<and> num_free_slots c' = 2)"
proof -
  have inv: "ec_inv (\<lambda>_. 4) sample_cache" using ec_reachable_inv[OF sample_cache_reachable] by simp
  have so: "set_iteration sorted_list_of_set" by (simp add: set_iteration_def)
  from free_encoder_correct[OF inv img_request_sel(3) so, of "''r''" "''x''"] show ?thesis
    using inv so by (auto simp: sample_cache_def)
qed

text \<open>
  C27: The computed budgets suffice for any single item. If the budget computation of a multimodal model
  returns, then on a fresh cache of the returned size and with the returned compute budget every
  input no larger than the largest item of some modality can be allocated, and the allocation
  passes its assertions.
\<close>
theorem encoder_budget_sufficient:
  assumes "compute_encoder_budget True limits cfg = Inr (compute_budget, budget_size)"
    and "(m, max_item) \<in> set limits" "0 \<le> max_item"
    and "i < length (mm_features r)" "length_p (mm_position (mm_features r ! i)) \<le> max_item"
    and "sized tok r"
  shows "can_allocate (EncoderCacheManager_init budget_size) r i compute_budget 0 = Inr (True, EncoderCacheManager_init budget_size) \<and>
    (\<exists>c'. allocate (EncoderCacheManager_init budget_size) r i = Inr c')"
proof -
  have "max_item \<le> Max (set (map snd limits))" using assms(2) by (intro Max_ge) force+
  moreover have "limits \<noteq> []" using assms(2) by auto
  ultimately have b: "max_item \<le> compute_budget" "max_item \<le> budget_size"
    using assms(1) by (auto simp: compute_encoder_budget_def compute_mm_encoder_budget_def Let_def split: if_splits)
  then have inv: "ec_inv tok (EncoderCacheManager_init budget_size)" using assms(3) by (intro ec_init_inv) simp
  have t: "get_num_encoder_tokens r i = Inr (length_p (mm_position (mm_features r ! i)))"
    using assms(4) by (simp add: get_num_encoder_tokens_def)
  have tk: "tok (mm_identifier (mm_features r ! i)) = length_p (mm_position (mm_features r ! i))"
    using assms(4,6) by (simp add: sized_def)
  have "can_allocate (EncoderCacheManager_init budget_size) r i compute_budget 0 = Inr (True, EncoderCacheManager_init budget_size)"
    using t b assms(5) by (simp add: can_allocate_def EncoderCacheManager_init_def)
  moreover have "\<exists>c'. allocate (EncoderCacheManager_init budget_size) r i = Inr c'"
    using allocate_spec[OF inv assms(6,4)] tk b(2) assms(5) by (auto simp: EncoderCacheManager_init_def)
  ultimately show ?thesis by blast
qed

definition sample_budget_config :: SchedulerBudgetConfig where
  "sample_budget_config = \<lparr>disable_chunked_mm_input = False, max_num_batched_tokens_b = 8,
     max_num_encoder_input_tokens = 2, encoder_cache_size = 3\<rparr>"

theorem encoder_budget_sufficient_witness:
  "compute_encoder_budget True [(''image'', 5)] sample_budget_config = Inr (5, 5) \<and>
   can_allocate (EncoderCacheManager_init 5) (img_request ''r'' ''x'') 0 5 0 = Inr (True, EncoderCacheManager_init 5)"
proof -
  have b: "compute_encoder_budget True [(''image'', 5)] sample_budget_config = Inr (5, 5)"
    by (simp add: compute_encoder_budget_def compute_mm_encoder_budget_def sample_budget_config_def)
  show ?thesis
    using encoder_budget_sufficient[OF b, of "''image''" 5 0 "img_request ''r'' ''x''" "\<lambda>_. 4"] b by simp
qed

end
