(* ===== verification/KV_Cache_Spec.thy ===== *)
theory KV_Cache_Spec
  imports Prelude
begin

text \<open>
  The KV cache formats of the layers of a model (\<open>vllm/v1/kv_cache_interface.py\<close>): page sizes, the
  memory bound of one request, merging of the formats of the layers of one group, and the combined
  format of several layers of the same type. The byte size of a torch dtype (\<open>get_dtype_size\<close> asks
  torch) is the parameter \<open>dtype_size\<close>.
\<close>

section \<open>Formats\<close>

type_synonym dtype = string

record AttentionSpec =
  as_block_size :: int
  num_kv_heads :: int
  head_size :: int
  as_dtype :: dtype

text \<open>
  A dataclass with its ancestors' fields becomes a constructor; \<open>MLAAttentionSpec\<close> is a subclass of
  \<open>FullAttentionSpec\<close> and has its two optional fields as well.
\<close>

datatype KVCacheSpec =
    FullAttentionSpec AttentionSpec "int option" "int option"
  | MLAAttentionSpec AttentionSpec "int option" "int option" "string option"
  | ChunkedLocalAttentionSpec AttentionSpec int
  | SlidingWindowSpec AttentionSpec int
  | MambaSpec int "int list list" "dtype list" "int option" string int
  | EncoderOnlyAttentionSpec AttentionSpec
  | CrossAttentionSpec AttentionSpec
  | UniformTypeKVCacheSpecs int "(string \<times> KVCacheSpec) list"

fun spec_block_size :: "KVCacheSpec \<Rightarrow> int" where
  "spec_block_size (FullAttentionSpec a _ _) = as_block_size a"
| "spec_block_size (MLAAttentionSpec a _ _ _) = as_block_size a"
| "spec_block_size (ChunkedLocalAttentionSpec a _) = as_block_size a"
| "spec_block_size (SlidingWindowSpec a _) = as_block_size a"
| "spec_block_size (MambaSpec n _ _ _ _ _) = n"
| "spec_block_size (EncoderOnlyAttentionSpec a) = as_block_size a"
| "spec_block_size (CrossAttentionSpec a) = as_block_size a"
| "spec_block_size (UniformTypeKVCacheSpecs n _) = n"

text \<open>\<open>isinstance(spec, FullAttentionSpec)\<close>, which the subclass satisfies.\<close>

fun is_full_attention_spec :: "KVCacheSpec \<Rightarrow> bool" where
  "is_full_attention_spec (FullAttentionSpec _ _ _) = True"
| "is_full_attention_spec (MLAAttentionSpec _ _ _ _) = True"
| "is_full_attention_spec _ = False"

fun is_mla_attention_spec :: "KVCacheSpec \<Rightarrow> bool" where
  "is_mla_attention_spec (MLAAttentionSpec _ _ _ _) = True"
| "is_mla_attention_spec _ = False"

text \<open>Divisions as the code performs them: a zero divisor raises.\<close>

definition py_floordiv :: "int \<Rightarrow> int \<Rightarrow> int result" where
  "py_floordiv a b = (if b = 0 then Inl ZeroDivisionError else Inr (a div b))"

definition py_mod :: "int \<Rightarrow> int \<Rightarrow> int result" where
  "py_mod a b = (if b = 0 then Inl ZeroDivisionError else Inr (a mod b))"

definition py_cdiv :: "int \<Rightarrow> int \<Rightarrow> int result" where
  "py_cdiv a b = (if b = 0 then Inl ZeroDivisionError else Inr (cdiv a b))"

lemma py_div_pos [simp]:
  "0 < b \<Longrightarrow> py_floordiv a b = Inr (a div b)" "0 < b \<Longrightarrow> py_mod a b = Inr (a mod b)"
  "0 < b \<Longrightarrow> py_cdiv a b = Inr (cdiv a b)"
  by (simp_all add: py_floordiv_def py_mod_def py_cdiv_def)

section \<open>Page sizes\<close>

definition attention_page_size :: "(dtype \<Rightarrow> int) \<Rightarrow> AttentionSpec \<Rightarrow> int" where
  "attention_page_size dtype_size a = 2 * as_block_size a * num_kv_heads a * head_size a * dtype_size (as_dtype a)"

definition mla_page_size :: "(dtype \<Rightarrow> int) \<Rightarrow> AttentionSpec \<Rightarrow> string option \<Rightarrow> int" where
  "mla_page_size dtype_size a cache_dtype_str =
     (if cache_dtype_str = Some ''fp8_ds_mla'' then as_block_size a * 656
      else as_block_size a * num_kv_heads a * head_size a * dtype_size (as_dtype a))"

definition mamba_page_size :: "(dtype \<Rightarrow> int) \<Rightarrow> int list list \<Rightarrow> dtype list \<Rightarrow> int option \<Rightarrow> int result" where
  "mamba_page_size dtype_size shapes dtypes page_size_padded =
     (let page_size = sum_list (map (\<lambda>(shape, dt). prod_list shape * dtype_size dt) (zip shapes dtypes))
      in case page_size_padded of
           None \<Rightarrow> Inr page_size
         | Some padded \<Rightarrow> res_bind (py_assert (padded \<ge> page_size)) (\<lambda>_. Inr padded))"

fun page_size_bytes :: "(dtype \<Rightarrow> int) \<Rightarrow> KVCacheSpec \<Rightarrow> int result" where
  "page_size_bytes ds (FullAttentionSpec a _ _) = Inr (attention_page_size ds a)"
| "page_size_bytes ds (MLAAttentionSpec a _ _ c) = Inr (mla_page_size ds a c)"
| "page_size_bytes ds (ChunkedLocalAttentionSpec a _) = Inr (attention_page_size ds a)"
| "page_size_bytes ds (SlidingWindowSpec a _) = Inr (attention_page_size ds a)"
| "page_size_bytes ds (MambaSpec _ shapes dtypes padded _ _) = mamba_page_size ds shapes dtypes padded"
| "page_size_bytes ds (EncoderOnlyAttentionSpec a) = Inr (attention_page_size ds a)"
| "page_size_bytes ds (CrossAttentionSpec a) = Inr (attention_page_size ds a)"
| "page_size_bytes ds (UniformTypeKVCacheSpecs _ specs) =
     res_bind (res_map (\<lambda>s. page_size_bytes ds s) (map snd specs)) (\<lambda>ps. Inr (sum_list ps))"

section \<open>Memory bound of one request\<close>

text \<open>Of \<open>VllmConfig\<close> only what this module reads.\<close>

record VllmConfig =
  max_model_len :: int
  decode_context_parallel_size :: int
  prefill_context_parallel_size :: int
  max_num_batched_tokens :: int
  cfg_max_num_encoder_input_tokens :: int

definition full_max_memory :: "(dtype \<Rightarrow> int) \<Rightarrow> VllmConfig \<Rightarrow> int \<Rightarrow> int \<Rightarrow> int result" where
  "full_max_memory ds cfg bs page =
     res_bind (if decode_context_parallel_size cfg * prefill_context_parallel_size cfg > 1
               then py_cdiv (max_model_len cfg) (decode_context_parallel_size cfg * prefill_context_parallel_size cfg)
               else Inr (max_model_len cfg)) (\<lambda>n.
     res_bind (py_cdiv n bs) (\<lambda>k. Inr (k * page)))"

definition chunked_max_memory :: "VllmConfig \<Rightarrow> int \<Rightarrow> int \<Rightarrow> int \<Rightarrow> int result" where
  "chunked_max_memory cfg bs chunk page =
     (let n_tokens = min (chunk + max_num_batched_tokens cfg) (max_model_len cfg)
      in res_bind (py_cdiv n_tokens bs) (\<lambda>k. Inr (k * page)))"

definition sliding_max_memory :: "VllmConfig \<Rightarrow> int \<Rightarrow> int \<Rightarrow> int \<Rightarrow> int result" where
  "sliding_max_memory cfg bs window page =
     res_bind (py_assert (decode_context_parallel_size cfg = 1)) (\<lambda>_.
       let n_tokens = min (window - 1 + max_num_batched_tokens cfg) (max_model_len cfg)
       in res_bind (py_cdiv n_tokens bs) (\<lambda>k. Inr ((k + 1) * page)))"

definition mamba_max_memory :: "VllmConfig \<Rightarrow> int \<Rightarrow> int result \<Rightarrow> int result" where
  "mamba_max_memory cfg bs page =
     res_bind (py_cdiv (max_model_len cfg) bs) (\<lambda>k. res_bind page (\<lambda>pg. Inr (k * pg)))"

definition cross_max_memory :: "VllmConfig \<Rightarrow> int \<Rightarrow> int \<Rightarrow> int result" where
  "cross_max_memory cfg bs page =
     res_bind (py_cdiv (cfg_max_num_encoder_input_tokens cfg) bs) (\<lambda>k. Inr (k * page))"

text \<open>\<open>max\<close> of an empty sequence raises.\<close>

definition py_max :: "int list \<Rightarrow> int result" where
  "py_max xs = (if xs = [] then Inl ValueError else Inr (Max (set xs)))"

definition py_min :: "int list \<Rightarrow> int result" where
  "py_min xs = (if xs = [] then Inl ValueError else Inr (Min (set xs)))"

fun max_memory_usage_bytes :: "(dtype \<Rightarrow> int) \<Rightarrow> VllmConfig \<Rightarrow> KVCacheSpec \<Rightarrow> int result" where
  "max_memory_usage_bytes ds cfg (FullAttentionSpec a _ _) =
     full_max_memory ds cfg (as_block_size a) (attention_page_size ds a)"
| "max_memory_usage_bytes ds cfg (MLAAttentionSpec a _ _ c) =
     full_max_memory ds cfg (as_block_size a) (mla_page_size ds a c)"
| "max_memory_usage_bytes ds cfg (ChunkedLocalAttentionSpec a chunk) =
     chunked_max_memory cfg (as_block_size a) chunk (attention_page_size ds a)"
| "max_memory_usage_bytes ds cfg (SlidingWindowSpec a window) =
     sliding_max_memory cfg (as_block_size a) window (attention_page_size ds a)"
| "max_memory_usage_bytes ds cfg (MambaSpec bs shapes dtypes padded _ _) =
     mamba_max_memory cfg bs (mamba_page_size ds shapes dtypes padded)"
| "max_memory_usage_bytes ds cfg (EncoderOnlyAttentionSpec a) = Inr 0"
| "max_memory_usage_bytes ds cfg (CrossAttentionSpec a) =
     cross_max_memory cfg (as_block_size a) (attention_page_size ds a)"
| "max_memory_usage_bytes ds cfg (UniformTypeKVCacheSpecs bs specs) =
     res_bind (res_map (\<lambda>s. res_bind (max_memory_usage_bytes ds cfg s) (\<lambda>m.
                             res_bind (page_size_bytes ds s) (\<lambda>pg. py_cdiv m pg))) (map snd specs)) (\<lambda>ns.
     res_bind (py_max ns) (\<lambda>max_num_pages.
     res_bind (page_size_bytes ds (UniformTypeKVCacheSpecs bs specs)) (\<lambda>page.
       Inr (max_num_pages * page))))"

section \<open>Merging and combining\<close>

fun copy_with_new_block_size :: "int \<Rightarrow> KVCacheSpec \<Rightarrow> KVCacheSpec" where
  "copy_with_new_block_size n (FullAttentionSpec a w c) = FullAttentionSpec (a\<lparr>as_block_size := n\<rparr>) w c"
| "copy_with_new_block_size n (MLAAttentionSpec a w c d) = MLAAttentionSpec (a\<lparr>as_block_size := n\<rparr>) w c d"
| "copy_with_new_block_size n (ChunkedLocalAttentionSpec a c) = ChunkedLocalAttentionSpec (a\<lparr>as_block_size := n\<rparr>) c"
| "copy_with_new_block_size n (SlidingWindowSpec a w) = SlidingWindowSpec (a\<lparr>as_block_size := n\<rparr>) w"
| "copy_with_new_block_size n (MambaSpec _ sh dt pd ty k) = MambaSpec n sh dt pd ty k"
| "copy_with_new_block_size n (EncoderOnlyAttentionSpec a) = EncoderOnlyAttentionSpec (a\<lparr>as_block_size := n\<rparr>)"
| "copy_with_new_block_size n (CrossAttentionSpec a) = CrossAttentionSpec (a\<lparr>as_block_size := n\<rparr>)"
| "copy_with_new_block_size n (UniformTypeKVCacheSpecs _ specs) = UniformTypeKVCacheSpecs n specs"

text \<open>The set of window sizes is given by the list of its elements in any order.\<close>

definition merge_window_sizes :: "int list \<Rightarrow> int option result" where
  "merge_window_sizes window_sizes =
     (case remdups window_sizes of [] \<Rightarrow> Inr None | [w] \<Rightarrow> Inr (Some w) | _ \<Rightarrow> Inl ValueError)"

definition base_merge :: "KVCacheSpec list \<Rightarrow> KVCacheSpec result" where
  "base_merge specs =
     (case specs of
        [] \<Rightarrow> Inl IndexError
      | s # rest \<Rightarrow> res_bind (py_assert (\<forall>t \<in> set rest. t = s)) (\<lambda>_. Inr s))"

fun full_fields :: "KVCacheSpec \<Rightarrow> (AttentionSpec \<times> int option \<times> int option) option" where
  "full_fields (FullAttentionSpec a w c) = Some (a, w, c)"
| "full_fields (MLAAttentionSpec a w c _) = Some (a, w, c)"
| "full_fields _ = None"

definition somes :: "'a option list \<Rightarrow> 'a list" where
  "somes xs = map the (filter (\<lambda>x. x \<noteq> None) xs)"

definition full_merge :: "KVCacheSpec list \<Rightarrow> KVCacheSpec result" where
  "full_merge specs =
     res_bind (py_assert (\<forall>s \<in> set specs. is_full_attention_spec s)) (\<lambda>_.
       let fs = somes (map full_fields specs);
           windows = somes (map (\<lambda>(a, w, c). w) fs);
           chunks = somes (map (\<lambda>(a, w, c). c) fs)
       in res_bind (py_assert (\<not> (\<exists>s \<in> set specs. is_mla_attention_spec s))) (\<lambda>_.
          case fs of
            [] \<Rightarrow> Inl IndexError
          | (a, _, _) # _ \<Rightarrow>
              res_bind (merge_window_sizes windows) (\<lambda>w.
              res_bind (merge_window_sizes chunks) (\<lambda>c.
              res_bind (py_assert (\<forall>(a', _, _) \<in> set fs. a' = a)) (\<lambda>_.
              res_bind (py_assert (w = None \<or> c = None)) (\<lambda>_.
                Inr (FullAttentionSpec a w c)))))))"

fun mla_fields :: "KVCacheSpec \<Rightarrow> (AttentionSpec \<times> string option) option" where
  "mla_fields (MLAAttentionSpec a _ _ d) = Some (a, d)"
| "mla_fields _ = None"

definition mla_merge :: "KVCacheSpec list \<Rightarrow> KVCacheSpec result" where
  "mla_merge specs =
     res_bind (py_assert (\<forall>s \<in> set specs. is_mla_attention_spec s)) (\<lambda>_.
       let fs = somes (map mla_fields specs)
       in res_bind (py_assert (length (remdups (map snd fs)) = 1)) (\<lambda>_.
            Inr (MLAAttentionSpec (fst (hd fs)) None None (snd (hd fs)))))"

text \<open>\<open>specs[0].merge(specs)\<close>: the class method of the first element's class.\<close>

definition merge_specs :: "KVCacheSpec list \<Rightarrow> KVCacheSpec result" where
  "merge_specs specs =
     (case specs of
        [] \<Rightarrow> Inl IndexError
      | FullAttentionSpec _ _ _ # _ \<Rightarrow> full_merge specs
      | MLAAttentionSpec _ _ _ _ # _ \<Rightarrow> mla_merge specs
      | _ \<Rightarrow> base_merge specs)"

text \<open>Whether a format has the type that the format \<open>one\<close> asks of all layers.\<close>

fun same_type :: "KVCacheSpec \<Rightarrow> KVCacheSpec \<Rightarrow> bool result" where
  "same_type (FullAttentionSpec _ _ _) s = Inr (is_full_attention_spec s)"
| "same_type (MLAAttentionSpec _ _ _ _) s = Inr (is_full_attention_spec s)"
| "same_type (CrossAttentionSpec _) s = Inr (case s of CrossAttentionSpec _ \<Rightarrow> True | _ \<Rightarrow> False)"
| "same_type (SlidingWindowSpec _ w) s = Inr (case s of SlidingWindowSpec _ w' \<Rightarrow> w' = w | _ \<Rightarrow> False)"
| "same_type (ChunkedLocalAttentionSpec _ c) s = Inr (case s of ChunkedLocalAttentionSpec _ c' \<Rightarrow> c' = c | _ \<Rightarrow> False)"
| "same_type (MambaSpec _ _ _ _ _ k) s = Inr (case s of MambaSpec _ _ _ _ _ k' \<Rightarrow> k' = k | _ \<Rightarrow> False)"
| "same_type _ s = Inl NotImplementedError"

definition is_uniform_type :: "(string \<times> KVCacheSpec) list \<Rightarrow> bool result" where
  "is_uniform_type kv_cache_specs =
     (let specs = map snd kv_cache_specs
      in if length (remdups (map spec_block_size specs)) > 1 then Inr False
         else case specs of
                [] \<Rightarrow> Inl StopIteration
              | one # _ \<Rightarrow> res_bind (res_map (same_type one) specs) (\<lambda>bs. Inr (\<forall>b \<in> set bs. b)))"

definition from_specs :: "(string \<times> KVCacheSpec) list \<Rightarrow> KVCacheSpec option result" where
  "from_specs kv_cache_specs =
     res_bind (is_uniform_type kv_cache_specs) (\<lambda>u.
       if u then Inr (Some (UniformTypeKVCacheSpecs (spec_block_size (snd (hd kv_cache_specs))) kv_cache_specs))
       else Inr None)"

section \<open>Configurations\<close>

record KVCacheTensor =
  tensor_size :: int
  shared_by :: "string list"

record KVCacheGroupSpec =
  layer_names :: "string list"
  group_spec :: KVCacheSpec

record KVCacheConfig =
  num_blocks :: int
  kv_cache_tensors :: "KVCacheTensor list"
  kv_cache_groups :: "KVCacheGroupSpec list"

section \<open>Lemmas\<close>

lemma merge_window_sizes_Inr:
  assumes "merge_window_sizes ws = Inr w"
  shows "set ws = set_option w"
proof (cases "remdups ws")
  case Nil
  then show ?thesis using assms by (simp add: merge_window_sizes_def)
next
  case (Cons v vs)
  have "vs = []" using assms Cons by (cases vs) (auto simp: merge_window_sizes_def)
  then have "set ws = {v}" "w = Some v"
    using assms Cons set_remdups[of ws] by (auto simp: merge_window_sizes_def simp del: set_remdups)
  then show ?thesis by simp
qed

lemma somes_map_Some [simp]: "(\<And>x. x \<in> set xs \<Longrightarrow> f x = Some (g x)) \<Longrightarrow> somes (map f xs) = map g xs"
  by (induction xs) (auto simp: somes_def)

lemma set_somes: "set (somes xs) = {x. Some x \<in> set xs}"
  by (force simp: somes_def)

lemma full_fields_iff: "is_full_attention_spec s \<Longrightarrow> \<not> is_mla_attention_spec s \<Longrightarrow> \<exists>a w c. s = FullAttentionSpec a w c"
  by (cases s) auto

lemma full_merge_Inr:
  assumes "full_merge specs = Inr m" "t \<in> set specs"
  shows "\<exists>a w c w' c'. m = FullAttentionSpec a w c \<and> t = FullAttentionSpec a w' c' \<and>
    (w' = None \<or> w' = w) \<and> (c' = None \<or> c' = c) \<and> (w = None \<or> c = None)"
proof -
  define fs where "fs = somes (map full_fields specs)"
  have full: "\<forall>s \<in> set specs. \<exists>a w c. s = FullAttentionSpec a w c"
    using assms(1) full_fields_iff by (auto simp: full_merge_def Let_def res_bind_eq_Inr)
  obtain a w0 c0 rest where fs: "fs = (a, w0, c0) # rest"
    using assms(1) by (cases fs) (auto simp: full_merge_def Let_def fs_def[symmetric] res_bind_eq_Inr)
  obtain w c where m: "m = FullAttentionSpec a w c" "\<forall>(a', _, _) \<in> set fs. a' = a" "w = None \<or> c = None"
    "merge_window_sizes (somes (map (\<lambda>(a, w, c). w) fs)) = Inr w" "merge_window_sizes (somes (map (\<lambda>(a, w, c). c) fs)) = Inr c"
    using assms(1) unfolding full_merge_def Let_def fs_def[symmetric] fs list.case prod.case res_bind_eq_Inr py_assert_eq_Inr
    by blast
  obtain a' w' c' where t: "t = FullAttentionSpec a' w' c'" using full assms(2) by blast
  then have "Some (a', w', c') \<in> set (map full_fields specs)" using assms(2) by force
  then have f: "(a', w', c') \<in> set fs" by (simp add: fs_def set_somes)
  then have "a' = a" using m(2) by auto
  moreover have "w' = None \<or> w' = w"
  proof (cases w')
    case (Some v)
    then have "v \<in> set (somes (map (\<lambda>(a, w, c). w) fs))" using f by (force simp: set_somes)
    then show ?thesis using merge_window_sizes_Inr[OF m(4)] Some by (cases w) auto
  qed simp
  moreover have "c' = None \<or> c' = c"
  proof (cases c')
    case (Some v)
    then have "v \<in> set (somes (map (\<lambda>(a, w, c). c) fs))" using f by (force simp: set_somes)
    then show ?thesis using merge_window_sizes_Inr[OF m(5)] Some by (cases c) auto
  qed simp
  ultimately show ?thesis using m(1,3) t by blast
qed

lemma base_merge_Inr: "base_merge specs = Inr m \<Longrightarrow> t \<in> set specs \<Longrightarrow> t = m"
  by (auto simp: base_merge_def res_bind_eq_Inr split: list.splits)

lemma py_max_ge: "py_max ns = Inr k \<Longrightarrow> n \<in> set ns \<Longrightarrow> n \<le> k"
  by (auto simp: py_max_def split: if_splits)

section \<open>Properties\<close>

text \<open>
  C28: Merging the formats of a group whose first layer is not an MLA layer returns, if it returns, a format
  that every layer of the group agrees with: same page size and, if the layers are full attention
  layers, a sliding window or a chunk size of the group that each layer has unless it has none,
  never both. So one block table serves all layers of the group.
\<close>
theorem merge_specs_correct:
  assumes "merge_specs specs = Inr m" "\<not> is_mla_attention_spec (hd specs)" "t \<in> set specs"
  shows "spec_block_size m = spec_block_size t \<and> page_size_bytes ds m = page_size_bytes ds t \<and>
    max_memory_usage_bytes ds cfg m = max_memory_usage_bytes ds cfg t \<and>
    (t = m \<or> (\<exists>a w c w' c'. m = FullAttentionSpec a w c \<and> t = FullAttentionSpec a w' c' \<and>
       (w' = None \<or> w' = w) \<and> (c' = None \<or> c' = c) \<and> (w = None \<or> c = None)))"
proof (cases "\<exists>a w c. hd specs = FullAttentionSpec a w c")
  case True
  then have "full_merge specs = Inr m" using assms(1,3) by (auto simp: merge_specs_def split: list.splits)
  then show ?thesis using full_merge_Inr[OF _ assms(3)] by force
next
  case False
  then have "base_merge specs = Inr m"
    using assms by (cases specs) (auto simp: merge_specs_def split: KVCacheSpec.splits)
  then show ?thesis using base_merge_Inr[OF _ assms(3)] by simp
qed

definition sample_attention :: "int \<Rightarrow> AttentionSpec" where
  "sample_attention heads = \<lparr>as_block_size = 16, num_kv_heads = heads, head_size = 64, as_dtype = ''bfloat16''\<rparr>"

theorem merge_specs_correct_witness:
  "merge_specs [FullAttentionSpec (sample_attention 8) None None, FullAttentionSpec (sample_attention 8) (Some 128) None] =
     Inr (FullAttentionSpec (sample_attention 8) (Some 128) None) \<and>
   page_size_bytes (\<lambda>_. 2) (FullAttentionSpec (sample_attention 8) (Some 128) None) =
     page_size_bytes (\<lambda>_. 2) (FullAttentionSpec (sample_attention 8) None None)"
proof -
  have e: "merge_specs [FullAttentionSpec (sample_attention 8) None None, FullAttentionSpec (sample_attention 8) (Some 128) None] =
     Inr (FullAttentionSpec (sample_attention 8) (Some 128) None)"
    by (simp add: merge_specs_def full_merge_def somes_def merge_window_sizes_def)
  show ?thesis
    using merge_specs_correct[OF e, of "FullAttentionSpec (sample_attention 8) None None" "\<lambda>_. 2"] e by simp
qed



text \<open>
  C29: The memory bound of a combined format is a bound for every layer. It is a whole number of
  pages of the combined format, and with that many pages of its own every layer has at least the
  memory its own bound asks for.
\<close>
theorem uniform_memory_covers_layers:
  assumes "max_memory_usage_bytes ds cfg (UniformTypeKVCacheSpecs bs specs) = Inr total_mem"
    and "(layer, s) \<in> set specs" "max_memory_usage_bytes ds cfg s = Inr mem" "page_size_bytes ds s = Inr page" "0 < page"
  shows "\<exists>n combined. page_size_bytes ds (UniformTypeKVCacheSpecs bs specs) = Inr combined \<and>
    total_mem = n * combined \<and> mem \<le> n * page"
proof -
  obtain ns n combined where r:
    "res_map (\<lambda>s. res_bind (max_memory_usage_bytes ds cfg s) (\<lambda>m. res_bind (page_size_bytes ds s) (\<lambda>pg. py_cdiv m pg)))
       (map snd specs) = Inr ns"
    "py_max ns = Inr n" "page_size_bytes ds (UniformTypeKVCacheSpecs bs specs) = Inr combined" "total_mem = n * combined"
    using assms(1) unfolding max_memory_usage_bytes.simps res_bind_eq_Inr by blast
  obtain i where i: "i < length (map snd specs)" "map snd specs ! i = s"
    using assms(2) by (metis in_set_conv_nth length_map nth_map snd_conv)
  have "py_cdiv mem page = Inr (ns ! i)" using res_map_Inr_nth[OF r(1) i(1)] i(2) assms(3,4) by simp
  moreover have "ns ! i \<in> set ns" using i(1) res_map_Inr_length[OF r(1)] by simp
  ultimately have "cdiv mem page \<le> n" using py_max_ge[OF r(2)] assms(5) by simp
  then have "mem \<le> n * page" using cdiv_le_iff[OF assms(5)] by (simp add: mult.commute)
  then show ?thesis using r(3,4) by blast
qed

definition sample_vllm_config :: VllmConfig where
  "sample_vllm_config = \<lparr>max_model_len = 64, decode_context_parallel_size = 1, prefill_context_parallel_size = 1,
     max_num_batched_tokens = 32, cfg_max_num_encoder_input_tokens = 8\<rparr>"

theorem uniform_memory_covers_layers_witness:
  "\<exists>n combined. page_size_bytes (\<lambda>_. 2) (UniformTypeKVCacheSpecs 16 [(''l0'', FullAttentionSpec (sample_attention 1) None None),
       (''l1'', FullAttentionSpec (sample_attention 2) None None)]) = Inr combined \<and>
     49152 = n * combined \<and> 16384 \<le> n * 4096"
  by (rule uniform_memory_covers_layers[of "\<lambda>_. 2" sample_vllm_config _ _ _ "''l0''" "FullAttentionSpec (sample_attention 1) None None"])
    (simp_all add: sample_attention_def sample_vllm_config_def full_max_memory_def attention_page_size_def py_max_def cdiv_def)

end
