(* ===== verification/Single_Type_Manager.thy ===== *)
theory Single_Type_Manager
  imports Block_Pool KV_Cache_Spec
begin

text \<open>
  The block managers, one per KV cache group (\<open>vllm/v1/core/single_type_kv_cache_manager.py\<close>): the base
  class with the block tables of the requests, and the five attention types with their prefix cache
  lookups. Methods take the manager and the shared block pool and return both.
\<close>

section \<open>State\<close>

datatype manager_class =
    FullAttentionManager | SlidingWindowManager | ChunkedLocalAttentionManager | MambaManager | CrossAttentionManager

record kv_manager =
  mgr_class :: manager_class
  kv_cache_spec :: KVCacheSpec
  mgr_block_size :: int
  mgr_dcp_world_size :: int
  mgr_pcp_world_size :: int
  req_to_blocks :: "(string \<times> bref list) list"
  num_cached_block :: "(string \<times> int) list"
  kv_cache_group_id :: int
  mgr_null_block :: bref

fun spec_manager_map :: "KVCacheSpec \<Rightarrow> manager_class option" where
  "spec_manager_map (FullAttentionSpec _ _ _) = Some FullAttentionManager"
| "spec_manager_map (MLAAttentionSpec _ _ _ _) = Some FullAttentionManager"
| "spec_manager_map (SlidingWindowSpec _ _) = Some SlidingWindowManager"
| "spec_manager_map (ChunkedLocalAttentionSpec _ _) = Some ChunkedLocalAttentionManager"
| "spec_manager_map (MambaSpec _ _ _ _ _ _) = Some MambaManager"
| "spec_manager_map (CrossAttentionSpec _) = Some CrossAttentionManager"
| "spec_manager_map _ = None"

definition group_block_size :: "KVCacheSpec \<Rightarrow> int \<Rightarrow> int \<Rightarrow> int" where
  "group_block_size spec dcp pcp =
     (if dcp * pcp > 1 then spec_block_size spec * (dcp * pcp) else spec_block_size spec)"

definition SingleTypeKVCacheManager_init ::
    "manager_class \<Rightarrow> KVCacheSpec \<Rightarrow> block_pool \<Rightarrow> int \<Rightarrow> int \<Rightarrow> int \<Rightarrow> kv_manager" where
  "SingleTypeKVCacheManager_init cls spec p group_id dcp pcp =
     \<lparr>mgr_class = cls, kv_cache_spec = spec, mgr_block_size = group_block_size spec dcp pcp,
      mgr_dcp_world_size = dcp, mgr_pcp_world_size = pcp, req_to_blocks = [], num_cached_block = [],
      kv_cache_group_id = group_id, mgr_null_block = null_block p\<rparr>"

definition get_manager_for_kv_cache_spec ::
    "KVCacheSpec \<Rightarrow> block_pool \<Rightarrow> int \<Rightarrow> int \<Rightarrow> int \<Rightarrow> kv_manager result" where
  "get_manager_for_kv_cache_spec spec p group_id dcp pcp =
     (case spec_manager_map spec of
        None \<Rightarrow> Inl KeyError
      | Some cls \<Rightarrow> Inr (SingleTypeKVCacheManager_init cls spec p group_id dcp pcp))"

section \<open>Block tables\<close>

text \<open>Dictionaries are association lists; \<open>table m rid\<close> is what \<open>req_to_blocks.get(rid, [])\<close> returns.\<close>

definition table :: "kv_manager \<Rightarrow> string \<Rightarrow> bref list" where
  "table m rid = (case map_of (req_to_blocks m) rid of None \<Rightarrow> [] | Some bs \<Rightarrow> bs)"

definition n_cached :: "kv_manager \<Rightarrow> string \<Rightarrow> int" where
  "n_cached m rid = (case map_of (num_cached_block m) rid of None \<Rightarrow> 0 | Some k \<Rightarrow> k)"

definition set_table :: "string \<Rightarrow> bref list \<Rightarrow> kv_manager \<Rightarrow> kv_manager" where
  "set_table rid bs m = m\<lparr>req_to_blocks := AList.update rid bs (req_to_blocks m)\<rparr>"

text \<open>Reading the \<open>defaultdict\<close> at a missing key stores an empty list there.\<close>

definition dd_touch :: "string \<Rightarrow> kv_manager \<Rightarrow> kv_manager" where
  "dd_touch rid m = set_table rid (table m rid) m"

text \<open>The extra blocks that linear attention reserves for speculative tokens.\<close>

definition mgr_num_tokens :: "kv_manager \<Rightarrow> int \<Rightarrow> int result" where
  "mgr_num_tokens m n_tokens =
     (case mgr_class m of
        MambaManager \<Rightarrow>
          (case kv_cache_spec m of
             MambaSpec bs _ _ _ _ k \<Rightarrow> Inr (if k > 0 then n_tokens + bs * k else n_tokens)
           | _ \<Rightarrow> Inl AssertionError)
      | _ \<Rightarrow> Inr n_tokens)"

definition evictable :: "block_pool \<Rightarrow> bref \<Rightarrow> bool" where
  "evictable p b \<longleftrightarrow> ref_cnt (heap p b) = 0 \<and> \<not> is_null (heap p b)"

definition mgr_get_num_blocks_to_allocate ::
    "kv_manager \<Rightarrow> block_pool \<Rightarrow> string \<Rightarrow> int \<Rightarrow> bref list \<Rightarrow> (int \<times> kv_manager) result" where
  "mgr_get_num_blocks_to_allocate m p rid n_tokens new_computed_blocks =
     res_bind (mgr_num_tokens m n_tokens) (\<lambda>n.
     res_bind (py_cdiv n (mgr_block_size m)) (\<lambda>num_required_blocks.
       let num_new_blocks = num_required_blocks - int (length new_computed_blocks) - int (length (table m rid));
           num_evictable_computed_blocks = int (length (filter (evictable p) new_computed_blocks))
       in Inr (num_new_blocks + num_evictable_computed_blocks, dd_touch rid m)))"

definition cross_save_new_computed_blocks :: "kv_manager \<Rightarrow> bref list \<Rightarrow> kv_manager result" where
  [simp]: "cross_save_new_computed_blocks m new_computed_blocks =
     res_bind (py_assert (length new_computed_blocks = 0)) (\<lambda>_. Inr m)"

definition mgr_save_new_computed_blocks :: "kv_manager \<Rightarrow> string \<Rightarrow> bref list \<Rightarrow> kv_manager result" where
  "mgr_save_new_computed_blocks m rid new_computed_blocks =
     (if mgr_class m = CrossAttentionManager then cross_save_new_computed_blocks m new_computed_blocks
      else if map_of (num_cached_block m) rid = None
      then res_bind (py_assert (length (table m rid) = 0)) (\<lambda>_.
        Inr ((set_table rid (table m rid @ new_computed_blocks) m)
               \<lparr>num_cached_block := AList.update rid (int (length new_computed_blocks)) (num_cached_block m)\<rparr>))
      else res_bind (py_assert (length new_computed_blocks = 0)) (\<lambda>_. Inr m))"

definition mgr_allocate_new_blocks ::
    "kv_manager \<Rightarrow> block_pool \<Rightarrow> string \<Rightarrow> int \<Rightarrow> (bref list \<times> kv_manager \<times> block_pool) result" where
  "mgr_allocate_new_blocks m p rid n_tokens =
     res_bind (mgr_num_tokens m n_tokens) (\<lambda>n.
     res_bind (py_cdiv n (mgr_block_size m)) (\<lambda>num_required_blocks.
       let num_new_blocks = num_required_blocks - int (length (table m rid))
       in if num_new_blocks \<le> 0 then Inr ([], dd_touch rid m, p)
          else res_bind (get_new_blocks num_new_blocks p) (\<lambda>(new_blocks, p').
            Inr (new_blocks, set_table rid (table m rid @ new_blocks) m, p'))))"

definition cross_cache_blocks :: "(kv_manager \<times> block_pool) result" where
  [simp]: "cross_cache_blocks = Inl ValueError"

definition mgr_cache_blocks :: "kv_manager \<Rightarrow> block_pool \<Rightarrow> Request \<Rightarrow> int \<Rightarrow> (kv_manager \<times> block_pool) result" where
  "mgr_cache_blocks m p r n_tokens =
     (if mgr_class m = CrossAttentionManager then cross_cache_blocks
      else res_bind (py_floordiv n_tokens (mgr_block_size m)) (\<lambda>num_full_blocks.
        let num_cached_blocks = n_cached m (request_id r)
        in if num_cached_blocks \<ge> num_full_blocks then Inr (m, p)
           else res_bind (cache_full_blocks r (table m (request_id r)) num_cached_blocks num_full_blocks
                            (mgr_block_size m) (kv_cache_group_id m) p) (\<lambda>p'.
             Inr ((dd_touch (request_id r) m)
                    \<lparr>num_cached_block := AList.update (request_id r) num_full_blocks (num_cached_block m)\<rparr>, p'))))"

definition mgr_free :: "kv_manager \<Rightarrow> block_pool \<Rightarrow> string \<Rightarrow> (kv_manager \<times> block_pool) result" where
  "mgr_free m p rid =
     res_bind (free_blocks (rev (table m rid)) p) (\<lambda>p'.
       Inr (m\<lparr>req_to_blocks := AList.delete rid (req_to_blocks m),
              num_cached_block := AList.delete rid (num_cached_block m)\<rparr>, p'))"

text \<open>
  \<open>get_num_skipped_tokens\<close>; the sliding window and chunk size attributes are those of the format.
\<close>

definition sliding_num_skipped_tokens :: "int \<Rightarrow> int \<Rightarrow> int result" where
  [simp]: "sliding_num_skipped_tokens window n = Inr (n - window + 1)"

definition chunked_num_skipped_tokens :: "int \<Rightarrow> int \<Rightarrow> int result" where
  [simp]: "chunked_num_skipped_tokens chunk n = res_bind (py_floordiv n chunk) (\<lambda>k. Inr (k * chunk))"

definition get_num_skipped_tokens :: "kv_manager \<Rightarrow> int \<Rightarrow> int result" where
  "get_num_skipped_tokens m n =
     (case mgr_class m of
        SlidingWindowManager \<Rightarrow>
          (case kv_cache_spec m of
             SlidingWindowSpec _ window \<Rightarrow> sliding_num_skipped_tokens window n
           | _ \<Rightarrow> Inl AttributeError)
      | ChunkedLocalAttentionManager \<Rightarrow>
          (case kv_cache_spec m of
             ChunkedLocalAttentionSpec _ chunk \<Rightarrow> chunked_num_skipped_tokens chunk n
           | _ \<Rightarrow> Inl AttributeError)
      | _ \<Rightarrow> Inr 0)"

text \<open>
  The loop of \<open>remove_skipped_blocks\<close> from index \<open>n - 1\<close> down to 0: the blocks taken out, in this order,
  and the table with null blocks in their place. A block equals the null block only if it is the
  null block, since the block ids differ.
\<close>

fun skip_loop :: "bref \<Rightarrow> nat \<Rightarrow> bref list \<Rightarrow> bref list \<Rightarrow> (bref list \<times> bref list) result" where
  "skip_loop nb 0 bs removed = Inr (removed, bs)"
| "skip_loop nb (Suc i) bs removed =
     (if i \<ge> length bs then Inl IndexError
      else if bs ! i = nb then Inr (removed, bs)
      else skip_loop nb i (bs[i := nb]) (removed @ [bs ! i]))"

definition mgr_remove_skipped_blocks ::
    "kv_manager \<Rightarrow> block_pool \<Rightarrow> string \<Rightarrow> int \<Rightarrow> (kv_manager \<times> block_pool) result" where
  "mgr_remove_skipped_blocks m p rid n_computed =
     res_bind (get_num_skipped_tokens m n_computed) (\<lambda>num_skipped_tokens.
       if num_skipped_tokens \<le> 0 then Inr (m, p)
       else res_bind (py_floordiv num_skipped_tokens (mgr_block_size m)) (\<lambda>num_skipped_blocks.
            res_bind (skip_loop (mgr_null_block m) (nat num_skipped_blocks) (table m rid) []) (\<lambda>(removed_blocks, bs).
            res_bind (free_blocks removed_blocks p) (\<lambda>p'.
              Inr (set_table rid bs m, p')))))"

fun count_common :: "block_pool \<Rightarrow> int \<Rightarrow> bref list \<Rightarrow> int" where
  "count_common p n [] = 0"
| "count_common p n (b # bs) = (if ref_cnt (heap p b) = n then 1 + count_common p n bs else 0)"

definition mgr_get_num_common_prefix_blocks :: "kv_manager \<Rightarrow> block_pool \<Rightarrow> string \<Rightarrow> int \<times> kv_manager" where
  "mgr_get_num_common_prefix_blocks m p rid =
     (if mgr_class m = FullAttentionManager
      then let m' = dd_touch rid m
           in (count_common p (int (length (req_to_blocks m'))) (table m' rid), m')
      else (0, m))"

section \<open>Prefix cache lookups\<close>

text \<open>
  The list of block hashes is given by its elements at the granularity of the group. The lookups of a
  tuple of groups build one list of blocks per group. A lookup result is tested for truth, so an
  empty list of blocks counts as a miss.
\<close>

definition lookup :: "block_pool \<Rightarrow> bytes \<Rightarrow> int list \<Rightarrow> bref list option result" where
  "lookup p h gs = res_bind (get_cached_block p h gs) (\<lambda>res. Inr (if res = Some [] then None else res))"

definition first_group :: "bref list list \<Rightarrow> bref list result" where
  "first_group computed = (case computed of [] \<Rightarrow> Inl IndexError | c # _ \<Rightarrow> Inr c)"

definition pop_all :: "bref list list \<Rightarrow> bref list list" where
  "pop_all computed = map butlast computed"

fun append_hits :: "bref list list \<Rightarrow> bref list \<Rightarrow> bref list list" where
  "append_hits computed hits = map2 (\<lambda>c b. c @ [b]) computed hits"

fun prefix_hit_loop :: "block_pool \<Rightarrow> int list \<Rightarrow> bytes list \<Rightarrow> bref list list \<Rightarrow> bref list list result" where
  "prefix_hit_loop p gs [] computed = Inr computed"
| "prefix_hit_loop p gs (h # hs) computed =
     res_bind (lookup p h gs) (\<lambda>res.
       case res of
         None \<Rightarrow> Inr computed
       | Some hits \<Rightarrow> prefix_hit_loop p gs hs (append_hits computed hits))"

text \<open>Dropping blocks until the length of the hit in tokens is a multiple of the alignment.\<close>

function align_loop :: "int \<Rightarrow> int \<Rightarrow> bref list list \<Rightarrow> bref list list result" where
  "align_loop bs alignment computed =
     (if bs = alignment then Inr computed
      else res_bind (first_group computed) (\<lambda>c.
           res_bind (py_mod (int (length c) * bs) alignment) (\<lambda>k.
             if k \<noteq> 0 \<and> c \<noteq> [] then align_loop bs alignment (pop_all computed) else Inr computed)))"
  by pat_completeness auto
termination
proof (relation "measure (\<lambda>(bs, alignment, computed). case computed of [] \<Rightarrow> 0 | c # _ \<Rightarrow> length c)")
  show "((bs, alignment, pop_all computed), bs, alignment, computed)
      \<in> measure (\<lambda>(bs, alignment, computed). case computed of [] \<Rightarrow> 0 | c # _ \<Rightarrow> length c)"
    if "k \<noteq> 0 \<and> c \<noteq> []" "first_group computed = Inr c" for bs alignment computed c k
    using that by (cases computed) (auto simp: first_group_def pop_all_def)
qed simp

declare align_loop.simps [simp del]

definition full_spec_ok :: "KVCacheSpec \<Rightarrow> bool" where
  "full_spec_ok spec \<longleftrightarrow> is_full_attention_spec spec \<or> (case spec of ChunkedLocalAttentionSpec _ _ \<Rightarrow> True | _ \<Rightarrow> False)"

text \<open>A negative stop argument of \<open>itertools.islice\<close> raises \<open>ValueError\<close>.\<close>

definition full_find_longest_cache_hit ::
    "bytes list \<Rightarrow> int \<Rightarrow> int list \<Rightarrow> block_pool \<Rightarrow> KVCacheSpec \<Rightarrow> bool \<Rightarrow> int \<Rightarrow> int \<Rightarrow> int \<Rightarrow> bref list list result" where
  "full_find_longest_cache_hit hs max_length gs p spec use_eagle alignment_tokens dcp pcp =
     res_bind (py_assert (full_spec_ok spec)) (\<lambda>_.
       let bs = group_block_size spec dcp pcp
       in res_bind (py_floordiv max_length bs) (\<lambda>max_num_blocks.
          if max_num_blocks < 0 then Inl ValueError
          else
            res_bind (prefix_hit_loop p gs (take (nat max_num_blocks) hs) (replicate (length gs) [])) (\<lambda>computed.
            res_bind (if use_eagle
                      then res_bind (first_group computed) (\<lambda>c. Inr (if c \<noteq> [] then pop_all computed else computed))
                      else Inr computed) (\<lambda>computed.
              align_loop bs alignment_tokens computed))))"

text \<open>
  The search of the sliding window lookup from right to left: at entry with argument \<open>i + 1\<close> block \<open>i\<close> is
  looked up. The loop returns the lists, the number of contiguous hits and whether enough of them
  were found.
\<close>

fun window_loop ::
    "block_pool \<Rightarrow> int list \<Rightarrow> bytes list \<Rightarrow> int \<Rightarrow> int \<Rightarrow> int \<Rightarrow> nat \<Rightarrow> bref list list \<Rightarrow> int \<Rightarrow>
     (bref list list \<times> int \<times> bool) result" where
  "window_loop p gs hs bs alignment needed 0 computed contiguous = Inr (computed, contiguous, False)"
| "window_loop p gs hs bs alignment needed (Suc i) computed contiguous =
     (if i \<ge> length hs then Inl IndexError
      else res_bind (lookup p (hs ! i) gs) (\<lambda>res.
        case res of
          None \<Rightarrow> window_loop p gs hs bs alignment needed i computed 0
        | Some hits \<Rightarrow>
            res_bind (if contiguous = 0 \<and> bs \<noteq> alignment
                      then res_bind (py_mod ((int i + 1) * bs) alignment) (\<lambda>k. Inr (k \<noteq> 0))
                      else Inr False) (\<lambda>skip.
              if skip then window_loop p gs hs bs alignment needed i computed contiguous
              else
                let computed = map2 (\<lambda>c b. c[i := b]) computed hits; contiguous = contiguous + 1
                in if contiguous \<ge> needed
                   then Inr (map (take (i + nat contiguous)) computed, contiguous, True)
                   else window_loop p gs hs bs alignment needed i computed contiguous)))"

definition sliding_find_longest_cache_hit ::
    "bytes list \<Rightarrow> int \<Rightarrow> int list \<Rightarrow> block_pool \<Rightarrow> KVCacheSpec \<Rightarrow> bool \<Rightarrow> int \<Rightarrow> int \<Rightarrow> int \<Rightarrow> bref list list result" where
  "sliding_find_longest_cache_hit hs max_length gs p spec use_eagle alignment_tokens dcp pcp =
     (case spec of
        SlidingWindowSpec a window \<Rightarrow>
          res_bind (py_assert (dcp = 1)) (\<lambda>_.
          res_bind (py_assert (pcp = 1)) (\<lambda>_.
          res_bind (py_cdiv (window - 1) (as_block_size a)) (\<lambda>contiguous_blocks.
            let bs = as_block_size a; needed = (if use_eagle then contiguous_blocks + 1 else contiguous_blocks)
            in res_bind (py_floordiv max_length bs) (\<lambda>max_num_blocks.
               res_bind (window_loop p gs hs bs alignment_tokens needed (nat max_num_blocks)
                           (replicate (length gs) (replicate (nat max_num_blocks) (null_block p))) 0)
                 (\<lambda>(computed, contiguous, match_found).
               res_bind (if match_found then Inr computed
                         else align_loop bs alignment_tokens (map (take (nat contiguous)) computed)) (\<lambda>computed.
               if use_eagle
               then res_bind (first_group computed) (\<lambda>c.
                      if c \<noteq> [] then res_bind (py_assert (bs = alignment_tokens)) (\<lambda>_. Inr (pop_all computed))
                      else Inr computed)
               else Inr computed))))))
      | _ \<Rightarrow> Inl AssertionError)"

fun chunk_hit_loop :: "block_pool \<Rightarrow> int list \<Rightarrow> bytes list \<Rightarrow> nat list \<Rightarrow> bref list list \<Rightarrow> bref list list result" where
  "chunk_hit_loop p gs hs [] computed = Inr computed"
| "chunk_hit_loop p gs hs (i # is) computed =
     (if i \<ge> length hs then Inl IndexError
      else res_bind (lookup p (hs ! i) gs) (\<lambda>res.
        case res of
          None \<Rightarrow> Inr computed
        | Some hits \<Rightarrow> chunk_hit_loop p gs hs is (append_hits computed hits)))"

definition chunked_find_longest_cache_hit ::
    "bytes list \<Rightarrow> int \<Rightarrow> int list \<Rightarrow> block_pool \<Rightarrow> KVCacheSpec \<Rightarrow> bool \<Rightarrow> int \<Rightarrow> int \<Rightarrow> int \<Rightarrow> bref list list result" where
  "chunked_find_longest_cache_hit hs max_length gs p spec use_eagle alignment_tokens dcp pcp =
     (case spec of
        ChunkedLocalAttentionSpec a chunk \<Rightarrow>
          res_bind (py_assert (\<not> use_eagle)) (\<lambda>_.
          res_bind (py_assert (dcp = 1)) (\<lambda>_.
          res_bind (py_assert (pcp = 1)) (\<lambda>_.
          res_bind (py_assert (as_block_size a = alignment_tokens)) (\<lambda>_.
          res_bind (py_floordiv max_length (as_block_size a)) (\<lambda>max_num_blocks.
          res_bind (if max_length > 0 then res_bind (py_floordiv max_length chunk) (\<lambda>k. Inr (k * chunk)) else Inr 0) (\<lambda>start.
          res_bind (py_floordiv start (as_block_size a)) (\<lambda>start_block.
            chunk_hit_loop p gs hs [nat start_block..<nat max_num_blocks]
              (replicate (length gs) (replicate (nat start_block) (null_block p))))))))))
      | _ \<Rightarrow> Inl AssertionError)"

fun mamba_loop ::
    "block_pool \<Rightarrow> int list \<Rightarrow> bytes list \<Rightarrow> int \<Rightarrow> int \<Rightarrow> nat \<Rightarrow> bref list list \<Rightarrow> bref list list result" where
  "mamba_loop p gs hs bs alignment 0 computed = Inr computed"
| "mamba_loop p gs hs bs alignment (Suc i) computed =
     (if i \<ge> length hs then Inl IndexError
      else res_bind (lookup p (hs ! i) gs) (\<lambda>res.
        case res of
          None \<Rightarrow> mamba_loop p gs hs bs alignment i computed
        | Some hits \<Rightarrow>
            res_bind (if bs \<noteq> alignment then res_bind (py_mod ((int i + 1) * bs) alignment) (\<lambda>k. Inr (k \<noteq> 0)) else Inr False)
              (\<lambda>skip.
                if skip then mamba_loop p gs hs bs alignment i computed
                else Inr (map2 (\<lambda>c b. c @ replicate i (null_block p) @ [b]) computed hits))))"

definition mamba_find_longest_cache_hit ::
    "bytes list \<Rightarrow> int \<Rightarrow> int list \<Rightarrow> block_pool \<Rightarrow> KVCacheSpec \<Rightarrow> bool \<Rightarrow> int \<Rightarrow> int \<Rightarrow> int \<Rightarrow> bref list list result" where
  "mamba_find_longest_cache_hit hs max_length gs p spec use_eagle alignment_tokens dcp pcp =
     (case spec of
        MambaSpec bs _ _ _ _ _ \<Rightarrow>
          res_bind (py_assert (dcp = 1)) (\<lambda>_.
          res_bind (py_assert (pcp = 1)) (\<lambda>_.
          res_bind (py_floordiv max_length bs) (\<lambda>max_num_blocks.
            mamba_loop p gs hs bs alignment_tokens (nat max_num_blocks) (replicate (length gs) []))))
      | _ \<Rightarrow> Inl AssertionError)"

definition cross_find_longest_cache_hit ::
    "bytes list \<Rightarrow> int \<Rightarrow> int list \<Rightarrow> block_pool \<Rightarrow> KVCacheSpec \<Rightarrow> bool \<Rightarrow> int \<Rightarrow> int \<Rightarrow> int \<Rightarrow> bref list list result" where
  "cross_find_longest_cache_hit hs max_length gs p spec use_eagle alignment_tokens dcp pcp =
     (case spec of CrossAttentionSpec _ \<Rightarrow> Inl NotImplementedError | _ \<Rightarrow> Inl AssertionError)"

fun find_longest_cache_hit ::
    "manager_class \<Rightarrow> bytes list \<Rightarrow> int \<Rightarrow> int list \<Rightarrow> block_pool \<Rightarrow> KVCacheSpec \<Rightarrow> bool \<Rightarrow> int \<Rightarrow> int \<Rightarrow> int \<Rightarrow>
     bref list list result" where
  "find_longest_cache_hit FullAttentionManager = full_find_longest_cache_hit"
| "find_longest_cache_hit SlidingWindowManager = sliding_find_longest_cache_hit"
| "find_longest_cache_hit ChunkedLocalAttentionManager = chunked_find_longest_cache_hit"
| "find_longest_cache_hit MambaManager = mamba_find_longest_cache_hit"
| "find_longest_cache_hit CrossAttentionManager = cross_find_longest_cache_hit"

end
