(* ===== verification/Prefix_Cache_Lookup.thy ===== *)
theory Prefix_Cache_Lookup
  imports Single_Type_Manager
begin

text \<open>
  Correctness of the prefix cache lookups of the block managers: what a returned list of blocks
  contains, that it suffices for the attention of the next token, and that the full attention
  lookup returns the longest hit.
\<close>

section \<open>Soundness of the lookups\<close>

definition good :: "block_pool \<Rightarrow> int list \<Rightarrow> bytes list \<Rightarrow> nat \<Rightarrow> nat \<Rightarrow> bref \<Rightarrow> bool" where
  "good p gs hs j i b \<longleftrightarrow> b \<in> pool_blocks p \<and> b \<noteq> Blk 0 \<and> bh p b = Some (gkey (gs ! j) (hs ! i))"

definition hit :: "block_pool \<Rightarrow> int list \<Rightarrow> bytes \<Rightarrow> bool" where
  "hit p gs h \<longleftrightarrow> (\<forall>g \<in> set gs. \<exists>b \<in> pool_blocks p. bh p b = Some (gkey g h))"

text \<open>
  One list of length \<open>n\<close> per group; entry \<open>i\<close> is the null block or a block that holds hash \<open>i\<close> of its
  group, and the latter wherever \<open>P i\<close>.
\<close>

definition mat :: "block_pool \<Rightarrow> int list \<Rightarrow> bytes list \<Rightarrow> nat \<Rightarrow> (nat \<Rightarrow> bool) \<Rightarrow> bref list list \<Rightarrow> bool" where
  "mat p gs hs n P computed \<longleftrightarrow> length computed = length gs \<and>
     (\<forall>j<length gs. length (computed ! j) = n \<and>
        (\<forall>i<n. (computed ! j ! i = Blk 0 \<or> good p gs hs j i (computed ! j ! i)) \<and>
               (P i \<longrightarrow> good p gs hs j i (computed ! j ! i))))"

definition groups_ok :: "int list \<Rightarrow> bool" where
  "groups_ok gs \<longleftrightarrow> gs \<noteq> [] \<and> (\<forall>g \<in> set gs. group_ok g)"

lemma lookup_cases:
  assumes "pool_inv p free" "groups_ok gs"
  obtains (miss) "lookup p h gs = Inr None" "\<not> hit p gs h"
    | (hit) hits where "lookup p h gs = Inr (Some hits)" "hit p gs h" "length hits = length gs"
        "\<forall>j<length gs. hits ! j \<in> pool_blocks p \<and> hits ! j \<noteq> Blk 0 \<and> bh p (hits ! j) = Some (gkey (gs ! j) h)"
proof -
  have g: "\<forall>g \<in> set gs. group_ok g" "gs \<noteq> []" using assms(2) by (auto simp: groups_ok_def)
  from get_cached_block_spec[OF assms(1) g(1), of h] obtain res where
    r: "get_cached_block p h gs = Inr res"
      "case res of None \<Rightarrow> \<exists>g\<in>set gs. \<forall>b\<in>pool_blocks p. bh p b \<noteq> Some (gkey g h)
       | Some bs \<Rightarrow> list_all2 (\<lambda>g b. b \<in> pool_blocks p \<and> bh p b = Some (gkey g h)) gs bs"
    by blast
  show ?thesis
  proof (cases res)
    case None
    then show ?thesis using r miss by (auto simp: lookup_def hit_def)
  next
    case (Some hits)
    then have l: "list_all2 (\<lambda>g b. b \<in> pool_blocks p \<and> bh p b = Some (gkey g h)) gs hits" using r(2) by simp
    have len: "length hits = length gs" using list_all2_lengthD[OF l] by simp
    have n: "\<forall>j<length gs. hits ! j \<in> pool_blocks p \<and> bh p (hits ! j) = Some (gkey (gs ! j) h)"
      using list_all2_nthD[OF l] by simp
    then have "\<forall>j<length gs. hits ! j \<noteq> Blk 0" using pool_invD(6)[OF assms(1)] by (metis option.distinct(1))
    moreover have "hit p gs h" unfolding hit_def
    proof
      fix g assume "g \<in> set gs"
      then obtain j where "j < length gs" "gs ! j = g" unfolding in_set_conv_nth by blast
      then show "\<exists>b \<in> pool_blocks p. bh p b = Some (gkey g h)" using n by blast
    qed
    moreover have "hits \<noteq> []" using len g(2) by auto
    ultimately show ?thesis using hit[of hits] r(1) Some len n by (simp add: lookup_def)
  qed
qed

lemma mat_mono: "mat p gs hs n P c \<Longrightarrow> (\<And>i. i < n \<Longrightarrow> Q i \<Longrightarrow> P i) \<Longrightarrow> mat p gs hs n Q c"
  by (simp add: mat_def)

lemma mat_take: "mat p gs hs n P c \<Longrightarrow> k \<le> n \<Longrightarrow> mat p gs hs k P (map (take k) c)"
  by (simp add: mat_def)

lemma mat_pop: "mat p gs hs n P c \<Longrightarrow> mat p gs hs (n - 1) P (pop_all c)"
  by (simp add: mat_def pop_all_def nth_butlast)

lemma mat_pop_take: "mat p gs hs n P c \<Longrightarrow> pop_all c = map (take (n - 1)) c"
  by (rule nth_equalityI) (auto simp: mat_def pop_all_def butlast_conv_take)

lemma mat_first: "mat p gs hs n P c \<Longrightarrow> gs \<noteq> [] \<Longrightarrow> \<exists>x. first_group c = Inr x \<and> length x = n"
  by (cases c) (auto simp: mat_def first_group_def)

lemma mat_append:
  assumes "mat p gs hs n P c" "length hits = length gs"
    "\<forall>j<length gs. hits ! j \<in> pool_blocks p \<and> hits ! j \<noteq> Blk 0 \<and> bh p (hits ! j) = Some (gkey (gs ! j) (hs ! n))"
  shows "mat p gs hs (Suc n) (\<lambda>i. P i \<or> i = n) (append_hits c hits)"
  using assms by (auto simp: mat_def good_def nth_append less_Suc_eq)

lemma mat_put:
  assumes "mat p gs hs n P c" "length hits = length gs" "k < n"
    "\<forall>j<length gs. hits ! j \<in> pool_blocks p \<and> hits ! j \<noteq> Blk 0 \<and> bh p (hits ! j) = Some (gkey (gs ! j) (hs ! k))"
  shows "mat p gs hs n (\<lambda>i. P i \<or> i = k) (map2 (\<lambda>c b. c[k := b]) c hits)"
  using assms by (auto simp: mat_def good_def nth_list_update)

lemma mat_empty: "mat p gs hs 0 P (replicate (length gs) [])"
  by (simp add: mat_def)

lemma mat_nulls: "null_block p = Blk 0 \<Longrightarrow> mat p gs hs n (\<lambda>_. False) (replicate (length gs) (replicate n (null_block p)))"
  by (simp add: mat_def)

lemma align_loop_spec:
  assumes "mat p gs hs n P c" "gs \<noteq> []" "0 < alignment"
  shows "\<exists>k\<le>n. align_loop bs alignment c = Inr (map (take k) c) \<and> (int k * bs) mod alignment = 0 \<and>
    (\<forall>l. k < l \<and> l \<le> n \<longrightarrow> (int l * bs) mod alignment \<noteq> 0)"
  using assms(1)
proof (induction n arbitrary: c)
  case 0
  obtain x where x: "first_group c = Inr x" "x = []" using mat_first[OF 0 assms(2)] by auto
  have "map (take 0) c = c" using 0 by (intro nth_equalityI) (auto simp: mat_def)
  then have "align_loop bs alignment c = Inr (map (take 0) c)"
    using x assms(3) by (subst align_loop.simps) simp
  then show ?case by (intro exI[of _ 0]) auto
next
  case (Suc n)
  obtain x where x: "first_group c = Inr x" "length x = Suc n" using mat_first[OF Suc.prems assms(2)] by auto
  have all: "map (take (Suc n)) c = c" using Suc.prems by (intro nth_equalityI) (auto simp: mat_def)
  show ?case
  proof (cases "bs = alignment \<or> (int (Suc n) * bs) mod alignment = 0")
    case True
    then have "align_loop bs alignment c = Inr (map (take (Suc n)) c)"
      using x assms(3) all by (subst align_loop.simps) auto
    then show ?thesis using True by (intro exI[of _ "Suc n"]) auto
  next
    case False
    then have step: "align_loop bs alignment c = align_loop bs alignment (pop_all c)"
      using x assms(3) by (subst align_loop.simps) auto
    have "mat p gs hs n P (pop_all c)" using mat_pop[OF Suc.prems] by simp
    from Suc.IH[OF this] obtain k where k: "k \<le> n" "align_loop bs alignment (pop_all c) = Inr (map (take k) (pop_all c))"
      "(int k * bs) mod alignment = 0" "\<forall>l. k < l \<and> l \<le> n \<longrightarrow> (int l * bs) mod alignment \<noteq> 0"
      by (elim exE conjE) (rule that; assumption)
    have "map (take k) (pop_all c) = map (take k) c"
      using k(1) mat_pop_take[OF Suc.prems] by (simp add: min_def)
    then have "align_loop bs alignment c = Inr (map (take k) c)" unfolding step k(2) by simp
    moreover have "(int l * bs) mod alignment \<noteq> 0" if l: "k < l" "l \<le> Suc n" for l
    proof (cases "l = Suc n")
      case True
      then show ?thesis using False by simp
    next
      case False
      then show ?thesis using k(4) l by simp
    qed
    moreover have "k \<le> Suc n" using k(1) by simp
    ultimately show ?thesis using k(3) by (intro exI[of _ k]) simp
  qed
qed

text \<open>Full attention: the hits form the longest prefix of hits.\<close>

lemma prefix_hit_loop_spec:
  assumes inv: "pool_inv p free" and gs: "groups_ok gs"
    and "mat p gs hs n (\<lambda>_. True) c" "drop n hs = rest @ tl_hs" "n + length rest \<le> length hs"
  shows "\<exists>c'. prefix_hit_loop p gs rest c = Inr c' \<and>
    mat p gs hs (n + length (takeWhile (hit p gs) rest)) (\<lambda>_. True) c'"
  using assms(3-5)
proof (induction rest arbitrary: c n)
  case (Cons h rest)
  have h: "hs ! n = h" using Cons.prems(2,3) by (metis Cons_nth_drop_Suc append_Cons length_Cons less_add_Suc1 list.inject
      order_less_le_trans add_Suc_right)
  show ?case
  proof (cases rule: lookup_cases[OF inv gs, of h])
    case miss: 1
    then show ?thesis using Cons.prems(1) by simp
  next
    case hit: (2 hits)
    have m: "mat p gs hs (Suc n) (\<lambda>_. True) (append_hits c hits)"
      by (rule mat_mono[OF mat_append[OF Cons.prems(1) hit(3)]]) (use hit(4) h in auto)
    have "drop (Suc n) hs = rest @ tl_hs" using Cons.prems(2) by (metis append_Cons drop_Suc list.sel(3) tl_drop)
    from Cons.IH[OF m this] Cons.prems(3) hit(1,2) show ?thesis by simp
  qed
qed simp

definition hit_length :: "block_pool \<Rightarrow> int list \<Rightarrow> bytes list \<Rightarrow> nat" where
  "hit_length p gs hs = length (takeWhile (hit p gs) hs)"

lemma full_hit_spec:
  fixes hs :: "bytes list" and use_eagle :: bool
  assumes inv: "pool_inv p free" and gs: "groups_ok gs" and spec: "full_spec_ok spec"
    and bs: "0 < group_block_size spec dcp pcp" and al: "0 < alignment" and ml: "0 \<le> max_length"
  defines "b \<equiv> group_block_size spec dcp pcp"
  defines "l \<equiv> hit_length p gs (take (nat (max_length div b)) hs) - (if use_eagle then 1 else 0)"
  shows "\<exists>c k. full_find_longest_cache_hit hs max_length gs p spec use_eagle alignment dcp pcp = Inr c \<and>
    mat p gs hs k (\<lambda>_. True) c \<and> k \<le> l \<and> (int k * b) mod alignment = 0 \<and>
    (\<forall>k'. k < k' \<and> k' \<le> l \<longrightarrow> (int k' * b) mod alignment \<noteq> 0)"
proof -
  define rest where "rest = take (nat (max_length div b)) hs"
  have "\<exists>c'. prefix_hit_loop p gs rest (replicate (length gs) []) = Inr c' \<and>
      mat p gs hs (0 + length (takeWhile (hit p gs) rest)) (\<lambda>_. True) c'"
    by (rule prefix_hit_loop_spec[OF inv gs mat_empty, where tl_hs = "drop (nat (max_length div b)) hs"])
      (simp_all add: rest_def)
  then obtain c0 where c0: "prefix_hit_loop p gs rest (replicate (length gs) []) = Inr c0"
    "mat p gs hs (hit_length p gs rest) (\<lambda>_. True) c0" by (auto simp: hit_length_def)
  have g: "gs \<noteq> []" using gs by (simp add: groups_ok_def)
  define c1 where "c1 = (if use_eagle then pop_all c0 else c0)"
  have m1: "mat p gs hs l (\<lambda>_. True) c1"
    using c0(2) mat_pop[OF c0(2)] by (auto simp: c1_def l_def rest_def)
  obtain x where x: "first_group c0 = Inr x" "length x = hit_length p gs rest" using mat_first[OF c0(2) g] by blast
  have "pop_all c0 = c0" if "x = []"
    using c0(2) x(2) that by (intro nth_equalityI) (auto simp: mat_def pop_all_def)
  then have e: "(if use_eagle then res_bind (first_group c0) (\<lambda>c. Inr (if c \<noteq> [] then pop_all c0 else c0)) else Inr c0) = (Inr c1 :: _ result)"
    using x(1) by (auto simp: c1_def)
  obtain k where k: "k \<le> l" "align_loop b alignment c1 = Inr (map (take k) c1)" "(int k * b) mod alignment = 0"
    "\<forall>l'. k < l' \<and> l' \<le> l \<longrightarrow> (int l' * b) mod alignment \<noteq> 0"
    using align_loop_spec[OF m1 g al, of b] by (elim exE conjE) (rule that; assumption)
  have "\<not> max_length div b < 0" using ml bs by (simp add: b_def pos_imp_zdiv_neg_iff)
  then have "full_find_longest_cache_hit hs max_length gs p spec use_eagle alignment dcp pcp = Inr (map (take k) c1)"
    using spec bs c0(1) k(2) e unfolding full_find_longest_cache_hit_def Let_def b_def rest_def by simp
  then show ?thesis
    using mat_take[OF m1 k(1)] k(1,3,4) by (intro exI[of _ "map (take k) c1"] exI[of _ k]) simp
qed

text \<open>Sliding window: the run of contiguous hits at the end is long enough or starts at block 0.\<close>

lemma window_loop_spec:
  assumes inv: "pool_inv p free" and gs: "groups_ok gs" and al: "0 < alignment"
    and "mat p gs hs n P c" "\<And>i. m \<le> i \<Longrightarrow> i < m + k \<Longrightarrow> P i" "m + k \<le> n" "m \<le> length hs"
      "0 < k \<longrightarrow> (int (m + k) * bs) mod alignment = 0"
  shows "\<exists>c' k' found. window_loop p gs hs bs alignment needed m c (int k) = Inr (c', int k', found) \<and>
    (if found then \<exists>e. e \<le> n \<and> k' \<le> e \<and> needed \<le> int k' \<and> (int e * bs) mod alignment = 0 \<and>
         mat p gs hs e (\<lambda>i. e - k' \<le> i) c'
     else k' \<le> n \<and> mat p gs hs n (\<lambda>i. i < k') c')"
  using assms(4-8)
proof (induction m arbitrary: c k P)
  case 0
  then show ?case by (intro exI[of _ c] exI[of _ k] exI[of _ False]) (auto intro: mat_mono)
next
  case (Suc i)
  show ?case
  proof (cases rule: lookup_cases[OF inv gs, of "hs ! i"])
    case miss: 1
    have "\<exists>c' k' found. window_loop p gs hs bs alignment needed i c (int 0) = Inr (c', int k', found) \<and>
      (if found then \<exists>e. e \<le> n \<and> k' \<le> e \<and> needed \<le> int k' \<and> (int e * bs) mod alignment = 0 \<and>
         mat p gs hs e (\<lambda>i. e - k' \<le> i) c' else k' \<le> n \<and> mat p gs hs n (\<lambda>i. i < k') c')"
      by (rule Suc.IH[OF Suc.prems(1)]) (use Suc.prems in auto)
    then show ?thesis using miss(1) Suc.prems(4) by simp
  next
    case hit: (2 hits)
    have sk: "(if int k = 0 \<and> bs \<noteq> alignment then res_bind (py_mod ((int i + 1) * bs) alignment) (\<lambda>k. Inr (k \<noteq> 0)) else Inr False) =
      (Inr (k = 0 \<and> bs \<noteq> alignment \<and> ((int i + 1) * bs) mod alignment \<noteq> 0) :: bool result)"
      using al by simp
    show ?thesis
    proof (cases "k = 0 \<and> bs \<noteq> alignment \<and> ((int i + 1) * bs) mod alignment \<noteq> 0")
      case True
      have "\<exists>c' k' found. window_loop p gs hs bs alignment needed i c (int k) = Inr (c', int k', found) \<and>
        (if found then \<exists>e. e \<le> n \<and> k' \<le> e \<and> needed \<le> int k' \<and> (int e * bs) mod alignment = 0 \<and>
           mat p gs hs e (\<lambda>i. e - k' \<le> i) c' else k' \<le> n \<and> mat p gs hs n (\<lambda>i. i < k') c')"
        by (rule Suc.IH[OF Suc.prems(1)]) (use Suc.prems True in auto)
      then show ?thesis using hit(1) Suc.prems(4) sk True by simp
    next
      case False
      define c1 where "c1 = map2 (\<lambda>c b. c[i := b]) c hits"
      have m1: "mat p gs hs n (\<lambda>l. P l \<or> l = i) c1"
        unfolding c1_def by (rule mat_put[OF Suc.prems(1) hit(3) _ hit(4)]) (use Suc.prems(3) in simp)
      have pk: "P l \<or> l = i" if "i \<le> l" "l < i + Suc k" for l
        using Suc.prems(2)[of l] that by (cases "l = i") auto
      have end_al: "(int (i + Suc k) * bs) mod alignment = 0"
        using False Suc.prems(5) by (cases "k = 0") (auto simp: add.commute)
      have st: "window_loop p gs hs bs alignment needed (Suc i) c (int k) =
        (if needed \<le> int (Suc k) then Inr (map (take (i + Suc k)) c1, int (Suc k), True)
         else window_loop p gs hs bs alignment needed i c1 (int (Suc k)))"
      proof (cases "k = 0 \<and> bs \<noteq> alignment")
        case True
        then have "((int i + 1) * bs) mod alignment = 0" using False by blast
        then show ?thesis using True hit(1) Suc.prems(4) al by (simp add: Let_def c1_def)
      next
        case False
        then show ?thesis
          using hit(1) Suc.prems(4) by (cases "k = 0") (simp_all add: Let_def c1_def nat_add_distrib add.commute)
      qed
      show ?thesis
      proof (cases "needed \<le> int (Suc k)")
        case True
        have "mat p gs hs (i + Suc k) (\<lambda>l. i + Suc k - Suc k \<le> l) (map (take (i + Suc k)) c1)"
          by (rule mat_mono[OF mat_take[OF m1]]) (use pk Suc.prems(3) in auto)
        then have "\<exists>e. e \<le> n \<and> Suc k \<le> e \<and> needed \<le> int (Suc k) \<and> (int e * bs) mod alignment = 0 \<and>
            mat p gs hs e (\<lambda>l. e - Suc k \<le> l) (map (take (i + Suc k)) c1)"
          using end_al True Suc.prems(3) by (intro exI[of _ "i + Suc k"]) auto
        then show ?thesis
          using st True by (intro exI[of _ "map (take (i + Suc k)) c1"] exI[of _ "Suc k"] exI[of _ True]) simp
      next
        case nf: False
        have "\<exists>c' k' found. window_loop p gs hs bs alignment needed i c1 (int (Suc k)) = Inr (c', int k', found) \<and>
          (if found then \<exists>e. e \<le> n \<and> k' \<le> e \<and> needed \<le> int k' \<and> (int e * bs) mod alignment = 0 \<and>
             mat p gs hs e (\<lambda>i. e - k' \<le> i) c' else k' \<le> n \<and> mat p gs hs n (\<lambda>i. i < k') c')"
          by (rule Suc.IH[OF m1 pk]) (use Suc.prems(3,4) end_al in auto)
        then show ?thesis unfolding st using nf by simp
      qed
    qed
  qed
qed

text \<open>
  \<open>first_token spec n\<close>: the first token that the attention of the next token, at position \<open>n\<close>, reads.
  A block is needed if it reaches past that token. Linear attention reads only the state after the
  last token.
\<close>

fun first_token :: "KVCacheSpec \<Rightarrow> int \<Rightarrow> int" where
  "first_token (SlidingWindowSpec a window) n = n - (window - 1)"
| "first_token (ChunkedLocalAttentionSpec a chunk) n = n div chunk * chunk"
| "first_token (MambaSpec bs shapes dtypes padded ty k) n = n - 1"
| "first_token spec n = 0"

definition needed_block :: "KVCacheSpec \<Rightarrow> int \<Rightarrow> nat \<Rightarrow> nat \<Rightarrow> bool" where
  "needed_block spec bs k i \<longleftrightarrow> first_token spec (int k * bs) < (int i + 1) * bs"

lemma block_end_le: "0 < bs \<Longrightarrow> i < k \<Longrightarrow> (int i + 1) * bs \<le> int k * bs"
  by (simp add: mult_right_mono)

lemma int_blocks_le:
  assumes "0 < bs" "int k \<le> max_length div bs" shows "int k * bs \<le> max_length"
  using assms int_le_div_iff by blast

lemma needed_window:
  assumes "0 < bs" "cdiv (window - 1) bs \<le> int m" "needed_block (SlidingWindowSpec a window) bs k i"
  shows "k - m \<le> i"
proof (rule ccontr)
  assume "\<not> k - m \<le> i"
  then have "int i + 1 \<le> int k - int m" by linarith
  then have "(int i + 1) * bs \<le> int k * bs - int m * bs"
    using assms(1) mult_right_mono[of "int i + 1" "int k - int m" bs] by (simp add: left_diff_distrib)
  moreover have "window - 1 \<le> int m * bs" using assms(1,2) cdiv_le_iff by blast
  ultimately show False using assms(3) by (simp add: needed_block_def)
qed

lemma window_align_spec:
  assumes inv: "pool_inv p free" and gs: "groups_ok gs" and al: "0 < alignment" and bs: "0 < bs"
    and n: "n \<le> length hs"
  shows "\<exists>c k m. res_bind (window_loop p gs hs bs alignment needed n (replicate (length gs) (replicate n (null_block p))) 0)
      (\<lambda>(computed, contiguous, match_found).
        if match_found then Inr computed else align_loop bs alignment (map (take (nat contiguous)) computed)) = Inr c \<and>
    k \<le> n \<and> (int k * bs) mod alignment = 0 \<and> (needed \<le> int m \<or> k \<le> m) \<and> mat p gs hs k (\<lambda>i. k - m \<le> i) c"
proof -
  have nb: "null_block p = Blk 0" using pool_invD(7)[OF inv] by (simp add: pool_shape_def)
  have gs_ne: "gs \<noteq> []" using gs by (simp add: groups_ok_def)
  have "\<exists>c' k' found. window_loop p gs hs bs alignment needed n (replicate (length gs) (replicate n (null_block p))) (int 0) =
      Inr (c', int k', found) \<and>
    (if found then \<exists>e. e \<le> n \<and> k' \<le> e \<and> needed \<le> int k' \<and> (int e * bs) mod alignment = 0 \<and>
         mat p gs hs e (\<lambda>i. e - k' \<le> i) c'
     else k' \<le> n \<and> mat p gs hs n (\<lambda>i. i < k') c')"
    by (rule window_loop_spec[OF inv gs al mat_nulls[OF nb]]) (use n in simp_all)
  then obtain c' k' found where w: "window_loop p gs hs bs alignment needed n (replicate (length gs) (replicate n (null_block p))) (int 0) =
      Inr (c', int k', found)"
    "if found then \<exists>e. e \<le> n \<and> k' \<le> e \<and> needed \<le> int k' \<and> (int e * bs) mod alignment = 0 \<and>
         mat p gs hs e (\<lambda>i. e - k' \<le> i) c'
     else k' \<le> n \<and> mat p gs hs n (\<lambda>i. i < k') c'"
    by (elim exE conjE) (rule that; assumption)
  show ?thesis
  proof (cases found)
    case True
    then obtain e where "e \<le> n" "needed \<le> int k'" "(int e * bs) mod alignment = 0" "mat p gs hs e (\<lambda>i. e - k' \<le> i) c'"
      using w(2) by auto
    then show ?thesis using w(1) True by (intro exI[of _ c'] exI[of _ e] exI[of _ k']) simp
  next
    case False
    then have kn: "k' \<le> n" and "mat p gs hs n (\<lambda>i. i < k') c'" using w(2) by simp_all
    then have m: "mat p gs hs k' (\<lambda>i. i < k') (map (take k') c')" using mat_take by blast
    obtain k where k: "k \<le> k'" "align_loop bs alignment (map (take k') c') = Inr (map (take k) (map (take k') c'))"
      "(int k * bs) mod alignment = 0"
      using align_loop_spec[OF m gs_ne al, of bs] by (elim exE conjE) (rule that; assumption)
    have "mat p gs hs k (\<lambda>i. k - k' \<le> i) (map (take k) (map (take k') c'))"
      by (rule mat_mono[OF mat_take[OF m k(1)]]) (use k(1) in auto)
    moreover have "k \<le> n" using k(1) kn by simp
    ultimately show ?thesis using w(1) False k
      by (intro exI[of _ "map (take k) (map (take k') c')"] exI[of _ k] exI[of _ k']) simp
  qed
qed

lemma sliding_hit_spec:
  assumes inv: "pool_inv p free" and gs: "groups_ok gs" and bs: "0 < as_block_size a" and al: "0 < alignment"
    and ml: "0 \<le> max_length" "nat (max_length div as_block_size a) \<le> length hs"
    and eagle: "use_eagle \<longrightarrow> as_block_size a = alignment"
  shows "\<exists>c k. sliding_find_longest_cache_hit hs max_length gs p (SlidingWindowSpec a window) use_eagle alignment 1 1 = Inr c \<and>
    int k * as_block_size a \<le> max_length \<and> (int k * as_block_size a) mod alignment = 0 \<and>
    mat p gs hs k (needed_block (SlidingWindowSpec a window) (as_block_size a) k) c"
proof -
  define b where "b = as_block_size a"
  define needed where "needed = (if use_eagle then cdiv (window - 1) b + 1 else cdiv (window - 1) b)"
  define n where "n = nat (max_length div b)"
  have nn: "int n \<le> max_length div b" using ml(1) bs by (simp add: n_def b_def pos_imp_zdiv_nonneg_iff)
  have bn: "0 < b" "n \<le> length hs" using bs ml(2) by (simp_all add: b_def n_def)
  from window_align_spec[OF inv gs al bn, of needed] obtain c k m where
    c: "res_bind (window_loop p gs hs b alignment needed n (replicate (length gs) (replicate n (null_block p))) 0)
        (\<lambda>(computed, contiguous, match_found).
          if match_found then Inr computed else align_loop b alignment (map (take (nat contiguous)) computed)) = Inr c"
      "k \<le> n" "(int k * b) mod alignment = 0" "needed \<le> int m \<or> k \<le> m" "mat p gs hs k (\<lambda>i. k - m \<le> i) c"
    by (elim exE conjE) (rule that; assumption)
  have len: "int k * b \<le> max_length" using c(2) nn bs by (intro int_blocks_le) (auto simp: b_def)
  obtain x where x: "first_group c = Inr x" "length x = k" using mat_first[OF c(5)] gs by (auto simp: groups_ok_def)
  have run: "sliding_find_longest_cache_hit hs max_length gs p (SlidingWindowSpec a window) use_eagle alignment 1 1 =
    (if use_eagle \<and> x \<noteq> [] then Inr (pop_all c) else Inr c)"
  proof -
    define G :: "bref list list \<Rightarrow> bref list list result" where
      "G = (\<lambda>computed. if use_eagle then res_bind (first_group computed) (\<lambda>c.
         if c \<noteq> [] then res_bind (py_assert (b = alignment)) (\<lambda>_. Inr (pop_all computed)) else Inr computed)
       else Inr computed)"
    have "sliding_find_longest_cache_hit hs max_length gs p (SlidingWindowSpec a window) use_eagle alignment 1 1 =
      res_bind (res_bind (window_loop p gs hs b alignment needed n (replicate (length gs) (replicate n (null_block p))) 0)
        (\<lambda>(computed, contiguous, match_found).
          if match_found then Inr computed else align_loop b alignment (map (take (nat contiguous)) computed))) G"
      using bs unfolding sliding_find_longest_cache_hit_def G_def b_def needed_def n_def
      by (simp add: Let_def res_bind_assoc case_prod_unfold cong: if_cong)
    also have "\<dots> = G c" by (simp only: c(1) res_bind_Inr)
    also have "\<dots> = (if use_eagle \<and> x \<noteq> [] then Inr (pop_all c) else Inr c)"
      using x(1) eagle by (simp add: G_def b_def)
    finally show ?thesis .
  qed
  show ?thesis
  proof (cases "use_eagle \<and> x \<noteq> []")
    case True
    then have k: "int (k - 1) = int k - 1" using x(2) by (cases k) auto
    have "mat p gs hs (k - 1) (needed_block (SlidingWindowSpec a window) b (k - 1)) (pop_all c)"
    proof (rule mat_mono[OF mat_pop[OF c(5)]])
      fix i assume "i < k - 1" "needed_block (SlidingWindowSpec a window) b (k - 1) i"
      moreover have "cdiv (window - 1) b \<le> int (m - 1)" if "\<not> k \<le> m" using c(4) that True by (auto simp: needed_def)
      ultimately show "k - m \<le> i" using needed_window[of b window "m - 1" a "k - 1" i] bs
        by (cases "k \<le> m") (auto simp: b_def)
    qed
    moreover have "int (k - 1) * b \<le> max_length" using len k bs by (simp add: b_def left_diff_distrib)
    moreover have "(int (k - 1) * b) mod alignment = 0" using True eagle by (simp add: b_def)
    ultimately show ?thesis using run True by (intro exI[of _ "pop_all c"] exI[of _ "k - 1"]) (simp add: b_def)
  next
    case False
    have "mat p gs hs k (needed_block (SlidingWindowSpec a window) b k) c"
    proof (cases "use_eagle")
      case True
      then have "k = 0" using False x(2) by simp
      then show ?thesis using c(5) by (simp add: mat_def)
    next
      case ne: False
      show ?thesis
      proof (rule mat_mono[OF c(5)])
        fix i assume "i < k" "needed_block (SlidingWindowSpec a window) b k i"
        then show "k - m \<le> i" using needed_window[of b window m a k i] bs c(4) ne
          by (cases "k \<le> m") (auto simp: b_def needed_def)
      qed
    qed
    then show ?thesis using run False len c(3) by (intro exI[of _ c] exI[of _ k]) (simp add: b_def)
  qed
qed

text \<open>Chunked local attention: null blocks up to the chunk of the next token, then hits.\<close>

lemma chunk_hit_loop_spec:
  assumes inv: "pool_inv p free" and gs: "groups_ok gs"
    and "mat p gs hs k (\<lambda>i. s \<le> i) c" "k \<le> n" "n \<le> length hs"
  shows "\<exists>c' l. chunk_hit_loop p gs hs [k..<n] c = Inr c' \<and> k \<le> l \<and> l \<le> n \<and> mat p gs hs l (\<lambda>i. s \<le> i) c'"
  using assms(3-5)
proof (induction "n - k" arbitrary: k c)
  case 0
  then show ?case by (intro exI[of _ c] exI[of _ k]) simp
next
  case (Suc d)
  then have k: "k < n" "d = n - Suc k" by auto
  then have e: "[k..<n] = k # [Suc k..<n]" by (simp add: upt_conv_Cons)
  show ?case
  proof (cases rule: lookup_cases[OF inv gs, of "hs ! k"])
    case 1
    then show ?thesis using Suc.prems k by (intro exI[of _ c] exI[of _ k]) (simp add: e)
  next
    case (2 hits)
    have "mat p gs hs (Suc k) (\<lambda>i. s \<le> i) (append_hits c hits)"
      by (rule mat_mono[OF mat_append[OF Suc.prems(1) 2(3,4)]]) auto
    from Suc.hyps(1)[OF k(2) this _ Suc.prems(3)] k(1) obtain c' l where
      "chunk_hit_loop p gs hs [Suc k..<n] (append_hits c hits) = Inr c'" "Suc k \<le> l" "l \<le> n" "mat p gs hs l (\<lambda>i. s \<le> i) c'"
      by auto
    then show ?thesis using 2(1) k(1) Suc.prems(3) by (intro exI[of _ c'] exI[of _ l]) (simp add: e)
  qed
qed

lemma chunked_hit_spec:
  assumes inv: "pool_inv p free" and gs: "groups_ok gs" and bs: "0 < as_block_size a" "0 < chunk"
    and ml: "0 \<le> max_length" "nat (max_length div as_block_size a) \<le> length hs"
  shows "\<exists>c k. chunked_find_longest_cache_hit hs max_length gs p (ChunkedLocalAttentionSpec a chunk) False (as_block_size a) 1 1 = Inr c \<and>
    int k * as_block_size a \<le> max_length \<and>
    mat p gs hs k (\<lambda>i. as_block_size a dvd chunk \<and> needed_block (ChunkedLocalAttentionSpec a chunk) (as_block_size a) k i) c"
proof -
  define b where "b = as_block_size a"
  define start where "start = max_length div chunk * chunk"
  define s where "s = nat (start div b)"
  define n where "n = nat (max_length div b)"
  have st: "start \<le> max_length" using bs(2) by (simp add: start_def minus_mod_eq_div_mult[symmetric])
  have st0: "0 \<le> start" using bs(2) ml(1) by (simp add: start_def pos_imp_zdiv_nonneg_iff)
  have sb: "int s * b = start" if "b dvd chunk"
  proof -
    have "b dvd start" using that by (simp add: start_def)
    then show ?thesis using bs(1) st0 by (simp add: s_def b_def pos_imp_zdiv_nonneg_iff)
  qed
  have "start div b \<le> max_length div b" using st bs(1) by (simp add: b_def zdiv_mono1)
  then have sn: "s \<le> n" by (simp add: s_def n_def nat_mono)
  have nb: "null_block p = Blk 0" using pool_invD(7)[OF inv] by (simp add: pool_shape_def)
  have "mat p gs hs s (\<lambda>i. s \<le> i) (replicate (length gs) (replicate s (null_block p)))"
    by (rule mat_mono[OF mat_nulls[OF nb]]) simp
  from chunk_hit_loop_spec[OF inv gs this sn] ml(2) obtain c l where
    c: "chunk_hit_loop p gs hs [s..<n] (replicate (length gs) (replicate s (null_block p))) = Inr c" "s \<le> l" "l \<le> n"
      "mat p gs hs l (\<lambda>i. s \<le> i) c"
    by (auto simp: n_def b_def)
  have "start = (if max_length > 0 then max_length div chunk * chunk else 0)" using ml(1) by (simp add: start_def)
  then have "chunked_find_longest_cache_hit hs max_length gs p (ChunkedLocalAttentionSpec a chunk) False b 1 1 = Inr c"
    using bs(1,2) c(1) by (auto simp: chunked_find_longest_cache_hit_def s_def n_def b_def split: if_splits)
  moreover have "int l \<le> max_length div b"
    using c(3) ml(1) bs(1) by (simp add: n_def b_def le_nat_iff pos_imp_zdiv_nonneg_iff)
  then have "int l * b \<le> max_length" using bs(1) int_blocks_le by (simp add: b_def)
  moreover have "mat p gs hs l (\<lambda>i. b dvd chunk \<and> needed_block (ChunkedLocalAttentionSpec a chunk) b l i) c"
  proof (rule mat_mono[OF c(4)])
    fix i assume i: "b dvd chunk \<and> needed_block (ChunkedLocalAttentionSpec a chunk) b l i"
    note sb = sb[OF conjunct1[OF i]]
    have "start \<le> int l * b" using sb c(2) bs(1) by (metis b_def mult_right_mono of_nat_le_iff order_less_imp_le)
    then have "max_length div chunk \<le> int l * b div chunk" using bs(2) int_le_div_iff by (simp add: start_def)
    then have "start \<le> int l * b div chunk * chunk" using bs(2) by (simp add: start_def mult_right_mono)
    then have "int s * b < (int i + 1) * b" using i sb by (simp add: needed_block_def)
    then show "s \<le> i" using bs(1) by (simp add: b_def)
  qed
  ultimately show ?thesis unfolding b_def by blast
qed

text \<open>Linear attention: the last hit, with null blocks before it.\<close>

lemma mamba_loop_spec:
  assumes inv: "pool_inv p free" and gs: "groups_ok gs" and al: "0 < alignment" and n: "n \<le> length hs"
  shows "\<exists>c k. mamba_loop p gs hs bs alignment n (replicate (length gs) []) = Inr c \<and> k \<le> n \<and>
    (int k * bs) mod alignment = 0 \<and> mat p gs hs k (\<lambda>i. Suc i = k) c"
  using n
proof (induction n)
  case 0
  then show ?case using mat_empty by (intro exI[of _ "replicate (length gs) []"] exI[of _ 0]) simp
next
  case (Suc i)
  obtain c k where IH: "mamba_loop p gs hs bs alignment i (replicate (length gs) []) = Inr c" "k \<le> i"
    "(int k * bs) mod alignment = 0" "mat p gs hs k (\<lambda>i. Suc i = k) c"
    using Suc by auto
  have nb: "null_block p = Blk 0" using pool_invD(7)[OF inv] by (simp add: pool_shape_def)
  show ?case
  proof (cases rule: lookup_cases[OF inv gs, of "hs ! i"])
    case 1
    then show ?thesis using IH Suc.prems by (intro exI[of _ c] exI[of _ k]) simp
  next
    case (2 hits)
    show ?thesis
    proof (cases "bs \<noteq> alignment \<and> ((int i + 1) * bs) mod alignment \<noteq> 0")
      case True
      then show ?thesis using IH 2(1) Suc.prems al by (intro exI[of _ c] exI[of _ k]) simp
    next
      case False
      define c' where "c' = map2 (\<lambda>c b. c @ replicate i (null_block p) @ [b]) (replicate (length gs) []) hits"
      have "mamba_loop p gs hs bs alignment (Suc i) (replicate (length gs) []) = Inr c'"
        using 2(1) Suc.prems al False by (auto simp: c'_def)
      moreover have "mat p gs hs (Suc i) (\<lambda>l. Suc l = Suc i) c'"
        using 2(3,4) nb by (auto simp: mat_def c'_def good_def nth_append less_Suc_eq)
      moreover have "(int (Suc i) * bs) mod alignment = 0" using False by (auto simp: add.commute)
      ultimately show ?thesis by (intro exI[of _ c'] exI[of _ "Suc i"]) simp
    qed
  qed
qed

lemma mamba_hit_spec:
  assumes inv: "pool_inv p free" and gs: "groups_ok gs" and bs: "0 < bs" and al: "0 < alignment"
    and ml: "0 \<le> max_length" "nat (max_length div bs) \<le> length hs"
  shows "\<exists>c k. mamba_find_longest_cache_hit hs max_length gs p (MambaSpec bs sh dt pd ty sb) use_eagle alignment 1 1 = Inr c \<and>
    int k * bs \<le> max_length \<and> (int k * bs) mod alignment = 0 \<and>
    mat p gs hs k (needed_block (MambaSpec bs sh dt pd ty sb) bs k) c"
proof -
  from mamba_loop_spec[OF inv gs al ml(2), of bs] obtain c k where
    c: "mamba_loop p gs hs bs alignment (nat (max_length div bs)) (replicate (length gs) []) = Inr c"
      "k \<le> nat (max_length div bs)" "(int k * bs) mod alignment = 0" "mat p gs hs k (\<lambda>i. Suc i = k) c"
    by (elim exE conjE) (rule that; assumption)
  have "int k \<le> max_length div bs" using c(2) ml(1) bs by (simp add: le_nat_iff pos_imp_zdiv_nonneg_iff)
  then have "int k * bs \<le> max_length" using bs int_blocks_le by blast
  moreover have "mat p gs hs k (needed_block (MambaSpec bs sh dt pd ty sb) bs k) c"
  proof (rule mat_mono[OF c(4)])
    fix i assume i: "i < k" "needed_block (MambaSpec bs sh dt pd ty sb) bs k i"
    have "\<not> Suc i < k"
    proof
      assume "Suc i < k"
      then have "(int i + 1) * bs + bs \<le> int k * bs" using block_end_le[OF bs, of "Suc i" k] by (simp add: algebra_simps)
      then show False using i(2) bs by (simp add: needed_block_def)
    qed
    then show "Suc i = k" using i(1) by simp
  qed
  ultimately show ?thesis using c(1,3) bs
    by (intro exI[of _ c] exI[of _ k]) (simp add: mamba_find_longest_cache_hit_def)
qed

section \<open>Properties\<close>

text \<open>
  The conditions that each lookup asserts on entry. The chunk size is not among them: \<open>chunk_positive\<close> is needed for the
  division, and the chunked lookup is sound only for \<open>chunk_aligned\<close> formats; the code checks neither.
\<close>

fun lookup_supported :: "manager_class \<Rightarrow> KVCacheSpec \<Rightarrow> bool \<Rightarrow> int \<Rightarrow> int \<Rightarrow> int \<Rightarrow> bool" where
  "lookup_supported FullAttentionManager spec use_eagle alignment dcp pcp = full_spec_ok spec"
| "lookup_supported SlidingWindowManager (SlidingWindowSpec a w) use_eagle alignment dcp pcp \<longleftrightarrow>
     dcp = 1 \<and> pcp = 1 \<and> (use_eagle \<longrightarrow> as_block_size a = alignment)"
| "lookup_supported ChunkedLocalAttentionManager (ChunkedLocalAttentionSpec a chunk) use_eagle alignment dcp pcp \<longleftrightarrow>
     dcp = 1 \<and> pcp = 1 \<and> \<not> use_eagle \<and> as_block_size a = alignment"
| "lookup_supported MambaManager (MambaSpec bs sh dt pd ty sb) use_eagle alignment dcp pcp \<longleftrightarrow> dcp = 1 \<and> pcp = 1"
| "lookup_supported cls spec use_eagle alignment dcp pcp = False"

definition chunk_positive :: "KVCacheSpec \<Rightarrow> bool" where
  "chunk_positive spec \<longleftrightarrow> (case spec of ChunkedLocalAttentionSpec a chunk \<Rightarrow> 0 < chunk | _ \<Rightarrow> True)"

definition chunk_aligned :: "KVCacheSpec \<Rightarrow> bool" where
  "chunk_aligned spec \<longleftrightarrow> (case spec of ChunkedLocalAttentionSpec a chunk \<Rightarrow> as_block_size a dvd chunk | _ \<Rightarrow> True)"

lemma hit_length_take: "hit_length p gs (take n hs) \<le> n"
  by (metis hit_length_def length_take length_takeWhile_le min.boundedE)

lemma full_hit_sound:
  assumes "pool_inv p free" "groups_ok gs" "full_spec_ok spec" "0 < group_block_size spec dcp pcp" "0 < alignment" "0 \<le> max_length"
  shows "\<exists>c k. full_find_longest_cache_hit hs max_length gs p spec use_eagle alignment dcp pcp = Inr c \<and>
    int k * group_block_size spec dcp pcp \<le> max_length \<and> (int k * group_block_size spec dcp pcp) mod alignment = 0 \<and>
    mat p gs hs k (needed_block spec (group_block_size spec dcp pcp) k) c"
proof -
  define b where "b = group_block_size spec dcp pcp"
  from full_hit_spec[OF assms, of hs use_eagle, folded b_def] obtain c k where
    c: "full_find_longest_cache_hit hs max_length gs p spec use_eagle alignment dcp pcp = Inr c" "mat p gs hs k (\<lambda>_. True) c"
      "k \<le> hit_length p gs (take (nat (max_length div b)) hs) - (if use_eagle then 1 else 0)" "(int k * b) mod alignment = 0"
    by (elim exE conjE) (rule that; assumption)
  have "k \<le> nat (max_length div b)" using c(3) hit_length_take[of p gs "nat (max_length div b)" hs] by linarith
  then have "int k \<le> max_length div b" using assms(4,6) by (simp add: b_def le_nat_iff pos_imp_zdiv_nonneg_iff)
  then have "int k * b \<le> max_length" using assms(4) int_blocks_le by (simp add: b_def)
  moreover have "mat p gs hs k (needed_block spec b k) c" by (rule mat_mono[OF c(2)]) simp
  ultimately show ?thesis using c(1,4) by (intro exI[of _ c] exI[of _ k]) (simp add: b_def)
qed

lemma cache_hit_spec:
  assumes "pool_inv p free" "groups_ok gs" "lookup_supported cls spec use_eagle alignment dcp pcp"
    and "chunk_positive spec" "0 < group_block_size spec dcp pcp" "0 < alignment" "0 \<le> max_length"
    and "nat (max_length div group_block_size spec dcp pcp) \<le> length hs"
  shows "\<exists>c k. find_longest_cache_hit cls hs max_length gs p spec use_eagle alignment dcp pcp = Inr c \<and>
    int k * group_block_size spec dcp pcp \<le> max_length \<and> (int k * group_block_size spec dcp pcp) mod alignment = 0 \<and>
    mat p gs hs k (\<lambda>i. chunk_aligned spec \<and> needed_block spec (group_block_size spec dcp pcp) k i) c"
proof (cases cls)
  case FullAttentionManager
  then have "full_spec_ok spec" using assms(3) by simp
  from full_hit_sound[OF assms(1,2) this assms(5-7), of hs use_eagle] show ?thesis
    unfolding FullAttentionManager find_longest_cache_hit.simps by (elim exE conjE) (intro exI conjI; (assumption | erule mat_mono, simp))
next
  case SlidingWindowManager
  then obtain a w where spec: "spec = SlidingWindowSpec a w" using assms(3) by (cases spec) auto
  have b: "group_block_size spec dcp pcp = as_block_size a"
    using assms(3) SlidingWindowManager by (simp add: spec group_block_size_def)
  show ?thesis
    using sliding_hit_spec[of p free gs a alignment max_length hs use_eagle w] assms SlidingWindowManager
    unfolding b by (simp add: spec chunk_aligned_def)
next
  case ChunkedLocalAttentionManager
  then obtain a chunk where spec: "spec = ChunkedLocalAttentionSpec a chunk" using assms(3) by (cases spec) auto
  have b: "group_block_size spec dcp pcp = as_block_size a"
    using assms(3) ChunkedLocalAttentionManager by (simp add: spec group_block_size_def)
  have s: "dcp = 1" "pcp = 1" "\<not> use_eagle" "alignment = as_block_size a" "0 < chunk"
    using assms(3,4) ChunkedLocalAttentionManager by (auto simp: spec chunk_positive_def)
  have h: "0 < as_block_size a" "nat (max_length div as_block_size a) \<le> length hs" using assms(5,8) by (simp_all add: b)
  have u: "use_eagle = False" using s(3) by simp
  show ?thesis unfolding b unfolding spec u s(1,2,4) ChunkedLocalAttentionManager find_longest_cache_hit.simps
    using chunked_hit_spec[OF assms(1,2) h(1) s(5) assms(7) h(2)] by (simp add: chunk_aligned_def)
next
  case MambaManager
  then obtain bs sh dt pd ty sb where spec: "spec = MambaSpec bs sh dt pd ty sb" using assms(3) by (cases spec) auto
  have b: "group_block_size spec dcp pcp = bs" using assms(3) MambaManager by (simp add: spec group_block_size_def)
  show ?thesis
    using mamba_hit_spec[of p free gs bs alignment max_length hs sh dt pd ty sb use_eagle] assms MambaManager
    unfolding b by (simp add: spec chunk_aligned_def)
next
  case CrossAttentionManager
  then show ?thesis using assms(3) by simp
qed

text \<open>
  C3: Prefix cache lookups are sound, for every attention type. On a consistent pool and for arguments that satisfy the
  assertions of the lookup, with a positive chunk size, it returns for each
  group a list of the same number \<open>k\<close> of blocks; \<open>k\<close> blocks are no longer than the allowed length and
  end at a multiple of the alignment. Each entry \<open>i\<close> is the null block or a block of the pool that is
  cached under hash \<open>i\<close> of the request and this group, and it is the latter whenever the attention of
  the next token reads a token of block \<open>i\<close>: all blocks for full attention, those in the window or the
  current chunk, and the last one for linear attention. For chunked local attention this last part holds when the block
  size divides the chunk size, which the code does not check.
\<close>
theorem cache_hit_sound:
  assumes "pool_inv p free" "groups_ok gs" "lookup_supported cls spec use_eagle alignment dcp pcp"
    and "chunk_positive spec" "0 < group_block_size spec dcp pcp" "0 < alignment" "0 \<le> max_length"
    and "nat (max_length div group_block_size spec dcp pcp) \<le> length hs"
  shows "\<exists>c k. find_longest_cache_hit cls hs max_length gs p spec use_eagle alignment dcp pcp = Inr c \<and>
    int k * group_block_size spec dcp pcp \<le> max_length \<and> (int k * group_block_size spec dcp pcp) mod alignment = 0 \<and>
    mat p gs hs k (\<lambda>i. chunk_aligned spec \<and> needed_block spec (group_block_size spec dcp pcp) k i) c"
  by (rule cache_hit_spec[OF assms])

text \<open>The sample pool in which block 1 holds the block hash 5 of group 0.\<close>

definition cached_sample_pool :: block_pool where
  "cached_sample_pool =
     (case cache_full_blocks ((sample_request ''a'' [1, 2, 3] [])\<lparr>block_hashes := [[5]]\<rparr>) [Blk 1] 0 1 2 0 sample_pool of
        Inr p \<Rightarrow> p)"

lemma cached_sample_pool_inv:
  "pool_inv cached_sample_pool [Blk 1, Blk 2, Blk 3]" "pool_frame sample_pool cached_sample_pool"
  "bh cached_sample_pool (Blk 1) = Some (gkey 0 [5])"
  using cache_full_blocks_spec[OF sample_pool_inv(1,3), of 0 0 1 "[Blk 1]"
      "(sample_request ''a'' [1, 2, 3] [])\<lparr>block_hashes := [[5]]\<rparr>" 2 "[[5]]"] sample_cache_step
  by (auto simp: cached_sample_pool_def)

definition sample_full_spec :: KVCacheSpec where
  "sample_full_spec = FullAttentionSpec \<lparr>as_block_size = 2, num_kv_heads = 1, head_size = 8, as_dtype = ''half''\<rparr> None None"

lemma sample_full_spec_simps [simp]:
  "group_block_size sample_full_spec 1 1 = 2" "spec_block_size sample_full_spec = 2" "full_spec_ok sample_full_spec"
  "is_full_attention_spec sample_full_spec" "spec_manager_map sample_full_spec = Some FullAttentionManager"
  "chunk_positive sample_full_spec" "chunk_aligned sample_full_spec"
  by (simp_all add: group_block_size_def sample_full_spec_def full_spec_ok_def chunk_positive_def chunk_aligned_def)

theorem cache_hit_sound_witness:
  "pool_inv cached_sample_pool [Blk 1, Blk 2, Blk 3] \<and>
   (\<exists>c k. find_longest_cache_hit FullAttentionManager [[5], [6]] 5 [0] cached_sample_pool sample_full_spec False 2 1 1 = Inr c \<and>
     mat cached_sample_pool [0] [[5], [6]] k (\<lambda>i. chunk_aligned sample_full_spec \<and> needed_block sample_full_spec 2 k i) c) \<and>
   chunk_aligned sample_full_spec"
  using cache_hit_sound[OF cached_sample_pool_inv(1), of "[0]" FullAttentionManager sample_full_spec False 2 1 1 5 "[[5], [6]]"]
    cached_sample_pool_inv(1)
  by (auto simp: groups_ok_def)

text \<open>
  C19: The full attention lookup finds the longest hit. Let \<open>l\<close> be the number of leading hashes, within the
  allowed length, that are cached for every group, one less if speculative decoding with EAGLE needs
  the last block recomputed. The lookup returns as many blocks as the longest prefix of these \<open>l\<close>
  blocks that ends at a multiple of the alignment, every one cached under its hash.
\<close>
theorem full_hit_longest:
  assumes "pool_inv p free" "groups_ok gs" "full_spec_ok spec" "0 < group_block_size spec dcp pcp" "0 < alignment" "0 \<le> max_length"
  shows "\<exists>c k. full_find_longest_cache_hit hs max_length gs p spec use_eagle alignment dcp pcp = Inr c \<and>
    mat p gs hs k (\<lambda>_. True) c \<and>
    k \<le> hit_length p gs (take (nat (max_length div group_block_size spec dcp pcp)) hs) - (if use_eagle then 1 else 0) \<and>
    (int k * group_block_size spec dcp pcp) mod alignment = 0 \<and>
    (\<forall>k'. k < k' \<and> k' \<le> hit_length p gs (take (nat (max_length div group_block_size spec dcp pcp)) hs) - (if use_eagle then 1 else 0)
       \<longrightarrow> (int k' * group_block_size spec dcp pcp) mod alignment \<noteq> 0)"
  by (rule full_hit_spec[OF assms])

theorem full_hit_longest_witness:
  "hit_length cached_sample_pool [0] [[5]] = 1 \<and>
   (\<exists>c. full_find_longest_cache_hit [[5]] 3 [0] cached_sample_pool sample_full_spec False 2 1 1 = Inr c \<and>
     mat cached_sample_pool [0] [[5]] 1 (\<lambda>_. True) c)"
proof -
  have "Blk 1 \<in> pool_blocks cached_sample_pool"
    using pool_frame_blocks[OF cached_sample_pool_inv(2)] sample_pool_inv(2) by (simp add: pool_blocks_def)
  then have "hit cached_sample_pool [0] [5]" using cached_sample_pool_inv(3) by (auto simp: hit_def)
  then have l: "hit_length cached_sample_pool [0] [[5]] = 1" by (simp add: hit_length_def)
  from full_hit_longest[OF cached_sample_pool_inv(1), of "[0]" sample_full_spec 1 1 2 3 "[[5]]" False] obtain c k where
    c: "full_find_longest_cache_hit [[5]] 3 [0] cached_sample_pool sample_full_spec False 2 1 1 = Inr c"
      "mat cached_sample_pool [0] [[5]] k (\<lambda>_. True) c" "k \<le> 1" "\<forall>k'. k < k' \<and> k' \<le> 1 \<longrightarrow> (int k' * 2) mod 2 \<noteq> 0"
    using l by (auto simp: groups_ok_def)
  have "k = 1"
  proof (rule ccontr)
    assume "k \<noteq> 1"
    then have "(int 1 * 2) mod (2 :: int) \<noteq> 0" using c(3,4) by (metis less_one linorder_neqE_nat order_refl not_le)
    then show False by simp
  qed
  then show ?thesis using l c(1,2) by blast
qed




end
