(* ===== verification/KV_Coordinator.thy ===== *)
theory KV_Coordinator
  imports Single_Type_Manager
begin

text \<open>
  The coordinator of the KV cache groups (\<open>vllm/v1/core/kv_cache_coordinator.py\<close>): one block manager per
  group over one block pool, with the three coordinator classes. The methods that loop over the
  managers are explicit recursions over the list of managers.
\<close>

section \<open>State\<close>

text \<open>What \<open>verify_and_split_kv_cache_groups\<close> stores in a hybrid coordinator.\<close>

record hybrid_split =
  full_attention_group_ids :: "int list"
  other_group_ids :: "int list"
  other_attention_cls :: manager_class
  full_attention_spec :: KVCacheSpec
  other_spec :: KVCacheSpec
  lcm_block_size :: int
  full_attn_first :: bool

datatype coordinator_class =
    KVCacheCoordinatorNoPrefixCache
  | UnitaryKVCacheCoordinator KVCacheSpec int
  | HybridKVCacheCoordinator hybrid_split

record kv_coordinator =
  coord_class :: coordinator_class
  kv_cache_config :: KVCacheConfig
  coord_max_model_len :: int
  coord_enable_caching :: bool
  coord_pool :: block_pool
  coord_use_eagle :: bool
  single_type_managers :: "kv_manager list"
  coord_dcp :: int
  coord_pcp :: int
  coord_hash_block_size :: int

section \<open>Construction\<close>

fun make_managers :: "block_pool \<Rightarrow> int \<Rightarrow> int \<Rightarrow> int \<Rightarrow> KVCacheGroupSpec list \<Rightarrow> kv_manager list result" where
  "make_managers p dcp pcp i [] = Inr []"
| "make_managers p dcp pcp i (g # gs) =
     res_bind (get_manager_for_kv_cache_spec (group_spec g) p i dcp pcp) (\<lambda>m.
     res_bind (make_managers p dcp pcp (i + 1) gs) (\<lambda>ms. Inr (m # ms)))"

text \<open>The base class constructor; \<open>use_int\<close> is the environment switch of the pool.\<close>

definition KVCacheCoordinator_init ::
    "coordinator_class \<Rightarrow> KVCacheConfig \<Rightarrow> int \<Rightarrow> bool \<Rightarrow> bool \<Rightarrow> bool \<Rightarrow> int \<Rightarrow> int \<Rightarrow> int \<Rightarrow> bool \<Rightarrow> kv_coordinator result" where
  "KVCacheCoordinator_init cls cfg max_len use_eagle caching kv_events dcp pcp hbs use_int =
     res_bind (BlockPool_init (num_blocks cfg) caching hbs kv_events use_int) (\<lambda>p.
     res_bind (make_managers p dcp pcp 0 (kv_cache_groups cfg)) (\<lambda>ms.
       Inr \<lparr>coord_class = cls, kv_cache_config = cfg, coord_max_model_len = max_len, coord_enable_caching = caching,
            coord_pool = p, coord_use_eagle = use_eagle, single_type_managers = ms,
            coord_dcp = dcp, coord_pcp = pcp, coord_hash_block_size = hbs\<rparr>))"

definition NoPrefixCache_init ::
    "KVCacheConfig \<Rightarrow> int \<Rightarrow> bool \<Rightarrow> bool \<Rightarrow> int \<Rightarrow> int \<Rightarrow> int \<Rightarrow> bool \<Rightarrow> kv_coordinator result" where
  "NoPrefixCache_init cfg max_len use_eagle kv_events dcp pcp hbs use_int =
     KVCacheCoordinator_init KVCacheCoordinatorNoPrefixCache cfg max_len use_eagle False kv_events dcp pcp hbs use_int"

definition Unitary_init ::
    "KVCacheConfig \<Rightarrow> int \<Rightarrow> bool \<Rightarrow> bool \<Rightarrow> bool \<Rightarrow> int \<Rightarrow> int \<Rightarrow> int \<Rightarrow> bool \<Rightarrow> kv_coordinator result" where
  "Unitary_init cfg max_len use_eagle caching kv_events dcp pcp hbs use_int =
     res_bind (KVCacheCoordinator_init KVCacheCoordinatorNoPrefixCache cfg max_len use_eagle caching kv_events dcp pcp hbs use_int) (\<lambda>co.
       case kv_cache_groups cfg of
         [] \<Rightarrow> Inl IndexError
       | g # gs \<Rightarrow>
           let bs = spec_block_size (group_spec g);
               bs = (if dcp > 1 then bs * dcp else bs);
               bs = (if pcp > 1 then bs * pcp else bs)
           in res_bind (py_assert (\<not> caching \<or> hbs = bs)) (\<lambda>_.
              res_bind (py_assert (gs = [])) (\<lambda>_.
                Inr (co\<lparr>coord_class := UnitaryKVCacheCoordinator (group_spec g) bs\<rparr>))))"

text \<open>
  The loop of \<open>verify_and_split_kv_cache_groups\<close>: the first format of each kind and the group ids of
  both kinds.
\<close>

fun split_loop ::
    "int \<Rightarrow> KVCacheGroupSpec list \<Rightarrow> KVCacheSpec option \<Rightarrow> KVCacheSpec option \<Rightarrow> int list \<Rightarrow> int list \<Rightarrow>
     (KVCacheSpec option \<times> KVCacheSpec option \<times> int list \<times> int list) result" where
  "split_loop i [] full other full_ids other_ids = Inr (full, other, full_ids, other_ids)"
| "split_loop i (g # gs) full other full_ids other_ids =
     (if is_full_attention_spec (group_spec g)
      then res_bind (py_assert (full = None \<or> full = Some (group_spec g))) (\<lambda>_.
             split_loop (i + 1) gs (Some (group_spec g)) other (full_ids @ [i]) other_ids)
      else res_bind (py_assert (other = None \<or> other = Some (group_spec g))) (\<lambda>_.
             split_loop (i + 1) gs full (Some (group_spec g)) full_ids (other_ids @ [i])))"

definition verify_and_split_kv_cache_groups :: "kv_coordinator \<Rightarrow> hybrid_split result" where
  "verify_and_split_kv_cache_groups co =
     res_bind (split_loop 0 (kv_cache_groups (kv_cache_config co)) None None [] []) (\<lambda>(full, other, full_ids, other_ids).
       case full of
         None \<Rightarrow> Inl AssertionError
       | Some f \<Rightarrow>
           (case other of
              None \<Rightarrow> Inl AssertionError
            | Some other_sp \<Rightarrow>
                let split = \<lparr>full_attention_group_ids = full_ids, other_group_ids = other_ids,
                             other_attention_cls = mgr_class (single_type_managers co ! nat (hd other_ids)),
                             full_attention_spec = f, other_spec = other_sp,
                             lcm_block_size = lcm (spec_block_size f) (spec_block_size other_sp), full_attn_first = True\<rparr>
                in if Max (set full_ids) < Min (set other_ids) then Inr split
                   else if Max (set other_ids) < Min (set full_ids) then Inr (split\<lparr>full_attn_first := False\<rparr>)
                   else Inl ValueError))"

definition Hybrid_init ::
    "KVCacheConfig \<Rightarrow> int \<Rightarrow> bool \<Rightarrow> bool \<Rightarrow> bool \<Rightarrow> int \<Rightarrow> int \<Rightarrow> int \<Rightarrow> bool \<Rightarrow> kv_coordinator result" where
  "Hybrid_init cfg max_len use_eagle caching kv_events dcp pcp hbs use_int =
     res_bind (KVCacheCoordinator_init KVCacheCoordinatorNoPrefixCache cfg max_len use_eagle caching kv_events dcp pcp hbs use_int) (\<lambda>co.
     res_bind (res_map (\<lambda>g. py_mod (spec_block_size (group_spec g)) hbs) (kv_cache_groups cfg)) (\<lambda>rems.
     res_bind (py_assert (\<forall>k \<in> set rems. k = 0)) (\<lambda>_.
     res_bind (py_assert (dcp = 1)) (\<lambda>_.
     res_bind (py_assert (pcp = 1)) (\<lambda>_.
     res_bind (verify_and_split_kv_cache_groups co) (\<lambda>split.
       Inr (co\<lparr>coord_class := HybridKVCacheCoordinator split\<rparr>)))))))"

definition get_kv_cache_coordinator ::
    "KVCacheConfig \<Rightarrow> int \<Rightarrow> bool \<Rightarrow> bool \<Rightarrow> bool \<Rightarrow> int \<Rightarrow> int \<Rightarrow> int \<Rightarrow> bool \<Rightarrow> kv_coordinator result" where
  "get_kv_cache_coordinator cfg max_len use_eagle caching kv_events dcp pcp hbs use_int =
     (if \<not> caching then NoPrefixCache_init cfg max_len use_eagle kv_events dcp pcp hbs use_int
      else if length (kv_cache_groups cfg) = 1
      then Unitary_init cfg max_len use_eagle caching kv_events dcp pcp hbs use_int
      else Hybrid_init cfg max_len use_eagle caching kv_events dcp pcp hbs use_int)"

section \<open>Operations on all managers\<close>

text \<open>\<open>for manager in self.single_type_managers: ...\<close> with the shared pool.\<close>

fun for_managers ::
    "(nat \<Rightarrow> kv_manager \<Rightarrow> block_pool \<Rightarrow> ('a \<times> kv_manager \<times> block_pool) result) \<Rightarrow> nat \<Rightarrow> kv_manager list \<Rightarrow> block_pool \<Rightarrow>
     ('a list \<times> kv_manager list \<times> block_pool) result" where
  "for_managers f i [] p = Inr ([], [], p)"
| "for_managers f i (m # ms) p =
     res_bind (f i m p) (\<lambda>(x, m', p').
     res_bind (for_managers f (Suc i) ms p') (\<lambda>(xs, ms', p'').
       Inr (x # xs, m' # ms', p'')))"

definition on_managers ::
    "(nat \<Rightarrow> kv_manager \<Rightarrow> block_pool \<Rightarrow> ('a \<times> kv_manager \<times> block_pool) result) \<Rightarrow> kv_coordinator \<Rightarrow>
     ('a list \<times> kv_coordinator) result" where
  "on_managers f co =
     res_bind (for_managers f 0 (single_type_managers co) (coord_pool co)) (\<lambda>(xs, ms, p).
       Inr (xs, co\<lparr>single_type_managers := ms, coord_pool := p\<rparr>))"

definition at_group :: "'a list \<Rightarrow> nat \<Rightarrow> 'a result" where
  "at_group xs i = (if i < length xs then Inr (xs ! i) else Inl IndexError)"

definition group_num_blocks ::
    "string \<Rightarrow> int \<Rightarrow> bref list list \<Rightarrow> int \<Rightarrow> nat \<Rightarrow> kv_manager \<Rightarrow> block_pool \<Rightarrow> (int \<times> kv_manager \<times> block_pool) result" where
  "group_num_blocks rid n_tokens new_computed_blocks num_encoder_tokens i m p =
     res_bind (if mgr_class m = CrossAttentionManager
               then mgr_get_num_blocks_to_allocate m p rid num_encoder_tokens []
               else res_bind (at_group new_computed_blocks i) (\<lambda>bs.
                 mgr_get_num_blocks_to_allocate m p rid n_tokens bs)) (\<lambda>(k, m'). Inr (k, m', p))"

definition coord_get_num_blocks_to_allocate ::
    "string \<Rightarrow> int \<Rightarrow> bref list list \<Rightarrow> int \<Rightarrow> kv_coordinator \<Rightarrow> (int \<times> kv_coordinator) result" where
  "coord_get_num_blocks_to_allocate rid n_tokens new_computed_blocks num_encoder_tokens co =
     res_bind (on_managers (group_num_blocks rid n_tokens new_computed_blocks num_encoder_tokens) co) (\<lambda>(ks, co').
       Inr (sum_list ks, co'))"

definition group_save ::
    "string \<Rightarrow> bref list list \<Rightarrow> nat \<Rightarrow> kv_manager \<Rightarrow> block_pool \<Rightarrow> (unit \<times> kv_manager \<times> block_pool) result" where
  "group_save rid new_computed_blocks i m p =
     res_bind (at_group new_computed_blocks i) (\<lambda>bs.
     res_bind (mgr_save_new_computed_blocks m rid bs) (\<lambda>m'. Inr ((), m', p)))"

definition coord_save_new_computed_blocks :: "string \<Rightarrow> bref list list \<Rightarrow> kv_coordinator \<Rightarrow> kv_coordinator result" where
  "coord_save_new_computed_blocks rid new_computed_blocks co =
     res_bind (on_managers (group_save rid new_computed_blocks) co) (\<lambda>(_, co'). Inr co')"

definition group_allocate ::
    "string \<Rightarrow> int \<Rightarrow> int \<Rightarrow> nat \<Rightarrow> kv_manager \<Rightarrow> block_pool \<Rightarrow> (bref list \<times> kv_manager \<times> block_pool) result" where
  "group_allocate rid n_tokens num_encoder_tokens i m p =
     mgr_allocate_new_blocks m p rid (if mgr_class m = CrossAttentionManager then num_encoder_tokens else n_tokens)"

definition coord_allocate_new_blocks :: "string \<Rightarrow> int \<Rightarrow> int \<Rightarrow> kv_coordinator \<Rightarrow> (bref list list \<times> kv_coordinator) result" where
  "coord_allocate_new_blocks rid n_tokens num_encoder_tokens co = on_managers (group_allocate rid n_tokens num_encoder_tokens) co"

definition group_cache :: "Request \<Rightarrow> int \<Rightarrow> nat \<Rightarrow> kv_manager \<Rightarrow> block_pool \<Rightarrow> (unit \<times> kv_manager \<times> block_pool) result" where
  "group_cache r n_tokens i m p = res_bind (mgr_cache_blocks m p r n_tokens) (\<lambda>(m', p'). Inr ((), m', p'))"

definition coord_cache_blocks :: "Request \<Rightarrow> int \<Rightarrow> kv_coordinator \<Rightarrow> kv_coordinator result" where
  "coord_cache_blocks r n_tokens co = res_bind (on_managers (group_cache r n_tokens) co) (\<lambda>(_, co'). Inr co')"

definition group_free :: "string \<Rightarrow> nat \<Rightarrow> kv_manager \<Rightarrow> block_pool \<Rightarrow> (unit \<times> kv_manager \<times> block_pool) result" where
  "group_free rid i m p = res_bind (mgr_free m p rid) (\<lambda>(m', p'). Inr ((), m', p'))"

definition coord_free :: "string \<Rightarrow> kv_coordinator \<Rightarrow> kv_coordinator result" where
  "coord_free rid co = res_bind (on_managers (group_free rid) co) (\<lambda>(_, co'). Inr co')"

definition group_common :: "string \<Rightarrow> nat \<Rightarrow> kv_manager \<Rightarrow> block_pool \<Rightarrow> (int \<times> kv_manager \<times> block_pool) result" where
  "group_common rid i m p = (case mgr_get_num_common_prefix_blocks m p rid of (k, m') \<Rightarrow> Inr (k, m', p))"

definition coord_get_num_common_prefix_blocks :: "string \<Rightarrow> kv_coordinator \<Rightarrow> (int list \<times> kv_coordinator) result" where
  "coord_get_num_common_prefix_blocks rid co =
     (if coord_class co = KVCacheCoordinatorNoPrefixCache
      then Inr (replicate (length (single_type_managers co)) 0, co)
      else on_managers (group_common rid) co)"

definition group_skip :: "string \<Rightarrow> int \<Rightarrow> nat \<Rightarrow> kv_manager \<Rightarrow> block_pool \<Rightarrow> (unit \<times> kv_manager \<times> block_pool) result" where
  "group_skip rid n i m p = res_bind (mgr_remove_skipped_blocks m p rid n) (\<lambda>(m', p'). Inr ((), m', p'))"

definition coord_remove_skipped_blocks :: "string \<Rightarrow> int \<Rightarrow> kv_coordinator \<Rightarrow> kv_coordinator result" where
  "coord_remove_skipped_blocks rid n co = res_bind (on_managers (group_skip rid n) co) (\<lambda>(_, co'). Inr co')"

definition coord_get_blocks :: "string \<Rightarrow> kv_coordinator \<Rightarrow> bref list list" where
  "coord_get_blocks rid co = map (\<lambda>m. table m rid) (single_type_managers co)"

section \<open>Prefix cache lookup over the groups\<close>

text \<open>The hashes at the granularity of a format; the converted list is given by its elements.\<close>

definition hashes_for :: "bytes list \<Rightarrow> int \<Rightarrow> int \<Rightarrow> bytes list result" where
  "hashes_for hs hbs bs =
     (if bs = hbs then Inr hs
      else res_bind (BlockHashListWithBlockSize_init hs hbs bs) (\<lambda>l. bhl_iter l))"

definition unitary_find_longest_cache_hit ::
    "KVCacheSpec \<Rightarrow> int \<Rightarrow> kv_coordinator \<Rightarrow> bytes list \<Rightarrow> int \<Rightarrow> (bref list list \<times> int) result" where
  "unitary_find_longest_cache_hit spec bs co hs max_length =
     res_bind (at_group (single_type_managers co) 0) (\<lambda>m.
     res_bind (find_longest_cache_hit (mgr_class m) hs max_length [0] (coord_pool co) spec (coord_use_eagle co) bs
                 (coord_dcp co) (coord_pcp co)) (\<lambda>hit_blocks.
     res_bind (first_group hit_blocks) (\<lambda>c. Inr (hit_blocks, int (length c) * bs))))"

definition hybrid_find_longest_cache_hit ::
    "hybrid_split \<Rightarrow> kv_coordinator \<Rightarrow> bytes list \<Rightarrow> int \<Rightarrow> (bref list list \<times> int) result" where
  "hybrid_find_longest_cache_hit sp co hs max_length =
     (let full_bs = spec_block_size (full_attention_spec sp); other_bs = spec_block_size (other_spec sp)
      in res_bind (hashes_for hs (coord_hash_block_size co) full_bs) (\<lambda>full_hs.
         res_bind (find_longest_cache_hit FullAttentionManager full_hs max_length (full_attention_group_ids sp)
                     (coord_pool co) (full_attention_spec sp) (coord_use_eagle co) (lcm_block_size sp) 1 1) (\<lambda>hit_full.
         res_bind (first_group hit_full) (\<lambda>c.
         res_bind (hashes_for hs (coord_hash_block_size co) other_bs) (\<lambda>other_hs.
         res_bind (find_longest_cache_hit (other_attention_cls sp) other_hs (int (length c) * full_bs) (other_group_ids sp)
                     (coord_pool co) (other_spec sp) (coord_use_eagle co) (lcm_block_size sp) 1 1) (\<lambda>hit_other.
         res_bind (first_group hit_other) (\<lambda>d.
           let hit_length = int (length d) * other_bs
           in res_bind (py_mod hit_length full_bs) (\<lambda>k.
              res_bind (py_assert (k = 0)) (\<lambda>_.
                let hit_full = map (take (nat (hit_length div full_bs))) hit_full
                in Inr (if full_attn_first sp then hit_full @ hit_other else hit_other @ hit_full, hit_length))))))))))"

definition coord_find_longest_cache_hit :: "kv_coordinator \<Rightarrow> bytes list \<Rightarrow> int \<Rightarrow> (bref list list \<times> int) result" where
  "coord_find_longest_cache_hit co hs max_length =
     (case coord_class co of
        KVCacheCoordinatorNoPrefixCache \<Rightarrow> Inr (replicate (length (single_type_managers co)) [], 0)
      | UnitaryKVCacheCoordinator spec bs \<Rightarrow> unitary_find_longest_cache_hit spec bs co hs max_length
      | HybridKVCacheCoordinator sp \<Rightarrow> hybrid_find_longest_cache_hit sp co hs max_length)"

end
