(* ===== verification/KV_Invariant.thy ===== *)
theory KV_Invariant
  imports KV_Coordinator
begin

text \<open>
  The invariant that ties the block tables of the managers to the reference counts of the pool, and its
  preservation by every operation of a manager and by the loops of the coordinator over its managers.
\<close>

section \<open>Counting references\<close>

definition tcount :: "(string \<times> bref list) list \<Rightarrow> bref \<Rightarrow> int" where
  "tcount al b = (\<Sum>(k, v)\<leftarrow>al. int (count_list v b))"

definition held :: "kv_manager list \<Rightarrow> bref \<Rightarrow> int" where
  "held ms b = (\<Sum>m\<leftarrow>ms. tcount (req_to_blocks m) b)"

lemma tcount_simps [simp]: "tcount [] b = 0" "tcount ((k, v) # al) b = int (count_list v b) + tcount al b"
  by (simp_all add: tcount_def)

lemma held_simps [simp]:
  "held [] b = 0" "held (m # ms) b = tcount (req_to_blocks m) b + held ms b" "held (xs @ ys) b = held xs b + held ys b"
  by (simp_all add: held_def)

lemma tcount_nonneg: "0 \<le> tcount al b"
  by (induction al) auto

lemma held_nonneg: "0 \<le> held ms b"
  by (induction ms) (auto simp: tcount_nonneg add_nonneg_nonneg)

definition dict_get :: "(string \<times> bref list) list \<Rightarrow> string \<Rightarrow> bref list" where
  "dict_get al k = (case map_of al k of None \<Rightarrow> [] | Some v \<Rightarrow> v)"

lemma table_dict: "table m rid = dict_get (req_to_blocks m) rid"
  by (simp add: table_def dict_get_def)

lemma tcount_update:
  "tcount (AList.update k v al) b = tcount al b - int (count_list (dict_get al k) b) + int (count_list v b)"
  by (induction al) (auto simp: dict_get_def)

lemma dict_get_absent: "k \<notin> fst ` set al \<Longrightarrow> dict_get al k = []"
  by (auto simp: dict_get_def split: option.splits dest: map_of_SomeD intro: rev_image_eqI)

lemma tcount_delete:
  "distinct (map fst al) \<Longrightarrow> tcount (AList.delete k al) b = tcount al b - int (count_list (dict_get al k) b)"
proof (induction al)
  case (Cons x al)
  obtain k' v where x: "x = (k', v)" by (cases x)
  show ?case
  proof (cases "k' = k")
    case True
    then have "k \<notin> fst ` set al" using Cons.prems by (simp add: x)
    then have "AList.delete k al = al" "dict_get al k = []"
      using dict_get_absent by (simp_all add: AList.delete_idem)
    then show ?thesis using True Cons by (simp add: x dict_get_def)
  next
    case False
    then show ?thesis using Cons by (simp add: x dict_get_def)
  qed
qed (simp add: dict_get_def)

lemma tcount_ge: "int (count_list (dict_get al k) b) \<le> tcount al b"
  by (induction al) (auto simp: dict_get_def tcount_nonneg intro: add_increasing split: option.splits)

section \<open>Block tables\<close>

lemma table_set [simp]: "table (set_table rid bs m) rid' = (if rid' = rid then bs else table m rid')"
  by (simp add: table_def set_table_def update_conv')

lemma set_table_sel [simp]:
  "mgr_block_size (set_table rid bs m) = mgr_block_size m" "mgr_class (set_table rid bs m) = mgr_class m"
  "kv_cache_spec (set_table rid bs m) = kv_cache_spec m" "num_cached_block (set_table rid bs m) = num_cached_block m"
  "kv_cache_group_id (set_table rid bs m) = kv_cache_group_id m" "mgr_null_block (set_table rid bs m) = mgr_null_block m"
  "req_to_blocks (set_table rid bs m) = AList.update rid bs (req_to_blocks m)"
  by (simp_all add: set_table_def)

lemma table_delete [simp]:
  "table (m\<lparr>req_to_blocks := AList.delete rid (req_to_blocks m)\<rparr>) rid' = (if rid' = rid then [] else table m rid')"
  by (simp add: table_def delete_conv')

lemma table_num_cached [simp]: "table (m\<lparr>num_cached_block := nc\<rparr>) rid = table m rid"
  by (simp add: table_def)

lemma dd_touch_sel [simp]:
  "table (dd_touch rid m) rid' = table m rid'" "mgr_block_size (dd_touch rid m) = mgr_block_size m"
  "mgr_class (dd_touch rid m) = mgr_class m" "kv_cache_spec (dd_touch rid m) = kv_cache_spec m"
  "num_cached_block (dd_touch rid m) = num_cached_block m" "kv_cache_group_id (dd_touch rid m) = kv_cache_group_id m"
  by (simp_all add: dd_touch_def)

lemma n_cached_sel [simp]:
  "n_cached (set_table rid bs m) rid' = n_cached m rid'" "n_cached (dd_touch rid m) rid' = n_cached m rid'"
  by (simp_all add: n_cached_def)

lemma n_cached_update [simp]:
  "n_cached (m\<lparr>num_cached_block := AList.update rid k (num_cached_block m')\<rparr>) rid' =
    (if rid' = rid then k else n_cached m' rid')"
  by (simp add: n_cached_def update_conv')

section \<open>The invariant\<close>

text \<open>
  Manager \<open>m\<close> is well formed over pool \<open>p\<close>. Blocks other than the null block occur at most once in a table.
\<close>

definition mgr_ok :: "block_pool \<Rightarrow> kv_manager \<Rightarrow> bool" where
  "mgr_ok p m \<longleftrightarrow> 0 < mgr_block_size m \<and> mgr_null_block m = Blk 0 \<and>
     distinct (map fst (req_to_blocks m)) \<and> distinct (map fst (num_cached_block m)) \<and>
     (\<forall>rid. set (table m rid) \<subseteq> pool_blocks p \<and> distinct (filter (\<lambda>b. b \<noteq> Blk 0) (table m rid)))"

text \<open>
  The reference count of every block is the number of its occurrences in the tables of all managers
  plus those in \<open>pend\<close>: blocks that have been touched for a request and not yet been stored in a table.
\<close>

definition kv_inv :: "kv_manager list \<Rightarrow> block_pool \<Rightarrow> bref list \<Rightarrow> bref list \<Rightarrow> bool" where
  "kv_inv ms p free pend \<longleftrightarrow> pool_inv p free \<and> (\<forall>m \<in> set ms. mgr_ok p m) \<and>
     (\<forall>b \<in> pool_blocks p. b \<noteq> Blk 0 \<longrightarrow> rc p b = held ms b + int (count_list pend b))"

lemma kv_invD:
  assumes "kv_inv ms p free pend"
  shows "pool_inv p free" "m \<in> set ms \<Longrightarrow> mgr_ok p m"
    "b \<in> pool_blocks p \<Longrightarrow> b \<noteq> Blk 0 \<Longrightarrow> rc p b = held ms b + int (count_list pend b)"
  using assms by (auto simp: kv_inv_def)

lemma mgr_okD:
  assumes "mgr_ok p m"
  shows "0 < mgr_block_size m" "mgr_null_block m = Blk 0" "distinct (map fst (req_to_blocks m))"
    "distinct (map fst (num_cached_block m))" "set (table m rid) \<subseteq> pool_blocks p"
    "distinct (filter (\<lambda>b. b \<noteq> Blk 0) (table m rid))"
  using assms by (auto simp: mgr_ok_def)

lemma mgr_ok_frame: "pool_frame p p' \<Longrightarrow> mgr_ok p' m = mgr_ok p m"
  by (simp add: mgr_ok_def pool_frame_blocks)

text \<open>A manager in the list changes one table, the pool follows.\<close>

lemma kv_inv_set:
  assumes inv: "kv_inv (xs @ m # ys) p free pend" and p': "pool_inv p' free'" "pool_frame p p'"
    and bs: "set bs \<subseteq> pool_blocks p" "distinct (filter (\<lambda>b. b \<noteq> Blk 0) bs)" and nc: "distinct (map fst nc)"
    and cnt: "\<And>b. b \<in> pool_blocks p \<Longrightarrow> b \<noteq> Blk 0 \<Longrightarrow>
      rc p' b - int (count_list pend' b) = rc p b - int (count_list pend b) - int (count_list (table m rid) b) + int (count_list bs b)"
  shows "kv_inv (xs @ ((set_table rid bs m)\<lparr>num_cached_block := nc\<rparr>) # ys) p' free' pend'"
proof -
  have m: "mgr_ok p m" using kv_invD(2)[OF inv] by simp
  have "mgr_ok p ((set_table rid bs m)\<lparr>num_cached_block := nc\<rparr>)"
    using m bs nc by (auto simp: mgr_ok_def distinct_update)
  moreover have "rc p' b = held (xs @ ((set_table rid bs m)\<lparr>num_cached_block := nc\<rparr>) # ys) b + int (count_list pend' b)"
    if b: "b \<in> pool_blocks p" "b \<noteq> Blk 0" for b
    using kv_invD(3)[OF inv b] cnt[OF b] by (simp add: tcount_update table_dict)
  ultimately show ?thesis using inv p' mgr_ok_frame[OF p'(2)] pool_frame_blocks[OF p'(2)] by (auto simp: kv_inv_def)
qed

lemma kv_inv_set0:
  assumes "kv_inv (xs @ m # ys) p free pend" "pool_inv p' free'" "pool_frame p p'"
    and "set bs \<subseteq> pool_blocks p" "distinct (filter (\<lambda>b. b \<noteq> Blk 0) bs)"
    and "\<And>b. b \<in> pool_blocks p \<Longrightarrow> b \<noteq> Blk 0 \<Longrightarrow>
      rc p' b - int (count_list pend' b) = rc p b - int (count_list pend b) - int (count_list (table m rid) b) + int (count_list bs b)"
  shows "kv_inv (xs @ set_table rid bs m # ys) p' free' pend'"
proof -
  have nc: "distinct (map fst (num_cached_block m))" using kv_invD(2)[OF assms(1), of m] by (simp add: mgr_ok_def)
  have e: "(set_table rid bs m)\<lparr>num_cached_block := num_cached_block m\<rparr> = set_table rid bs m"
    by (simp add: set_table_def)
  show ?thesis using kv_inv_set[OF assms(1-5) nc assms(6)] unfolding e .
qed

lemma kv_inv_dd_touch:
  assumes "kv_inv (xs @ m # ys) p free pend"
  shows "kv_inv (xs @ dd_touch rid m # ys) p free pend"
  unfolding dd_touch_def
  by (rule kv_inv_set0[OF assms]) (use kv_invD(1)[OF assms] mgr_okD(5,6)[OF kv_invD(2)[OF assms]] in auto)

lemma kv_inv_delete:
  assumes inv: "kv_inv (xs @ m # ys) p free pend" and p': "pool_inv p' free'" "pool_frame p p'"
    and cnt: "\<And>b. b \<in> pool_blocks p \<Longrightarrow> b \<noteq> Blk 0 \<Longrightarrow> rc p' b = rc p b - int (count_list (table m rid) b)"
  shows "kv_inv (xs @ m\<lparr>req_to_blocks := AList.delete rid (req_to_blocks m),
    num_cached_block := AList.delete rid (num_cached_block m)\<rparr> # ys) p' free' pend"
proof -
  have m: "mgr_ok p m" using kv_invD(2)[OF inv] by simp
  let ?m = "m\<lparr>req_to_blocks := AList.delete rid (req_to_blocks m), num_cached_block := AList.delete rid (num_cached_block m)\<rparr>"
  have "mgr_ok p ?m" using m by (auto simp: mgr_ok_def distinct_delete)
  moreover have "rc p' b = held (xs @ ?m # ys) b + int (count_list pend b)" if b: "b \<in> pool_blocks p" "b \<noteq> Blk 0" for b
    using kv_invD(3)[OF inv b] cnt[OF b] m by (simp add: tcount_delete table_dict mgr_ok_def)
  ultimately show ?thesis using inv p' mgr_ok_frame[OF p'(2)] pool_frame_blocks[OF p'(2)] by (auto simp: kv_inv_def)
qed

lemma table_held:
  assumes "kv_inv (xs @ m # ys) p free pend" "b \<in> set (table m rid)" "b \<noteq> Blk 0"
  shows "0 < rc p b"
proof -
  have "b \<in> pool_blocks p" using mgr_okD(5)[OF kv_invD(2)[OF assms(1)], of m rid] assms(2) by auto
  then have "rc p b = held (xs @ m # ys) b + int (count_list pend b)" using kv_invD(3)[OF assms(1)] assms(3) by blast
  moreover have "0 < count_list (table m rid) b" using assms(2) count_list_0_iff by (metis gr0I)
  then have "0 < tcount (req_to_blocks m) b" using tcount_ge[of "req_to_blocks m" rid b] by (simp add: table_dict)
  ultimately show ?thesis using held_nonneg[of xs b] held_nonneg[of ys b] by simp
qed

section \<open>Cached and uncached entries\<close>

text \<open>
  The entries of a table from the number of cached blocks on are blocks without a hash. A block
  without a hash is referenced at most once: only cached blocks are shared.
\<close>

definition tab_ok :: "block_pool \<Rightarrow> bref list \<Rightarrow> int \<Rightarrow> bool" where
  "tab_ok p bs k \<longleftrightarrow> 0 \<le> k \<and> k \<le> int (length bs) \<and>
     (\<forall>i<length bs. k \<le> int i \<longrightarrow> bs ! i \<noteq> Blk 0 \<and> bh p (bs ! i) = None)"

definition cache_ok :: "kv_manager list \<Rightarrow> block_pool \<Rightarrow> bool" where
  "cache_ok ms p \<longleftrightarrow> (\<forall>m \<in> set ms. \<forall>rid. tab_ok p (table m rid) (n_cached m rid)) \<and>
     (\<forall>b \<in> pool_blocks p. b \<noteq> Blk 0 \<and> bh p b = None \<longrightarrow> rc p b \<le> 1)"

definition kv_ok :: "kv_manager list \<Rightarrow> block_pool \<Rightarrow> bref list \<Rightarrow> bref list \<Rightarrow> bool" where
  "kv_ok ms p free pend \<longleftrightarrow> kv_inv ms p free pend \<and> (enable_caching p \<longrightarrow> cache_ok ms p)"

lemma kv_okD:
  assumes "kv_ok ms p free pend"
  shows "kv_inv ms p free pend" "pool_inv p free" "enable_caching p \<Longrightarrow> cache_ok ms p"
  using assms kv_invD(1) by (auto simp: kv_ok_def)

lemma cache_okD:
  assumes "cache_ok ms p"
  shows "m \<in> set ms \<Longrightarrow> tab_ok p (table m rid) (n_cached m rid)"
    "b \<in> pool_blocks p \<Longrightarrow> b \<noteq> Blk 0 \<Longrightarrow> bh p b = None \<Longrightarrow> rc p b \<le> 1"
  using assms by (auto simp: cache_ok_def)

text \<open>One table changes; hashes disappear only from blocks of no other table.\<close>

lemma cache_ok_set:
  assumes ok: "cache_ok (xs @ m # ys) p" and fr: "pool_frame p p'"
    and tabs: "\<And>m' rid'. m' \<in> set xs \<union> set ys \<Longrightarrow> tab_ok p' (table m' rid') (n_cached m' rid')"
    and own: "\<And>rid'. tab_ok p' (table m2 rid') (n_cached m2 rid')"
    and rc: "\<And>b. b \<in> pool_blocks p \<Longrightarrow> b \<noteq> Blk 0 \<Longrightarrow> bh p' b = None \<Longrightarrow> rc p' b \<le> 1"
  shows "cache_ok (xs @ m2 # ys) p'"
  using tabs own rc pool_frame_blocks[OF fr] by (auto simp: cache_ok_def)

lemma tab_ok_same: "tab_ok p bs k \<Longrightarrow> bh p' = bh p \<Longrightarrow> tab_ok p' bs k"
  by (simp add: tab_ok_def)

lemma cache_ok_tables:
  assumes "cache_ok (xs @ m # ys) p" "pool_frame p p'" "bh p' = bh p"
    and "\<And>rid'. tab_ok p (table m2 rid') (n_cached m2 rid')"
    and "\<And>b. b \<in> pool_blocks p \<Longrightarrow> b \<noteq> Blk 0 \<Longrightarrow> bh p b = None \<Longrightarrow> rc p' b \<le> 1"
  shows "cache_ok (xs @ m2 # ys) p'"
  by (rule cache_ok_set[OF assms(1,2)]) (use cache_okD(1)[OF assms(1)] assms(3-5) tab_ok_same in \<open>auto intro: tab_ok_same\<close>)

text \<open>What no method of a manager changes.\<close>

definition same_mgr :: "kv_manager \<Rightarrow> kv_manager \<Rightarrow> bool" where
  "same_mgr m m' \<longleftrightarrow> mgr_class m' = mgr_class m \<and> kv_cache_spec m' = kv_cache_spec m \<and>
     mgr_block_size m' = mgr_block_size m \<and> kv_cache_group_id m' = kv_cache_group_id m \<and>
     mgr_null_block m' = mgr_null_block m"

lemma same_mgr_simps [simp]:
  "same_mgr m m" "same_mgr m (set_table rid bs m)" "same_mgr m (dd_touch rid m)"
  "same_mgr m (m'\<lparr>num_cached_block := nc\<rparr>) = same_mgr m m'" "same_mgr m (m'\<lparr>req_to_blocks := t\<rparr>) = same_mgr m m'"
  by (simp_all add: same_mgr_def dd_touch_def)

lemma same_mgr_trans: "same_mgr a b \<Longrightarrow> same_mgr b c \<Longrightarrow> same_mgr a c"
  by (simp add: same_mgr_def)

section \<open>Operations of one manager\<close>

lemma mgr_free_ok:
  assumes ok: "kv_ok (xs @ m # ys) p free pend"
  shows "\<exists>m' p' d. mgr_free m p rid = Inr (m', p') \<and> kv_ok (xs @ m' # ys) p' (free @ d) pend \<and> same_mgr m m' \<and>
    pool_frame p p' \<and> bh p' = bh p \<and> map_of (req_to_blocks m') = (map_of (req_to_blocks m))(rid := None) \<and>
    map_of (num_cached_block m') = (map_of (num_cached_block m))(rid := None) \<and>
    d = filter (\<lambda>b. b \<noteq> Blk 0 \<and> rc p b = 1) (rev (table m rid))"
proof -
  note inv = kv_okD(1)[OF ok]
  have m: "mgr_ok p m" using kv_invD(2)[OF inv] by simp
  let ?m = "m\<lparr>req_to_blocks := AList.delete rid (req_to_blocks m), num_cached_block := AList.delete rid (num_cached_block m)\<rparr>"
  let ?d = "filter (\<lambda>b. b \<noteq> Blk 0 \<and> rc p b = 1) (rev (table m rid))"
  have h: "\<forall>b \<in> set (rev (table m rid)). b \<noteq> Blk 0 \<longrightarrow> 0 < rc p b" using table_held[OF inv] by auto
  have d: "distinct (filter (\<lambda>b. b \<noteq> Blk 0) (rev (table m rid)))" using mgr_okD(6)[OF m, of rid] by (simp flip: rev_filter)
  have s: "set (rev (table m rid)) \<subseteq> pool_blocks p" using mgr_okD(5)[OF m] by simp
  from free_blocks_spec[OF kv_okD(2)[OF ok] s d h] obtain p' where
    p': "free_blocks (rev (table m rid)) p = Inr p'" "pool_inv p' (free @ ?d)" "pool_frame p p'"
      "rc p' = (\<lambda>b. rc p b - int (count_list (rev (table m rid)) b))" "bh p' = bh p"
    by blast
  have "kv_inv (xs @ ?m # ys) p' (free @ ?d) pend"
    by (rule kv_inv_delete[OF inv p'(2,3)]) (simp add: p'(4))
  moreover have "cache_ok (xs @ ?m # ys) p'" if c: "cache_ok (xs @ m # ys) p"
  proof (rule cache_ok_tables[OF c p'(3,5)])
    show "tab_ok p (table ?m rid') (n_cached ?m rid')" for rid'
      using cache_okD(1)[OF c, of m rid'] by (simp add: n_cached_def delete_conv') (simp add: tab_ok_def)
    show "rc p' b \<le> 1" if "b \<in> pool_blocks p" "b \<noteq> Blk 0" "bh p b = None" for b
      using cache_okD(2)[OF c that] by (simp add: p'(4))
  qed
  ultimately have "kv_ok (xs @ ?m # ys) p' (free @ ?d) pend"
    using kv_okD(3)[OF ok] pool_frame_caching[OF p'(3)] by (simp add: kv_ok_def)
  moreover have "mgr_free m p rid = Inr (?m, p')" by (simp add: mgr_free_def p'(1))
  ultimately show ?thesis using p'(3,5)
    by (intro exI[of _ ?m] exI[of _ p'] exI[of _ ?d]) (simp add: delete_conv')
qed

end
