(* ===== verification/KV_Operations.thy ===== *)
theory KV_Operations
  imports KV_Invariant
begin

text \<open>
  Every operation of a block manager keeps the invariant, and what it does to tables, reference counts
  and hashes; then the loops of the coordinator over its managers.
\<close>

lemma count_list_distinct: "distinct xs \<Longrightarrow> count_list xs b = (if b \<in> set xs then 1 else 0)"
  by (induction xs) auto

lemma pool_shape_null: "pool_shape p \<Longrightarrow> Blk 0 \<in> pool_blocks p"
  by (auto simp: pool_shape_def pool_blocks_def)

section \<open>Allocation\<close>

text \<open>The number of blocks a manager needs for a request of \<open>n\<close> tokens.\<close>

definition required :: "kv_manager \<Rightarrow> int \<Rightarrow> int" where
  "required m n = (case mgr_num_tokens m n of Inl _ \<Rightarrow> 0 | Inr k \<Rightarrow> cdiv k (mgr_block_size m))"

definition spec_ok :: "kv_manager \<Rightarrow> bool" where
  "spec_ok m \<longleftrightarrow> spec_manager_map (kv_cache_spec m) = Some (mgr_class m)"

lemma mgr_num_tokens_ok: "spec_ok m \<Longrightarrow> \<exists>k. mgr_num_tokens m n = Inr k"
  by (cases "kv_cache_spec m") (auto simp: spec_ok_def mgr_num_tokens_def split: manager_class.splits)

lemma required_same:
  assumes "same_mgr m m'"
  shows "required m' n = required m n"
proof -
  have e: "mgr_class m' = mgr_class m" "kv_cache_spec m' = kv_cache_spec m" "mgr_block_size m' = mgr_block_size m"
    using assms by (simp_all add: same_mgr_def)
  show ?thesis unfolding required_def mgr_num_tokens_def e ..
qed

lemma spec_ok_same: "same_mgr m m' \<Longrightarrow> spec_ok m' = spec_ok m"
  by (simp add: spec_ok_def same_mgr_def)

lemma required_bind:
  assumes "spec_ok m" "0 < mgr_block_size m"
  shows "res_bind (mgr_num_tokens m n) (\<lambda>k. res_bind (py_cdiv k (mgr_block_size m)) f) = f (required m n)"
  using mgr_num_tokens_ok[OF assms(1), of n] assms(2) by (auto simp: required_def)

lemma count_blocks_spec:
  assumes "spec_ok m" "0 < mgr_block_size m"
  shows "mgr_get_num_blocks_to_allocate m p rid n bs =
    Inr (required m n - int (length bs) - int (length (table m rid)) + int (length (filter (evictable p) bs)), dd_touch rid m)"
  unfolding mgr_get_num_blocks_to_allocate_def required_bind[OF assms] by (simp add: Let_def)

lemma cache_ok_dd_touch: "cache_ok (xs @ m # ys) p \<Longrightarrow> cache_ok (xs @ dd_touch rid m # ys) p"
  by (auto simp: cache_ok_def)

lemma kv_ok_dd_touch: "kv_ok (xs @ m # ys) p free pend \<Longrightarrow> kv_ok (xs @ dd_touch rid m # ys) p free pend"
  by (simp add: kv_ok_def kv_inv_dd_touch cache_ok_dd_touch)

lemma tab_ok_append:
  assumes "tab_ok p bs k" "\<And>b. b \<in> set bs \<Longrightarrow> bh p' b = bh p b" "\<And>b. b \<in> set new \<Longrightarrow> b \<noteq> Blk 0 \<and> bh p' b = None"
  shows "tab_ok p' (bs @ new) k"
  using assms by (auto simp: tab_ok_def nth_append)

text \<open>A table entry is no free block.\<close>

lemma table_not_free:
  assumes "kv_inv (xs @ m # ys) p free pend" "m' \<in> set (xs @ m # ys)"
  shows "set (table m' rid) \<inter> set free = {}"
proof -
  obtain us vs where e: "xs @ m # ys = us @ m' # vs" using assms(2) by (metis split_list)
  have "0 < rc p b" if "b \<in> set (table m' rid)" "b \<noteq> Blk 0" for b
    using table_held[OF assms(1)[unfolded e] that] .
  then show ?thesis using pool_invD(2)[OF kv_invD(1)[OF assms(1)]] by fastforce
qed

lemma mgr_allocate_ok:
  assumes ok: "kv_ok (xs @ m # ys) p free pend" and so: "spec_ok m"
    and n: "n = max 0 (required m nt - int (length (table m rid)))" "n \<le> int (length free)"
  shows "\<exists>m' p'. mgr_allocate_new_blocks m p rid nt = Inr (take (nat n) free, m', p') \<and>
    kv_ok (xs @ m' # ys) p' (drop (nat n) free) pend \<and> same_mgr m m' \<and> pool_frame p p' \<and>
    (\<forall>r. table m' r = (if r = rid then table m rid @ take (nat n) free else table m r)) \<and>
    num_cached_block m' = num_cached_block m \<and>
    bh p' = (\<lambda>b. if b \<in> set (take (nat n) free) then None else bh p b) \<and>
    rc p' = (\<lambda>b. if b \<in> set (take (nat n) free) then 1 else rc p b)"
proof -
  have pos: "0 < mgr_block_size m" using mgr_okD(1)[OF kv_invD(2)[OF kv_okD(1)[OF ok], of m]] by simp
  show ?thesis
  proof (cases "required m nt - int (length (table m rid)) \<le> 0")
  case True
  then have "n = 0" using n(1) by simp
  moreover have "mgr_allocate_new_blocks m p rid nt = Inr ([], dd_touch rid m, p)"
    unfolding mgr_allocate_new_blocks_def required_bind[OF so pos] using True by (simp add: Let_def)
  ultimately show ?thesis using kv_ok_dd_touch[OF ok]
    by (intro exI[of _ "dd_touch rid m"] exI[of _ p]) simp
next
  case False
  note inv = kv_okD(1)[OF ok] and pinv = kv_okD(2)[OF ok]
  have m: "mgr_ok p m" using kv_invD(2)[OF inv] by simp
  have n': "n = required m nt - int (length (table m rid))" "0 \<le> n" using False n(1) by auto
  let ?new = "take (nat n) free"
  obtain p' where p': "get_new_blocks n p = Inr (?new, p')" "pool_inv p' (drop (nat n) free)" "pool_frame p p'"
    "rc p' = (\<lambda>b. if b \<in> set ?new then 1 else rc p b)" "bh p' = (\<lambda>b. if b \<in> set ?new then None else bh p b)"
    using get_new_blocks_spec[OF pinv n'(2) n(2)] by blast
  have sub: "set ?new \<subseteq> set free" by (rule set_take_subset)
  have nd: "set ?new \<subseteq> pool_blocks p" "Blk 0 \<notin> set ?new" "distinct ?new"
    using sub pool_invD(2)[OF pinv] fq_repr_distinct[OF pool_invD(1)[OF pinv]] by auto
  have disj: "set (table m' r) \<inter> set ?new = {}" if "m' \<in> set (xs @ m # ys)" for m' r
    using table_not_free[OF inv that, of r] sub by blast
  have rc0: "rc p b = 0" if "b \<in> set ?new" for b using that sub pool_invD(2)[OF pinv] by auto
  have inv': "kv_inv (xs @ set_table rid (table m rid @ ?new) m # ys) p' (drop (nat n) free) pend"
  proof (rule kv_inv_set0[OF inv p'(2,3)])
    show "set (table m rid @ ?new) \<subseteq> pool_blocks p" using mgr_okD(5)[OF m] nd(1) by auto
    show "distinct (filter (\<lambda>b. b \<noteq> Blk 0) (table m rid @ ?new))"
      using mgr_okD(6)[OF m, of rid] nd(3) disj[of m rid] by auto
    show "rc p' b - int (count_list pend b) = rc p b - int (count_list pend b) - int (count_list (table m rid) b) +
        int (count_list (table m rid @ ?new) b)" for b
      using nd(3) rc0[of b] by (auto simp: p'(4) count_list_distinct)
  qed
  have "cache_ok (xs @ set_table rid (table m rid @ ?new) m # ys) p'" if c: "cache_ok (xs @ m # ys) p"
  proof (rule cache_ok_set[OF c p'(3)])
    have keep: "bh p' b = bh p b" if "m' \<in> set (xs @ m # ys)" "b \<in> set (table m' r)" for m' r b
      using disj[OF that(1), of r] that(2) by (auto simp: p'(5))
    have same: "tab_ok p' (table m' r) (n_cached m' r)" if "m' \<in> set (xs @ m # ys)" for m' r
      using tab_ok_append[OF cache_okD(1)[OF c that, of r], of p' "[]"] keep[OF that, of _ r] by simp
    then show "tab_ok p' (table m' r) (n_cached m' r)" if "m' \<in> set xs \<union> set ys" for m' r using that by auto
    show "tab_ok p' (table (set_table rid (table m rid @ ?new) m) r) (n_cached (set_table rid (table m rid @ ?new) m) r)" for r
      using same[of m r] tab_ok_append[OF cache_okD(1)[OF c, of m rid], of p' ?new] keep[of m _ rid] nd(2)
      by (auto simp: p'(5))
    show "rc p' b \<le> 1" if "b \<in> pool_blocks p" "b \<noteq> Blk 0" "bh p' b = None" for b
      using cache_okD(2)[OF c that(1,2)] that(3) by (auto simp: p'(4,5) split: if_splits)
  qed
  then have "kv_ok (xs @ set_table rid (table m rid @ ?new) m # ys) p' (drop (nat n) free) pend"
    using inv' kv_okD(3)[OF ok] pool_frame_caching[OF p'(3)] by (simp add: kv_ok_def)
  moreover have "mgr_allocate_new_blocks m p rid nt = Inr (?new, set_table rid (table m rid @ ?new) m, p')"
    unfolding mgr_allocate_new_blocks_def required_bind[OF so pos] using False p'(1) by (simp add: Let_def n'(1))
  ultimately show ?thesis using p'(3-5)
    by (intro exI[of _ "set_table rid (table m rid @ ?new) m"] exI[of _ p']) simp
  qed
qed

section \<open>Releasing skipped blocks\<close>

lemma skip_loop_spec:
  assumes "n \<le> length bs"
  shows "\<exists>k\<le>n. skip_loop nb n bs acc = Inr (acc @ rev (take (n - k) (drop k bs)), take k bs @ replicate (n - k) nb @ drop n bs) \<and>
    nb \<notin> set (take (n - k) (drop k bs)) \<and> (k = 0 \<or> bs ! (k - 1) = nb)"
  using assms
proof (induction n arbitrary: bs acc)
  case (Suc i)
  show ?case
  proof (cases "bs ! i = nb")
    case True
    then show ?thesis using Suc.prems by (intro exI[of _ "Suc i"]) auto
  next
    case False
    let ?bs = "bs[i := nb]"
    have l: "i \<le> length ?bs" "i < length bs" using Suc.prems by auto
    obtain k where k: "k \<le> i"
      "skip_loop nb i ?bs (acc @ [bs ! i]) = Inr ((acc @ [bs ! i]) @ rev (take (i - k) (drop k ?bs)), take k ?bs @ replicate (i - k) nb @ drop i ?bs)"
      "nb \<notin> set (take (i - k) (drop k ?bs))" "k = 0 \<or> ?bs ! (k - 1) = nb"
      using Suc.IH[OF l(1), of "acc @ [bs ! i]"] by blast
    have e1: "take (i - k) (drop k ?bs) = take (i - k) (drop k bs)" using k(1) by (simp add: drop_update_swap)
    have e2: "take (Suc i - k) (drop k bs) = take (i - k) (drop k bs) @ [bs ! i]"
      using k(1) l(2) by (simp add: Suc_diff_le take_Suc_conv_app_nth)
    have e3: "replicate (i - k) nb @ drop i ?bs = replicate (Suc i - k) nb @ drop (Suc i) bs"
      using k(1) l(2) by (simp add: Suc_diff_le replicate_append_same Cons_nth_drop_Suc[symmetric])
    have e4: "take k ?bs = take k bs" "k = 0 \<or> ?bs ! (k - 1) = bs ! (k - 1)"
      using k(1) by (simp, cases k) auto
    have "skip_loop nb (Suc i) bs acc = skip_loop nb i ?bs (acc @ [bs ! i])" using False l(2) by simp
    also have "\<dots> = Inr (acc @ rev (take (Suc i - k) (drop k bs)), take k bs @ replicate (Suc i - k) nb @ drop (Suc i) bs)"
      unfolding k(2) e1 e2 e3 e4(1) by simp
    finally show ?thesis using k(1,3,4) e4(2) False by (intro exI[of _ k]) (auto simp: e1 e2)
  qed
qed simp

lemma split3: "k \<le> n \<Longrightarrow> bs = take k bs @ take (n - k) (drop k bs) @ drop n bs"
  by (metis append_take_drop_id drop_drop le_add_diff_inverse2)

lemma mgr_skip_ok:
  assumes ok: "kv_ok (xs @ m # ys) p free pend"
    and s: "get_num_skipped_tokens m nt = Inr s" "0 < s \<Longrightarrow> s div mgr_block_size m \<le> int (length (table m rid))"
    and c: "enable_caching p \<Longrightarrow> 0 < s \<Longrightarrow> s div mgr_block_size m \<le> n_cached m rid"
  shows "\<exists>m' p' d. mgr_remove_skipped_blocks m p rid nt = Inr (m', p') \<and> kv_ok (xs @ m' # ys) p' (free @ d) pend \<and>
    same_mgr m m' \<and> pool_frame p p' \<and> bh p' = bh p \<and> num_cached_block m' = num_cached_block m \<and>
    (\<forall>r. r \<noteq> rid \<longrightarrow> table m' r = table m r) \<and> length (table m' rid) = length (table m rid) \<and>
    (\<forall>i<length (table m rid). table m' rid ! i = table m rid ! i \<or> table m' rid ! i = Blk 0 \<and> int i < s div mgr_block_size m)"
proof (cases "s \<le> 0")
  case True
  then show ?thesis using ok s(1)
    by (intro exI[of _ m] exI[of _ p] exI[of _ "[]"]) (simp add: mgr_remove_skipped_blocks_def)
next
  case False
  note inv = kv_okD(1)[OF ok]
  have m: "mgr_ok p m" using kv_invD(2)[OF inv] by simp
  let ?n = "nat (s div mgr_block_size m)" and ?t = "table m rid"
  have pos: "0 < mgr_block_size m" using mgr_okD(1)[OF m] .
  then have nn: "0 \<le> s div mgr_block_size m" using False by (simp add: pos_imp_zdiv_nonneg_iff)
  have n: "?n \<le> length ?t" using s(2) False nn by linarith
  obtain k where k: "k \<le> ?n" "skip_loop (Blk 0) ?n ?t [] =
      Inr (rev (take (?n - k) (drop k ?t)), take k ?t @ replicate (?n - k) (Blk 0) @ drop ?n ?t)"
    "Blk 0 \<notin> set (take (?n - k) (drop k ?t))"
    using skip_loop_spec[OF n, of "Blk 0" "[]"] by auto
  let ?rem = "take (?n - k) (drop k ?t)" and ?bs = "take k ?t @ replicate (?n - k) (Blk 0) @ drop ?n ?t"
  note sp = split3[OF k(1), of ?t]
  have rs: "set ?rem \<subseteq> set ?t" by (meson set_drop_subset set_take_subset subset_trans)
  have dt: "distinct (filter (\<lambda>b. b \<noteq> Blk 0) (take k ?t) @ filter (\<lambda>b. b \<noteq> Blk 0) ?rem @ filter (\<lambda>b. b \<noteq> Blk 0) (drop ?n ?t))"
    using mgr_okD(6)[OF m, of rid] by (subst (asm) sp) (simp only: filter_append)
  have f: "filter (\<lambda>b. b \<noteq> Blk 0) ?rem = ?rem" using k(3) by (auto simp: filter_id_conv)
  have h: "set (rev ?rem) \<subseteq> pool_blocks p" "distinct (filter (\<lambda>b. b \<noteq> Blk 0) (rev ?rem))"
    "\<forall>b \<in> set (rev ?rem). b \<noteq> Blk 0 \<longrightarrow> 0 < rc p b"
    using rs mgr_okD(5)[OF m, of rid] table_held[OF inv, of _ rid] dt by (auto simp: f simp flip: rev_filter)
  obtain p' d where p': "free_blocks (rev ?rem) p = Inr p'" "pool_inv p' (free @ d)" "pool_frame p p'"
      "rc p' = (\<lambda>b. rc p b - int (count_list (rev ?rem) b))" "bh p' = bh p"
    using free_blocks_spec[OF kv_okD(2)[OF ok] h] by blast
  have cnt: "count_list ?t b = count_list ?bs b + count_list ?rem b" if "b \<noteq> Blk 0" for b
    using that by (subst sp) (simp add: count_list_0_iff)
  have inv': "kv_inv (xs @ set_table rid ?bs m # ys) p' (free @ d) pend"
  proof (rule kv_inv_set0[OF inv p'(2,3)])
    show "set ?bs \<subseteq> pool_blocks p"
      using mgr_okD(5)[OF m, of rid] pool_shape_null[OF pool_invD(7)[OF kv_okD(2)[OF ok]]]
      by (auto dest: in_set_takeD in_set_dropD)
    show "distinct (filter (\<lambda>b. b \<noteq> Blk 0) ?bs)" using dt by auto
    show "rc p' b - int (count_list pend b) = rc p b - int (count_list pend b) - int (count_list ?t b) + int (count_list ?bs b)"
      if "b \<noteq> Blk 0" for b using cnt[OF that] by (simp add: p'(4))
  qed
  have nth: "?bs ! i = ?t ! i \<or> ?bs ! i = Blk 0 \<and> int i < s div mgr_block_size m" if "i < length ?t" for i
    using that k(1) n nn by (auto simp: nth_append)
  have lbs: "length ?bs = length ?t" using k(1) n by simp
  have "cache_ok (xs @ set_table rid ?bs m # ys) p'" if e: "enable_caching p"
  proof (rule cache_ok_tables[OF kv_okD(3)[OF ok e] p'(3,5)])
    have "tab_ok p ?bs (n_cached m rid)"
      using cache_okD(1)[OF kv_okD(3)[OF ok e], of m rid] nth c[OF e] False lbs by (fastforce simp: tab_ok_def)
    then show "tab_ok p (table (set_table rid ?bs m) r) (n_cached (set_table rid ?bs m) r)" for r
      using cache_okD(1)[OF kv_okD(3)[OF ok e], of m r] by simp
    show "rc p' b \<le> 1" if "b \<in> pool_blocks p" "b \<noteq> Blk 0" "bh p b = None" for b
      using cache_okD(2)[OF kv_okD(3)[OF ok e] that] by (simp add: p'(4))
  qed
  then have "kv_ok (xs @ set_table rid ?bs m # ys) p' (free @ d) pend"
    using inv' pool_frame_caching[OF p'(3)] by (simp add: kv_ok_def)
  moreover have "mgr_remove_skipped_blocks m p rid nt = Inr (set_table rid ?bs m, p')"
    using False s(1) pos k(2) p'(1) mgr_okD(2)[OF m] by (simp add: mgr_remove_skipped_blocks_def)
  ultimately show ?thesis using p'(3,5) lbs nth
    by (intro exI[of _ "set_table rid ?bs m"] exI[of _ p'] exI[of _ d]) simp
qed

section \<open>Saving computed blocks\<close>

text \<open>
  Touching computed blocks makes them pending references of a request.
\<close>

lemma touch_ok:
  assumes ok: "kv_ok ms p free pend" and bs: "set (concat bss) \<subseteq> pool_blocks p"
    and hashed: "enable_caching p \<Longrightarrow> \<forall>b \<in> set (concat bss). b \<noteq> Blk 0 \<longrightarrow> bh p b \<noteq> None"
  shows "\<exists>p'. touch bss p = Inr p' \<and> kv_ok ms p' (filter (\<lambda>b. b \<notin> set (concat bss)) free) (concat bss @ pend) \<and>
    pool_frame p p' \<and> bh p' = bh p"
proof -
  note inv = kv_okD(1)[OF ok]
  obtain p' where p': "touch bss p = Inr p'" "pool_inv p' (filter (\<lambda>b. b \<notin> set (concat bss)) free)" "pool_frame p p'"
    "rc p' = (\<lambda>b. rc p b + int (count_list (concat bss) b))" "bh p' = bh p"
    using touch_spec[OF kv_okD(2)[OF ok] bs] by blast
  have "kv_inv ms p' (filter (\<lambda>b. b \<notin> set (concat bss)) free) (concat bss @ pend)"
    using inv p'(2) unfolding kv_inv_def p'(4) pool_frame_blocks[OF p'(3)] mgr_ok_frame[OF p'(3)] by simp
  moreover have "cache_ok ms p'" if e: "enable_caching p"
  proof -
    have "rc p' b \<le> 1" if b: "b \<in> pool_blocks p" "b \<noteq> Blk 0" "bh p b = None" for b
    proof -
      have "b \<notin> set (concat bss)" using hashed[OF e] b by blast
      then have "count_list (concat bss) b = 0" by (simp add: count_list_0_iff)
      then show ?thesis using cache_okD(2)[OF kv_okD(3)[OF ok e] b] by (simp add: p'(4))
    qed
    then show ?thesis using kv_okD(3)[OF ok e] tab_ok_same[OF _ p'(5)]
      unfolding cache_ok_def pool_frame_blocks[OF p'(3)] p'(5) by blast
  qed
  ultimately show ?thesis using p'(1,3,5) pool_frame_caching[OF p'(3)] by (auto simp: kv_ok_def)
qed

lemma mgr_save_ok:
  assumes ok: "kv_ok (xs @ m # ys) p free (bs @ pend)"
    and bs: "set bs \<subseteq> pool_blocks p" "distinct (filter (\<lambda>b. b \<noteq> Blk 0) bs)"
    and new: "bs \<noteq> [] \<Longrightarrow> mgr_class m \<noteq> CrossAttentionManager \<and> map_of (num_cached_block m) rid = None"
      "map_of (num_cached_block m) rid = None \<Longrightarrow> mgr_class m \<noteq> CrossAttentionManager \<Longrightarrow> table m rid = []"
  shows "\<exists>m'. mgr_save_new_computed_blocks m rid bs = Inr m' \<and> kv_ok (xs @ m' # ys) p free pend \<and> same_mgr m m' \<and>
    (\<forall>r. table m' r = (if r = rid then table m rid @ bs else table m r)) \<and>
    (\<forall>r. n_cached m' r = (if r = rid \<and> bs \<noteq> [] then int (length bs) else n_cached m r))"
proof (cases "mgr_class m \<noteq> CrossAttentionManager \<and> map_of (num_cached_block m) rid = None")
  case True
  note inv = kv_okD(1)[OF ok]
  have m: "mgr_ok p m" using kv_invD(2)[OF inv] by simp
  have t: "table m rid = []" using new(2) True by simp
  have nc0: "n_cached m rid = 0" using True by (simp add: n_cached_def)
  let ?nc = "AList.update rid (int (length bs)) (num_cached_block m)"
  let ?m = "(set_table rid (table m rid @ bs) m)\<lparr>num_cached_block := ?nc\<rparr>"
  have e: "mgr_save_new_computed_blocks m rid bs = Inr ?m" using True t by (simp add: mgr_save_new_computed_blocks_def)
  have nc: "distinct (map fst ?nc)" using mgr_okD(4)[OF m] by (rule distinct_update)
  have inv': "kv_inv (xs @ ?m # ys) p free pend"
    by (rule kv_inv_set[OF inv kv_okD(2)[OF ok] pool_frame_refl _ _ nc]) (use bs t in simp_all)
  have n: "n_cached ?m r = (if r = rid then int (length bs) else n_cached m r)" for r by (simp add: n_cached_def update_conv')
  have "cache_ok (xs @ ?m # ys) p" if c: "cache_ok (xs @ m # ys) p"
  proof (rule cache_ok_tables[OF c pool_frame_refl refl])
    show "tab_ok p (table ?m r) (n_cached ?m r)" for r
      unfolding n using cache_okD(1)[OF c, of m r] t by (auto simp: tab_ok_def)
    show "rc p b \<le> 1" if "b \<in> pool_blocks p" "b \<noteq> Blk 0" "bh p b = None" for b using cache_okD(2)[OF c that] .
  qed
  then have "kv_ok (xs @ ?m # ys) p free pend" using inv' kv_okD(3)[OF ok] by (simp add: kv_ok_def)
  then show ?thesis using e n nc0 by (intro exI[of _ ?m]) simp
next
  case False
  then have "bs = []" using new(1) by blast
  moreover have "mgr_save_new_computed_blocks m rid [] = Inr m" using False by (auto simp: mgr_save_new_computed_blocks_def)
  ultimately show ?thesis using ok by (intro exI[of _ m]) simp
qed

section \<open>Caching full blocks\<close>

lemma new_hashes_scaled:
  assumes "0 < hash_block_size p" "0 < bsz" "bsz mod hash_block_size p = 0" "0 \<le> nc"
  shows "new_block_hashes p hs bsz nc = Inr (drop (nat nc) (scaled_hashes (hash_block_size p) bsz hs))"
proof (cases "bsz = hash_block_size p")
  case True
  then show ?thesis using assms(1) by (simp add: new_block_hashes_def scaled_same)
next
  case False
  then show ?thesis using bhl_scaled[OF assms(1-3), of hs] assms by (auto simp: new_block_hashes_def)
qed

text \<open>Hashes of full hash blocks cover the full blocks of a coarser granularity.\<close>

lemma scaled_covers:
  assumes "0 < hbs" "0 < bsz" "bsz mod hbs = 0" "nt div hbs \<le> int (length hs)" "0 \<le> nt"
  shows "nt div bsz \<le> int (length (scaled_hashes hbs bsz hs))" "nt div bsz \<le> int (length hs)"
proof -
  let ?f = "bsz div hbs"
  have b: "bsz = hbs * ?f" using assms(3) by (metis add.right_neutral mult_div_mod_eq)
  have f: "0 < ?f" using assms(1,2) b by (metis zero_less_mult_pos)
  have e: "nt div bsz = nt div hbs div ?f" using f by (subst b) (simp add: zdiv_zmult2_eq)
  also have "\<dots> \<le> int (length hs) div ?f" using assms(4) f by (rule zdiv_mono1)
  finally show "nt div bsz \<le> int (length (scaled_hashes hbs bsz hs))" using f by (simp add: length_scaled zdiv_int)
  have "nt div hbs div ?f \<le> nt div hbs div 1"
    using assms(1,5) f by (intro zdiv_mono2) (simp_all add: pos_imp_zdiv_nonneg_iff)
  then have "nt div bsz \<le> nt div hbs" by (simp add: e)
  then show "nt div bsz \<le> int (length hs)" using assms(4) by simp
qed

text \<open>Two entries of different tables count twice.\<close>

lemma tcount_two: "k \<noteq> k' \<Longrightarrow> int (count_list (dict_get al k) b) + int (count_list (dict_get al k') b) \<le> tcount al b"
proof (induction al)
  case (Cons x al)
  obtain j v where x: "x = (j, v)" by (cases x)
  have "dict_get (x # al) i = (if i = j then v else dict_get al i)" for i by (simp add: x dict_get_def)
  then show ?case using Cons tcount_ge[of al k b] tcount_ge[of al k' b] by (auto simp: x)
qed (simp add: dict_get_def)

lemma held_member: "m \<in> set ms \<Longrightarrow> int (count_list (table m rid) b) \<le> held ms b"
proof (induction ms)
  case (Cons a ms)
  then show ?case using tcount_ge[of "req_to_blocks a" rid b] tcount_nonneg[of "req_to_blocks a" b] held_nonneg[of ms b]
    by (auto simp: table_dict)
qed simp

lemma single_owner:
  assumes inv: "kv_inv (xs @ m # ys) p free pend" and b: "b \<in> set (table m rid)" "b \<noteq> Blk 0" "rc p b \<le> 1"
  shows "m' \<in> set xs \<union> set ys \<Longrightarrow> b \<notin> set (table m' r)" "r \<noteq> rid \<Longrightarrow> b \<notin> set (table m r)"
proof -
  have "b \<in> pool_blocks p" using mgr_okD(5)[OF kv_invD(2)[OF inv], of m rid] b(1) by auto
  then have one: "tcount (req_to_blocks m) b + held (xs @ ys) b \<le> 1" using kv_invD(3)[OF inv _ b(2)] b(3) by simp
  have pos: "0 < count_list l b" if "b \<in> set l" for l :: "bref list" using that count_list_0_iff by (metis gr0I)
  have t: "int (count_list (table m rid) b) \<le> tcount (req_to_blocks m) b" by (simp add: table_dict tcount_ge)
  show "b \<notin> set (table m' r)" if "m' \<in> set xs \<union> set ys"
    using held_member[of m' "xs @ ys" r b] that one pos[OF b(1)] t pos[of "table m' r"] by auto
  show "b \<notin> set (table m r)" if "r \<noteq> rid"
    using tcount_two[of r rid "req_to_blocks m" b] that one pos[OF b(1)] held_nonneg[of "xs @ ys" b] pos[of "table m r"]
    by (auto simp: table_dict)
qed

lemma slice_nth:
  assumes "0 \<le> i" "i \<le> j" "j \<le> int (length xs)"
  shows "length (py_slice xs i j) = nat (j - i)" "k < nat (j - i) \<Longrightarrow> py_slice xs i j ! k = xs ! (nat i + k)"
  using assms by (auto simp: py_slice_def nat_diff_distrib)

text \<open>The uncached entries of a table: distinct, not null, without hash.\<close>

lemma uncached_slice:
  assumes t: "tab_ok p bs nc" and bs: "set bs \<subseteq> pool_blocks p" "distinct (filter (\<lambda>b. b \<noteq> Blk 0) bs)"
    and nf: "nc < nf" "nf \<le> int (length bs)"
  shows "set (py_slice bs nc nf) \<subseteq> pool_blocks p - {Blk 0}" "distinct (py_slice bs nc nf)"
    "\<forall>b\<in>set (py_slice bs nc nf). bh p b = None"
    "\<And>i. i < length bs \<Longrightarrow> nf \<le> int i \<Longrightarrow> bs ! i \<notin> set (py_slice bs nc nf)"
proof -
  let ?d = "drop (nat nc) bs"
  have nc: "0 \<le> nc" using t by (simp add: tab_ok_def)
  have d: "b \<noteq> Blk 0 \<and> bh p b = None" if "b \<in> set ?d" for b
    using that t nc by (auto simp: in_set_conv_nth tab_ok_def)
  have "distinct (filter (\<lambda>b. b \<noteq> Blk 0) ?d)"
    using bs(2) by (subst (asm) append_take_drop_id[of "nat nc" bs, symmetric]) (simp only: filter_append distinct_append)
  moreover have "filter (\<lambda>b. b \<noteq> Blk 0) ?d = ?d" using d by (auto simp: filter_id_conv)
  ultimately have dist: "distinct ?d" by simp
  have sl: "py_slice bs nc nf = take (nat nf - nat nc) ?d" using nc nf by (simp add: py_slice_def)
  then have sub: "set (py_slice bs nc nf) \<subseteq> set ?d" by (simp add: set_take_subset)
  then show "set (py_slice bs nc nf) \<subseteq> pool_blocks p - {Blk 0}" using d bs(1) by (auto dest: in_set_dropD)
  show "\<forall>b\<in>set (py_slice bs nc nf). bh p b = None" using sub d by blast
  show "distinct (py_slice bs nc nf)" using dist by (simp add: sl)
  show "bs ! i \<notin> set (py_slice bs nc nf)" if i: "i < length bs" "nf \<le> int i" for i
  proof -
    have e: "?d = py_slice bs nc nf @ drop (nat nf) bs"
      unfolding sl using nc nf by (metis append_take_drop_id drop_drop le_add_diff_inverse2 nat_mono order_less_imp_le)
    have "bs ! i \<in> set (drop (nat nf) bs)"
      using i nc nf by (auto simp: in_set_conv_nth intro!: exI[of _ "i - nat nf"])
    then show ?thesis using dist unfolding e by auto
  qed
qed

lemma cache_ok_cached:
  assumes inv: "kv_inv (xs @ m # ys) p free pend" and c: "cache_ok (xs @ m # ys) p" and fr: "pool_frame p p'" "rc p' = rc p"
    and nf: "n_cached m rid < nf" "nf \<le> int (length (table m rid))"
    and keep: "\<And>b. b \<notin> set (py_slice (table m rid) (n_cached m rid) nf) \<Longrightarrow> bh p' b = bh p b"
    and more: "\<And>b. bh p' b = None \<Longrightarrow> bh p b = None"
    and m2: "\<And>r. table m2 r = table m r" "\<And>r. n_cached m2 r = (if r = rid then nf else n_cached m r)"
  shows "cache_ok (xs @ m2 # ys) p'"
proof (rule cache_ok_set[OF c fr(1)])
  have m: "mgr_ok p m" using kv_invD(2)[OF inv] by simp
  let ?s = "py_slice (table m rid) (n_cached m rid) nf"
  have t: "tab_ok p (table m r) (n_cached m r)" for r using cache_okD(1)[OF c] by simp
  note us = uncached_slice[OF t mgr_okD(5,6)[OF m] nf]
  have own: "m' \<in> set xs \<union> set ys \<Longrightarrow> b \<notin> set (table m' r)" "r \<noteq> rid \<Longrightarrow> b \<notin> set (table m r)" if "b \<in> set ?s" for b m' r
  proof -
    have b: "b \<in> set (table m rid)" using that by (auto simp: py_slice_def dest: in_set_takeD in_set_dropD)
    have "b \<in> pool_blocks p" "b \<noteq> Blk 0" "bh p b = None" using that us(1,3) by auto
    then show "m' \<in> set xs \<union> set ys \<Longrightarrow> b \<notin> set (table m' r)" "r \<noteq> rid \<Longrightarrow> b \<notin> set (table m r)"
      using single_owner[OF inv b] cache_okD(2)[OF c] by blast+
  qed
  show "tab_ok p' (table m' r) (n_cached m' r)" if "m' \<in> set xs \<union> set ys" for m' r
    using tab_ok_append[OF cache_okD(1)[OF c, of m' r], of p' "[]"] that own(1)[OF _ that] keep by auto
  show "tab_ok p' (table m2 r) (n_cached m2 r)" for r
  proof (cases "r = rid")
    case True
    have "table m rid ! i \<noteq> Blk 0 \<and> bh p' (table m rid ! i) = None" if "i < length (table m rid)" "nf \<le> int i" for i
      using that t[of rid] nf us(4)[OF that] keep by (auto simp: tab_ok_def)
    then show ?thesis using True t[of rid] nf by (auto simp: m2 tab_ok_def)
  next
    case False
    then show ?thesis using tab_ok_append[OF t[of r], of p' "[]"] own(2)[of _ r] keep by (auto simp: m2)
  qed
  show "rc p' b \<le> 1" if "b \<in> pool_blocks p" "b \<noteq> Blk 0" "bh p' b = None" for b
    using cache_okD(2)[OF c that(1,2) more[OF that(3)]] by (simp add: fr(2))
qed

text \<open>What caching needs of the manager, the request and the pool.\<close>

definition cacheable :: "block_pool \<Rightarrow> Request \<Rightarrow> int \<Rightarrow> kv_manager \<Rightarrow> bool" where
  "cacheable p r nt m \<longleftrightarrow> mgr_class m \<noteq> CrossAttentionManager \<and> group_ok (kv_cache_group_id m) \<and>
     0 < hash_block_size p \<and> mgr_block_size m mod hash_block_size p = 0 \<and> 0 \<le> nt \<and>
     nt div hash_block_size p \<le> int (length (block_hashes r))"

lemma cacheable_frame: "pool_frame p p' \<Longrightarrow> same_mgr m m' \<Longrightarrow> cacheable p' r nt m' = cacheable p r nt m"
  by (simp add: cacheable_def pool_frame_def same_mgr_def)

lemma kv_inv_cached:
  assumes inv: "kv_inv (xs @ m # ys) p free pend" and p': "pool_inv p' free" "pool_frame p p'" "rc p' = rc p"
  shows "kv_inv (xs @ ((dd_touch rid m)\<lparr>num_cached_block := AList.update rid nf (num_cached_block m)\<rparr>) # ys) p' free pend"
proof -
  have m: "mgr_ok p m" using kv_invD(2)[OF inv] by simp
  show ?thesis unfolding dd_touch_def
    by (rule kv_inv_set[OF inv p'(1,2) mgr_okD(5,6)[OF m] distinct_update[OF mgr_okD(4)[OF m]]]) (simp add: p'(3))
qed

lemma mgr_cache_ok:
  fixes m r nt
  defines "rid \<equiv> request_id r" and "nf \<equiv> nt div mgr_block_size m" and "bsz \<equiv> mgr_block_size m"
  assumes ok: "kv_ok (xs @ m # ys) p free pend" and e: "enable_caching p" and ev: "\<not> enable_kv_cache_events p"
    and ca: "cacheable p r nt m" and len: "nf \<le> int (length (table m rid))"
  shows "\<exists>m' p'. mgr_cache_blocks m p r nt = Inr (m', p') \<and> kv_ok (xs @ m' # ys) p' free pend \<and> same_mgr m m' \<and>
    pool_frame p p' \<and> rc p' = rc p \<and> (\<forall>q. table m' q = table m q) \<and>
    (\<forall>q. n_cached m' q = (if q = rid then max (n_cached m rid) nf else n_cached m q)) \<and>
    (\<forall>b. bh p b \<noteq> None \<longrightarrow> bh p' b = bh p b) \<and>
    (\<forall>i. n_cached m rid \<le> int i \<and> int i < nf \<longrightarrow>
       bh p' (table m rid ! i) = Some (gkey (kv_cache_group_id m) (scaled_hashes (hash_block_size p) bsz (block_hashes r) ! i)))"
proof (cases "nf \<le> n_cached m rid")
  case True
  have "0 < bsz" using mgr_okD(1)[OF kv_invD(2)[OF kv_okD(1)[OF ok], of m]] by (simp add: bsz_def)
  then have "mgr_cache_blocks m p r nt = Inr (m, p)"
    using True ca by (simp add: mgr_cache_blocks_def cacheable_def nf_def rid_def bsz_def)
  then show ?thesis using ok True by (intro exI[of _ m] exI[of _ p]) auto
next
  case False
  note inv = kv_okD(1)[OF ok] and c = kv_okD(3)[OF ok e]
  have m: "mgr_ok p m" using kv_invD(2)[OF inv] by simp
  let ?nc = "n_cached m rid" and ?t = "table m rid" and ?g = "kv_cache_group_id m"
  let ?hs = "scaled_hashes (hash_block_size p) bsz (block_hashes r)" and ?s = "py_slice (table m rid) (n_cached m rid) nf"
  have pos: "0 < bsz" using mgr_okD(1)[OF m] by (simp add: bsz_def)
  have t: "tab_ok p ?t ?nc" using cache_okD(1)[OF c] by simp
  then have nc: "0 \<le> ?nc" "?nc < nf" using False by (auto simp: tab_ok_def)
  note us = uncached_slice[OF t mgr_okD(5,6)[OF m] nc(2) len]
  have ca': "group_ok ?g" "0 < hash_block_size p" "bsz mod hash_block_size p = 0" "0 \<le> nt"
    "nt div hash_block_size p \<le> int (length (block_hashes r))" using ca by (auto simp: cacheable_def bsz_def)
  note cov = scaled_covers[OF ca'(2) pos ca'(3,5,4)]
  have nfl: "nf \<le> int (length ?hs)" "nf \<le> int (length (block_hashes r))" using cov by (simp_all add: nf_def bsz_def)
  have l: "nf - ?nc \<le> int (length (drop (nat ?nc) ?hs))" using nfl(1) nc by simp
  obtain p' where p': "cache_full_blocks r ?t ?nc nf bsz ?g p = Inr p'" "pool_inv p' free" "pool_frame p p'" "rc p' = rc p"
    "bh p' = bh p ++ map_of (zip ?s (map (gkey ?g) (drop (nat ?nc) ?hs)))"
    using cache_full_blocks_spec[OF kv_okD(2)[OF ok] e ca'(1) nc len nfl(2) new_hashes_scaled[OF ca'(2) pos ca'(3) nc(1)] l us(1-3)] ev
    by blast
  let ?m = "(dd_touch rid m)\<lparr>num_cached_block := AList.update rid nf (num_cached_block m)\<rparr>"
  have keep: "bh p' b = bh p b" if "b \<notin> set ?s" for b
    using that by (simp add: p'(5) map_add_def split: option.splits) (metis map_of_SomeD set_zip_leftD)
  have new: "bh p' (?t ! i) = Some (gkey ?g (?hs ! i))" if i: "?nc \<le> int i" "int i < nf" for i
  proof -
    let ?j = "i - nat ?nc"
    have j: "?j < nat (nf - ?nc)" "nat ?nc + ?j = i" using i nc by auto
    have sl: "length ?s = nat (nf - ?nc)" "?s ! ?j = ?t ! i"
      using slice_nth(1)[OF nc(1) _ len] slice_nth(2)[OF nc(1) _ len, of ?j] nc(2) j by simp_all
    have jl: "?j < length ?hs - nat ?nc" using i nc(1) nfl(1) by linarith
    have "map (gkey ?g) (drop (nat ?nc) ?hs) ! ?j = gkey ?g (?hs ! i)" using jl j(2) by simp
    then have "(?t ! i, gkey ?g (?hs ! i)) \<in> set (zip ?s (map (gkey ?g) (drop (nat ?nc) ?hs)))"
      using sl j(1) jl by (auto simp: in_set_zip intro!: exI[of _ ?j])
    moreover have "distinct (map fst (zip ?s (map (gkey ?g) (drop (nat ?nc) ?hs))))"
      using us(2) by (simp add: map_fst_zip_take)
    ultimately show ?thesis by (simp add: p'(5))
  qed
  have more: "bh p b = None" if "bh p' b = None" for b using that by (simp add: p'(5) map_add_None)
  have old: "bh p' b = bh p b" if "bh p b \<noteq> None" for b
  proof (rule keep)
    show "b \<notin> set ?s" using us(3) that by (auto simp del: not_None_eq)
  qed
  have tm: "table ?m q = table m q" "n_cached ?m q = (if q = rid then nf else n_cached m q)" for q
    by (simp_all add: n_cached_def update_conv')
  have "cache_ok (xs @ ?m # ys) p'" by (rule cache_ok_cached[OF inv c p'(3,4) nc(2) len keep more tm])
  then have "kv_ok (xs @ ?m # ys) p' free pend" using kv_inv_cached[OF inv p'(2-4)] by (simp add: kv_ok_def)
  moreover have "mgr_cache_blocks m p r nt = Inr (?m, p')"
    using False ca pos p'(1) by (simp add: mgr_cache_blocks_def cacheable_def nf_def rid_def bsz_def)
  ultimately show ?thesis using p'(3,4) tm old new nc(2)
    by (intro exI[of _ ?m] exI[of _ p']) auto
qed

end
