(* ===== verification/KV_Cache_Manager.thy ===== *)
theory KV_Cache_Manager
  imports KV_Coordinator
begin

text \<open>
  The KV cache manager, the interface between the scheduler and the block pool
  (\<open>vllm/v1/core/kv_cache_manager.py\<close>): prefix cache queries, slot allocation, release and reset, with the
  prefix cache statistics of \<open>vllm/v1/metrics/stats.py\<close>.
\<close>

section \<open>Allocation results\<close>

text \<open>
  \<open>EmptyKVCacheBlocks\<close> is the pre-constructed object \<open>empty_kv_cache_blocks\<close> of a manager with the given
  number of groups, which the code compares by identity.
\<close>

datatype KVCacheBlocks = EmptyKVCacheBlocks nat | KVCacheBlocks "bref list list"

fun kv_blocks :: "KVCacheBlocks \<Rightarrow> bref list list" where
  "kv_blocks (EmptyKVCacheBlocks n) = replicate n []"
| "kv_blocks (KVCacheBlocks bss) = bss"

definition KVCacheBlocks_add :: "KVCacheBlocks \<Rightarrow> KVCacheBlocks \<Rightarrow> KVCacheBlocks" where
  "KVCacheBlocks_add x y = KVCacheBlocks (map2 (@) (kv_blocks x) (kv_blocks y))"

definition blocks_get_block_ids :: "bool \<Rightarrow> block_pool \<Rightarrow> KVCacheBlocks \<Rightarrow> int list list option" where
  "blocks_get_block_ids allow_none p x =
     (if allow_none \<and> (\<forall>g \<in> set (kv_blocks x). length g = 0) then None
      else Some (map (map (bid p)) (kv_blocks x)))"

definition get_unhashed_block_ids :: "block_pool \<Rightarrow> KVCacheBlocks \<Rightarrow> int list result" where
  "get_unhashed_block_ids p x =
     res_bind (py_assert (length (kv_blocks x) = 1)) (\<lambda>_.
       Inr (map (bid p) (filter (\<lambda>b. block_hash (heap p b) = None) (kv_blocks x ! 0))))"

definition new_empty :: "KVCacheBlocks \<Rightarrow> KVCacheBlocks" where
  "new_empty x = KVCacheBlocks (replicate (length (kv_blocks x)) [])"

section \<open>Statistics\<close>

record PrefixCacheStats =
  reset :: bool
  requests :: int
  queries :: int
  hits :: int
  preempted_requests :: int
  preempted_queries :: int
  preempted_hits :: int

definition new_PrefixCacheStats :: PrefixCacheStats where
  "new_PrefixCacheStats = \<lparr>reset = False, requests = 0, queries = 0, hits = 0,
     preempted_requests = 0, preempted_queries = 0, preempted_hits = 0\<rparr>"

definition record_stats :: "int \<Rightarrow> int \<Rightarrow> bool \<Rightarrow> PrefixCacheStats \<Rightarrow> PrefixCacheStats" where
  "record_stats n_tokens num_hits preempted s =
     (if preempted
      then s\<lparr>preempted_requests := preempted_requests s + 1, preempted_queries := preempted_queries s + n_tokens,
             preempted_hits := preempted_hits s + num_hits\<rparr>
      else s\<lparr>requests := requests s + 1, queries := queries s + n_tokens, hits := hits s + num_hits\<rparr>)"

section \<open>The manager\<close>

record KVCacheManager =
  kvm_max_model_len :: int
  kvm_enable_caching :: bool
  kvm_use_eagle :: bool
  log_stats :: bool
  prefix_cache_stats :: "PrefixCacheStats option"
  coordinator :: kv_coordinator
  num_kv_cache_groups :: nat

abbreviation kvm_pool :: "KVCacheManager \<Rightarrow> block_pool" where
  "kvm_pool k \<equiv> coord_pool (coordinator k)"

definition KVCacheManager_init ::
    "KVCacheConfig \<Rightarrow> int \<Rightarrow> int \<Rightarrow> bool \<Rightarrow> bool \<Rightarrow> bool \<Rightarrow> bool \<Rightarrow> int \<Rightarrow> int \<Rightarrow> bool \<Rightarrow> KVCacheManager result" where
  "KVCacheManager_init cfg max_len hbs caching eagle log_st kv_events dcp pcp use_int =
     res_bind (get_kv_cache_coordinator cfg max_len eagle caching kv_events dcp pcp hbs use_int) (\<lambda>co.
       Inr \<lparr>kvm_max_model_len = max_len, kvm_enable_caching = caching, kvm_use_eagle = eagle, log_stats = log_st,
            prefix_cache_stats = (if log_st then Some new_PrefixCacheStats else None), coordinator = co,
            num_kv_cache_groups = length (kv_cache_groups cfg)\<rparr>)"

definition usage :: "KVCacheManager \<Rightarrow> rat" where
  "usage k = get_usage (kvm_pool k)"

definition make_prefix_cache_stats :: "KVCacheManager \<Rightarrow> PrefixCacheStats option \<times> KVCacheManager" where
  "make_prefix_cache_stats k =
     (if \<not> log_stats k then (None, k)
      else (prefix_cache_stats k, k\<lparr>prefix_cache_stats := Some new_PrefixCacheStats\<rparr>))"

definition create_kv_cache_blocks :: "KVCacheManager \<Rightarrow> bref list list \<Rightarrow> KVCacheBlocks" where
  "create_kv_cache_blocks k bss =
     (if \<exists>g \<in> set bss. g \<noteq> [] then KVCacheBlocks bss else EmptyKVCacheBlocks (num_kv_cache_groups k))"

definition get_computed_blocks :: "Request \<Rightarrow> KVCacheManager \<Rightarrow> ((KVCacheBlocks \<times> int) \<times> KVCacheManager) result" where
  "get_computed_blocks r k =
     (if \<not> kvm_enable_caching k \<or> skip_reading_prefix_cache r
      then Inr ((EmptyKVCacheBlocks (num_kv_cache_groups k), 0), k)
      else
        let max_cache_hit_length = num_tokens r - 1
        in res_bind (coord_find_longest_cache_hit (coordinator k) (block_hashes r) max_cache_hit_length)
             (\<lambda>(computed_blocks, num_new_computed_tokens).
           res_bind (if log_stats k
                     then (case prefix_cache_stats k of
                             None \<Rightarrow> Inl AssertionError
                           | Some s \<Rightarrow> Inr (k\<lparr>prefix_cache_stats :=
                               Some (record_stats (num_tokens r) num_new_computed_tokens (num_preemptions r > 0) s)\<rparr>))
                     else Inr k) (\<lambda>k.
             Inr ((create_kv_cache_blocks k computed_blocks, num_new_computed_tokens), k))))"

text \<open>
  \<open>allocate_slots\<close>. Result \<open>None\<close> means that there are not enough free blocks; the skipped blocks have been
  released in that case as well.
\<close>

definition allocate_slots ::
    "Request \<Rightarrow> int \<Rightarrow> int \<Rightarrow> KVCacheBlocks option \<Rightarrow> int \<Rightarrow> bool \<Rightarrow> int \<Rightarrow> KVCacheManager \<Rightarrow>
     (KVCacheBlocks option \<times> KVCacheManager) result" where
  "allocate_slots r num_new_tokens num_new_computed_tokens new_computed_blocks num_lookahead_tokens
       delay_cache_blocks num_encoder_tokens k =
     (if num_new_tokens = 0 then Inl ValueError
      else
        let new_computed = (case new_computed_blocks of Some x \<Rightarrow> x | None \<Rightarrow> EmptyKVCacheBlocks (num_kv_cache_groups k));
            bss = kv_blocks new_computed
        in res_bind (coord_remove_skipped_blocks (request_id r) (num_computed_tokens r) (coordinator k)) (\<lambda>co.
           let n_computed = num_computed_tokens r + num_new_computed_tokens;
               num_tokens_need_slot = min (n_computed + num_new_tokens + num_lookahead_tokens) (kvm_max_model_len k)
           in res_bind (coord_get_num_blocks_to_allocate (request_id r) num_tokens_need_slot bss num_encoder_tokens co)
                (\<lambda>(num_blocks_to_allocate, co).
              if num_blocks_to_allocate > get_num_free_blocks (coord_pool co)
              then Inr (None, k\<lparr>coordinator := co\<rparr>)
              else
                res_bind (if kvm_enable_caching k
                          then res_bind (touch bss (coord_pool co)) (\<lambda>p. Inr (co\<lparr>coord_pool := p\<rparr>))
                          else res_bind (py_assert (\<not> (\<exists>g \<in> set bss. g \<noteq> []))) (\<lambda>_. Inr co)) (\<lambda>co.
                res_bind (if new_computed = EmptyKVCacheBlocks (num_kv_cache_groups k) then Inr co
                          else coord_save_new_computed_blocks (request_id r) bss co) (\<lambda>co.
                res_bind (coord_allocate_new_blocks (request_id r) num_tokens_need_slot num_encoder_tokens co) (\<lambda>(new_blocks, co).
                  if \<not> kvm_enable_caching k \<or> delay_cache_blocks
                  then Inr (Some (create_kv_cache_blocks k new_blocks), k\<lparr>coordinator := co\<rparr>)
                  else
                    let num_tokens_to_cache = min (n_computed + num_new_tokens) (num_tokens r)
                    in res_bind (coord_cache_blocks r num_tokens_to_cache co) (\<lambda>co.
                         Inr (Some (create_kv_cache_blocks k new_blocks), k\<lparr>coordinator := co\<rparr>))))))))"

definition kvm_free :: "Request \<Rightarrow> KVCacheManager \<Rightarrow> KVCacheManager result" where
  "kvm_free r k = res_bind (coord_free (request_id r) (coordinator k)) (\<lambda>co. Inr (k\<lparr>coordinator := co\<rparr>))"

definition set_pool :: "block_pool \<Rightarrow> KVCacheManager \<Rightarrow> KVCacheManager" where
  "set_pool p k = k\<lparr>coordinator := (coordinator k)\<lparr>coord_pool := p\<rparr>\<rparr>"

definition kvm_reset_prefix_cache :: "KVCacheManager \<Rightarrow> (bool \<times> KVCacheManager) result" where
  "kvm_reset_prefix_cache k =
     (case pool_reset_prefix_cache (kvm_pool k) of
        (ok, p) \<Rightarrow>
          if \<not> ok then Inr (False, set_pool p k)
          else if log_stats k
          then (case prefix_cache_stats k of
                  None \<Rightarrow> Inl AssertionError
                | Some s \<Rightarrow> Inr (True, (set_pool p k)\<lparr>prefix_cache_stats := Some (s\<lparr>reset := True\<rparr>)\<rparr>))
          else Inr (True, set_pool p k))"

definition kvm_get_num_common_prefix_blocks :: "string \<Rightarrow> KVCacheManager \<Rightarrow> (int list \<times> KVCacheManager) result" where
  "kvm_get_num_common_prefix_blocks rid k =
     res_bind (coord_get_num_common_prefix_blocks rid (coordinator k)) (\<lambda>(ns, co). Inr (ns, k\<lparr>coordinator := co\<rparr>))"

definition kvm_take_events :: "KVCacheManager \<Rightarrow> KVCacheEvent list \<times> KVCacheManager" where
  "kvm_take_events k = (case take_events (kvm_pool k) of (evs, p) \<Rightarrow> (evs, set_pool p k))"

definition kvm_get_blocks :: "string \<Rightarrow> KVCacheManager \<Rightarrow> KVCacheBlocks" where
  "kvm_get_blocks rid k = create_kv_cache_blocks k (coord_get_blocks rid (coordinator k))"

definition kvm_get_block_ids :: "string \<Rightarrow> KVCacheManager \<Rightarrow> int list list" where
  "kvm_get_block_ids rid k = map (map (bid (kvm_pool k))) (kv_blocks (kvm_get_blocks rid k))"

definition kvm_cache_blocks :: "Request \<Rightarrow> int \<Rightarrow> KVCacheManager \<Rightarrow> KVCacheManager result" where
  "kvm_cache_blocks r n k =
     (if kvm_enable_caching k
      then res_bind (coord_cache_blocks r n (coordinator k)) (\<lambda>co. Inr (k\<lparr>coordinator := co\<rparr>))
      else Inr k)"

end
