(* ===== verification/KV_Allocation.thy ===== *)
theory KV_Allocation
  imports KV_Operations KV_Cache_Manager
begin

text \<open>
  The loops of the coordinator over its managers keep the invariant, and the composition of these loops
  in the KV cache manager: slot allocation and release.
\<close>

section \<open>Loops over the managers\<close>

text \<open>
  \<open>I i ms p\<close> holds before manager \<open>i\<close> of the list is visited; \<open>R i\<close> relates a manager, its new value and the
  result of its visit.
\<close>

lemma for_managers_from:
  assumes step: "\<And>xs m ys p. length xs < length ms \<Longrightarrow> m = ms ! length xs \<Longrightarrow> I (length xs) (xs @ m # ys) p \<Longrightarrow>
      \<exists>x m' p'. f (length xs) m p = Inr (x, m', p') \<and> I (Suc (length xs)) (xs @ m' # ys) p' \<and> R (length xs) m m' x"
    and "I (length xs) (xs @ todo) p" "todo = drop (length xs) ms" "length xs \<le> length ms"
  shows "\<exists>outs ms' p'. for_managers f (length xs) todo p = Inr (outs, ms', p') \<and> I (length ms) (xs @ ms') p' \<and>
    length ms' = length todo \<and> length outs = length todo \<and>
    (\<forall>i<length todo. R (length xs + i) (todo ! i) (ms' ! i) (outs ! i))"
  using assms(2-4)
proof (induction todo arbitrary: xs p)
  case (Cons m todo)
  have l: "length xs < length ms" using Cons.prems(2) by (metis drop_all linorder_not_less neq_Nil_conv)
  have m: "m = ms ! length xs" "todo = drop (Suc (length xs)) ms"
    using Cons.prems(2) Cons_nth_drop_Suc[OF l] by (metis list.inject)+
  obtain x m' p' where s: "f (length xs) m p = Inr (x, m', p')" "I (Suc (length xs)) (xs @ m' # todo) p'" "R (length xs) m m' x"
    using step[OF l m(1) Cons.prems(1)] by blast
  have "I (length (xs @ [m'])) ((xs @ [m']) @ todo) p'" "todo = drop (length (xs @ [m'])) ms" "length (xs @ [m']) \<le> length ms"
    using s(2) m(2) l by simp_all
  from Cons.IH[OF this] obtain outs ms' p'' where
    r: "for_managers f (Suc (length xs)) todo p' = Inr (outs, ms', p'')" "I (length ms) (xs @ m' # ms') p''"
      "length ms' = length todo" "length outs = length todo"
      "\<forall>i<length todo. R (Suc (length xs) + i) (todo ! i) (ms' ! i) (outs ! i)"
    by auto
  have "R (length xs + i) ((m # todo) ! i) ((m' # ms') ! i) ((x # outs) ! i)" if "i < length (m # todo)" for i
    using that r(5) s(3) by (cases i) auto
  then show ?case using s(1) r by (intro exI[of _ "x # outs"] exI[of _ "m' # ms'"] exI[of _ p'']) simp
qed simp

lemma for_managers_ok:
  assumes "\<And>xs m ys p. length xs < length ms \<Longrightarrow> m = ms ! length xs \<Longrightarrow> I (length xs) (xs @ m # ys) p \<Longrightarrow>
      \<exists>x m' p'. f (length xs) m p = Inr (x, m', p') \<and> I (Suc (length xs)) (xs @ m' # ys) p' \<and> R (length xs) m m' x"
    and "I 0 ms p"
  shows "\<exists>outs ms' p'. for_managers f 0 ms p = Inr (outs, ms', p') \<and> I (length ms) ms' p' \<and>
    length ms' = length ms \<and> length outs = length ms \<and> (\<forall>i<length ms. R i (ms ! i) (ms' ! i) (outs ! i))"
  using for_managers_from[of ms I f R "[]" ms p] assms by simp

lemma on_managers_eq:
  "for_managers f 0 (single_type_managers co) (coord_pool co) = Inr (outs, ms', p') \<Longrightarrow>
   on_managers f co = Inr (outs, co\<lparr>single_type_managers := ms', coord_pool := p'\<rparr>)"
  by (simp add: on_managers_def)

section \<open>Release\<close>

lemma free_all:
  assumes ok: "kv_ok ms p free []"
  shows "\<exists>outs ms' p' d. for_managers (group_free rid) 0 ms p = Inr (outs, ms', p') \<and> kv_ok ms' p' (free @ d) [] \<and>
    pool_frame p p' \<and> bh p' = bh p \<and> length ms' = length ms \<and>
    (\<forall>i<length ms. same_mgr (ms ! i) (ms' ! i) \<and>
       map_of (req_to_blocks (ms' ! i)) = (map_of (req_to_blocks (ms ! i)))(rid := None) \<and>
       map_of (num_cached_block (ms' ! i)) = (map_of (num_cached_block (ms ! i)))(rid := None))"
proof -
  let ?R = "\<lambda>i m m' _. same_mgr m m' \<and> map_of (req_to_blocks m') = (map_of (req_to_blocks m))(rid := None) \<and>
       map_of (num_cached_block m') = (map_of (num_cached_block m))(rid := None)"
  let ?I = "\<lambda>i ms' p'. \<exists>d. kv_ok ms' p' (free @ d) [] \<and> pool_frame p p' \<and> bh p' = bh p"
  have "\<exists>x m' p'. group_free rid (length xs) m q = Inr (x, m', p') \<and> ?I (Suc (length xs)) (xs @ m' # ys) p' \<and>
      ?R (length xs) m m' x"
    if st: "?I (length xs) (xs @ m # ys) q" for xs m ys q
  proof -
    obtain d where d: "kv_ok (xs @ m # ys) q (free @ d) []" "pool_frame p q" "bh q = bh p" using st by blast
    obtain m' p' d' where m': "mgr_free m q rid = Inr (m', p')" "kv_ok (xs @ m' # ys) p' ((free @ d) @ d') []"
      "same_mgr m m'" "pool_frame q p'" "bh p' = bh q"
      "map_of (req_to_blocks m') = (map_of (req_to_blocks m))(rid := None)"
      "map_of (num_cached_block m') = (map_of (num_cached_block m))(rid := None)"
      using mgr_free_ok[OF d(1), of rid] by blast
    then show ?thesis using pool_frame_trans[OF d(2) m'(4)] d(3)
      by (intro exI[of _ "()"] exI[of _ m'] exI[of _ p']) (auto simp: group_free_def)
  qed
  then have "\<exists>outs ms' p'. for_managers (group_free rid) 0 ms p = Inr (outs, ms', p') \<and> ?I (length ms) ms' p' \<and>
    length ms' = length ms \<and> length outs = length ms \<and> (\<forall>i<length ms. ?R i (ms ! i) (ms' ! i) (outs ! i))"
    by (intro for_managers_ok[where I = ?I and R = ?R]) (use ok in \<open>auto intro!: exI[of _ "[]"]\<close>)
  then show ?thesis by blast
qed

section \<open>Skipped blocks\<close>

definition skip_ok :: "bool \<Rightarrow> string \<Rightarrow> int \<Rightarrow> kv_manager \<Rightarrow> bool" where
  "skip_ok caching rid nt m \<longleftrightarrow> (case get_num_skipped_tokens m nt of Inl _ \<Rightarrow> False
     | Inr s \<Rightarrow> 0 < s \<longrightarrow> s div mgr_block_size m \<le> int (length (table m rid)) \<and>
         (caching \<longrightarrow> s div mgr_block_size m \<le> n_cached m rid))"

text \<open>Some entries have been replaced by the null block.\<close>

definition nulled :: "bref list \<Rightarrow> bref list \<Rightarrow> bool" where
  "nulled bs bs' \<longleftrightarrow> length bs' = length bs \<and> (\<forall>i<length bs. bs' ! i = bs ! i \<or> bs' ! i = Blk 0)"

definition skip_rel :: "string \<Rightarrow> kv_manager \<Rightarrow> kv_manager \<Rightarrow> bool" where
  "skip_rel rid m m' \<longleftrightarrow> same_mgr m m' \<and> num_cached_block m' = num_cached_block m \<and>
     (\<forall>r. r \<noteq> rid \<longrightarrow> table m' r = table m r) \<and> nulled (table m rid) (table m' rid)"

lemma skip_all:
  assumes ok: "kv_ok ms p free pend" and sk: "\<forall>m \<in> set ms. skip_ok (enable_caching p) rid nt m"
  shows "\<exists>outs ms' p' d. for_managers (group_skip rid nt) 0 ms p = Inr (outs, ms', p') \<and> kv_ok ms' p' (free @ d) pend \<and>
    pool_frame p p' \<and> bh p' = bh p \<and> length ms' = length ms \<and> (\<forall>i<length ms. skip_rel rid (ms ! i) (ms' ! i))"
proof -
  let ?R = "\<lambda>i m m' _. skip_rel rid m m'"
  let ?I = "\<lambda>i ms' p'. \<exists>d. kv_ok ms' p' (free @ d) pend \<and> pool_frame p p' \<and> bh p' = bh p"
  have "\<exists>x m' p'. group_skip rid nt (length xs) m q = Inr (x, m', p') \<and> ?I (Suc (length xs)) (xs @ m' # ys) p' \<and>
      ?R (length xs) m m' x"
    if st: "?I (length xs) (xs @ m # ys) q" and l: "length xs < length ms" "m = ms ! length xs" for xs m ys q
  proof -
    obtain d where d: "kv_ok (xs @ m # ys) q (free @ d) pend" "pool_frame p q" "bh q = bh p" using st by blast
    obtain s where s: "get_num_skipped_tokens m nt = Inr s" "0 < s \<Longrightarrow> s div mgr_block_size m \<le> int (length (table m rid))"
      "enable_caching q \<Longrightarrow> 0 < s \<Longrightarrow> s div mgr_block_size m \<le> n_cached m rid"
      using bspec[OF sk, of m] l pool_frame_caching[OF d(2)] by (auto simp: skip_ok_def split: sum.splits)
    obtain m' p' d' where m': "mgr_remove_skipped_blocks m q rid nt = Inr (m', p')"
        "kv_ok (xs @ m' # ys) p' ((free @ d) @ d') pend" "same_mgr m m'" "pool_frame q p'" "bh p' = bh q"
        "num_cached_block m' = num_cached_block m" "\<forall>r. r \<noteq> rid \<longrightarrow> table m' r = table m r"
        "length (table m' rid) = length (table m rid)"
        "\<forall>i<length (table m rid). table m' rid ! i = table m rid ! i \<or> table m' rid ! i = Blk 0 \<and> int i < s div mgr_block_size m"
      using mgr_skip_ok[OF d(1) s] by blast
    then show ?thesis using pool_frame_trans[OF d(2) m'(4)] d(3)
      by (intro exI[of _ "()"] exI[of _ m'] exI[of _ p']) (auto simp: group_skip_def skip_rel_def nulled_def)
  qed
  then have "\<exists>outs ms' p'. for_managers (group_skip rid nt) 0 ms p = Inr (outs, ms', p') \<and> ?I (length ms) ms' p' \<and>
    length ms' = length ms \<and> length outs = length ms \<and> (\<forall>i<length ms. ?R i (ms ! i) (ms' ! i) (outs ! i))"
    by (intro for_managers_ok[where I = ?I and R = ?R]) (use ok in \<open>auto intro!: exI[of _ "[]"]\<close>)
  then show ?thesis by blast
qed

section \<open>Counting the blocks needed\<close>

definition toks :: "int \<Rightarrow> int \<Rightarrow> kv_manager \<Rightarrow> int" where
  "toks nt enc m = (if mgr_class m = CrossAttentionManager then enc else nt)"

text \<open>Blocks that a request lacks in the group of a manager, its computed blocks included in the table.\<close>

definition lack :: "string \<Rightarrow> int \<Rightarrow> int \<Rightarrow> bref list \<Rightarrow> kv_manager \<Rightarrow> int" where
  "lack rid nt enc bs m = required m (toks nt enc m) - int (length bs) - int (length (table m rid))"

definition hits_ok :: "kv_manager list \<Rightarrow> bref list list \<Rightarrow> bool" where
  "hits_ok ms bss \<longleftrightarrow> length bss = length ms \<and>
     (\<forall>i<length ms. mgr_class (ms ! i) = CrossAttentionManager \<longrightarrow> bss ! i = [])"

lemma count_all:
  assumes ok: "kv_ok ms p free pend" and sp: "\<forall>m \<in> set ms. spec_ok m" and h: "hits_ok ms bss"
  shows "\<exists>outs. for_managers (group_num_blocks rid nt bss enc) 0 ms p = Inr (outs, map (dd_touch rid) ms, p) \<and>
    outs = map (\<lambda>i. lack rid nt enc (bss ! i) (ms ! i) + int (length (filter (evictable p) (bss ! i)))) [0..<length ms] \<and>
    kv_ok (map (dd_touch rid) ms) p free pend"
proof -
  let ?R = "\<lambda>i m m' x. m' = dd_touch rid m \<and> x = lack rid nt enc (bss ! i) m + int (length (filter (evictable p) (bss ! i)))"
  let ?I = "\<lambda>i ms' p'. kv_ok ms' p free pend \<and> p' = p"
  have "\<exists>x m' p'. group_num_blocks rid nt bss enc (length xs) m q = Inr (x, m', p') \<and> ?I (Suc (length xs)) (xs @ m' # ys) p' \<and>
      ?R (length xs) m m' x"
    if st: "?I (length xs) (xs @ m # ys) q" and l: "length xs < length ms" "m = ms ! length xs" for xs m ys q
  proof -
    have so: "spec_ok m" using sp l by simp
    have pos: "0 < mgr_block_size m" using st mgr_okD(1)[OF kv_invD(2)[OF kv_okD(1)], of "xs @ m # ys"] by auto
    show ?thesis using st kv_ok_dd_touch[of xs m ys p free pend rid] h l
      by (auto simp: group_num_blocks_def count_blocks_spec[OF so[unfolded l(2)] pos[unfolded l(2)]] at_group_def hits_ok_def lack_def toks_def)
  qed
  then have "\<exists>outs ms' p'. for_managers (group_num_blocks rid nt bss enc) 0 ms p = Inr (outs, ms', p') \<and> ?I (length ms) ms' p' \<and>
    length ms' = length ms \<and> length outs = length ms \<and> (\<forall>i<length ms. ?R i (ms ! i) (ms' ! i) (outs ! i))"
    by (intro for_managers_ok[where I = ?I and R = ?R]) (use ok in auto)
  then obtain outs ms' where o: "for_managers (group_num_blocks rid nt bss enc) 0 ms p = Inr (outs, ms', p)"
    "kv_ok ms' p free pend" "length ms' = length ms" "length outs = length ms"
    "\<forall>i<length ms. ?R i (ms ! i) (ms' ! i) (outs ! i)" by blast
  have "ms' = map (dd_touch rid) ms" by (rule nth_equalityI) (use o(3,5) in auto)
  moreover have "outs = map (\<lambda>i. lack rid nt enc (bss ! i) (ms ! i) + int (length (filter (evictable p) (bss ! i)))) [0..<length ms]"
    by (rule nth_equalityI) (use o(4,5) in auto)
  ultimately show ?thesis using o(1,2) by blast
qed

section \<open>Saving and allocating\<close>

text \<open>A manager can take the computed blocks \<open>bs\<close>: it does not know the request yet, or there are none.\<close>

definition save_ok :: "string \<Rightarrow> bref list \<Rightarrow> kv_manager \<Rightarrow> bool" where
  "save_ok rid bs m \<longleftrightarrow>
     (bs \<noteq> [] \<longrightarrow> mgr_class m \<noteq> CrossAttentionManager \<and> map_of (num_cached_block m) rid = None) \<and>
     (map_of (num_cached_block m) rid = None \<longrightarrow> mgr_class m \<noteq> CrossAttentionManager \<longrightarrow> table m rid = [])"

definition save_rel :: "string \<Rightarrow> bref list \<Rightarrow> kv_manager \<Rightarrow> kv_manager \<Rightarrow> bool" where
  "save_rel rid bs m m' \<longleftrightarrow> same_mgr m m' \<and>
     (\<forall>r. table m' r = (if r = rid then table m rid @ bs else table m r)) \<and>
     (\<forall>r. n_cached m' r = (if r = rid \<and> bs \<noteq> [] then int (length bs) else n_cached m r))"

lemma save_all:
  assumes ok: "kv_ok ms p free (concat bss)" and len: "length bss = length ms"
    and bs: "set (concat bss) \<subseteq> pool_blocks p" "distinct (filter (\<lambda>b. b \<noteq> Blk 0) (concat bss))"
    and sv: "\<forall>i<length ms. save_ok rid (bss ! i) (ms ! i)"
  shows "\<exists>outs ms'. for_managers (group_save rid bss) 0 ms p = Inr (outs, ms', p) \<and> kv_ok ms' p free [] \<and>
    length ms' = length ms \<and> (\<forall>i<length ms. save_rel rid (bss ! i) (ms ! i) (ms' ! i))"
proof -
  let ?R = "\<lambda>i m m' _. save_rel rid (bss ! i) m m'"
  let ?I = "\<lambda>i ms' p'. kv_ok ms' p free (concat (drop i bss)) \<and> p' = p"
  have "\<exists>x m' p'. group_save rid bss (length xs) m q = Inr (x, m', p') \<and> ?I (Suc (length xs)) (xs @ m' # ys) p' \<and>
      ?R (length xs) m m' x"
    if st: "?I (length xs) (xs @ m # ys) q" and l: "length xs < length ms" "m = ms ! length xs" for xs m ys q
  proof -
    let ?b = "bss ! length xs"
    have e: "concat (drop (length xs) bss) = ?b @ concat (drop (Suc (length xs)) bss)"
      using l(1) len by (metis Cons_nth_drop_Suc concat.simps(2))
    have k: "kv_ok (xs @ m # ys) p free (?b @ concat (drop (Suc (length xs)) bss))" using st e by simp
    have mem: "?b \<in> set bss" using l(1) len by simp
    then have b: "set ?b \<subseteq> pool_blocks p" using bs(1) by auto
    have d: "distinct (filter (\<lambda>b. b \<noteq> Blk 0) ?b)"
      using bs(2) mem by (auto simp: filter_concat distinct_concat_iff)
    have s: "?b \<noteq> [] \<Longrightarrow> mgr_class m \<noteq> CrossAttentionManager \<and> map_of (num_cached_block m) rid = None"
      "map_of (num_cached_block m) rid = None \<Longrightarrow> mgr_class m \<noteq> CrossAttentionManager \<Longrightarrow> table m rid = []"
      using sv l by (auto simp: save_ok_def)
    obtain m' where "mgr_save_new_computed_blocks m rid ?b = Inr m'"
      "kv_ok (xs @ m' # ys) p free (concat (drop (Suc (length xs)) bss))" "save_rel rid ?b m m'"
      using mgr_save_ok[OF k b d s] by (auto simp: save_rel_def)
    then show ?thesis using l(1) len st by (auto simp: group_save_def at_group_def)
  qed
  then have "\<exists>outs ms' p'. for_managers (group_save rid bss) 0 ms p = Inr (outs, ms', p') \<and> ?I (length ms) ms' p' \<and>
    length ms' = length ms \<and> length outs = length ms \<and> (\<forall>i<length ms. ?R i (ms ! i) (ms' ! i) (outs ! i))"
    by (intro for_managers_ok[where I = ?I and R = ?R]) (use ok in auto)
  then show ?thesis using len by auto
qed

text \<open>The new blocks of manager \<open>i\<close> are the next ones in the free list.\<close>

definition quota :: "string \<Rightarrow> int \<Rightarrow> int \<Rightarrow> kv_manager list \<Rightarrow> nat \<Rightarrow> nat" where
  "quota rid nt enc ms i = nat (lack rid nt enc [] (ms ! i))"

definition grown :: "string \<Rightarrow> bref list \<Rightarrow> kv_manager \<Rightarrow> kv_manager \<Rightarrow> bool" where
  "grown rid new m m' \<longleftrightarrow> same_mgr m m' \<and> num_cached_block m' = num_cached_block m \<and>
     (\<forall>r. table m' r = (if r = rid then table m rid @ new else table m r))"

lemma allocate_all:
  assumes ok: "kv_ok ms p free []" and sp: "\<forall>m \<in> set ms. spec_ok m"
    and fit: "(\<Sum>i<length ms. quota rid nt enc ms i) \<le> length free"
  shows "\<exists>outs ms' p'. for_managers (group_allocate rid nt enc) 0 ms p = Inr (outs, ms', p') \<and>
    kv_ok ms' p' (drop (\<Sum>i<length ms. quota rid nt enc ms i) free) [] \<and> pool_frame p p' \<and>
    length ms' = length ms \<and> length outs = length ms \<and>
    (\<forall>i<length ms. outs ! i = take (quota rid nt enc ms i) (drop (\<Sum>j<i. quota rid nt enc ms j) free) \<and>
       grown rid (outs ! i) (ms ! i) (ms' ! i))"
proof -
  let ?q = "quota rid nt enc ms" let ?off = "\<lambda>i. (\<Sum>j<i. ?q j)"
  let ?R = "\<lambda>i m m' x. x = take (?q i) (drop (?off i) free) \<and> grown rid x m m'"
  let ?I = "\<lambda>i ms' p'. kv_ok ms' p' (drop (?off i) free) [] \<and> pool_frame p p'"
  have "\<exists>x m' p'. group_allocate rid nt enc (length xs) m q = Inr (x, m', p') \<and> ?I (Suc (length xs)) (xs @ m' # ys) p' \<and>
      ?R (length xs) m m' x"
    if st: "?I (length xs) (xs @ m # ys) q" and l: "length xs < length ms" "m = ms ! length xs" for xs m ys q
  proof -
    let ?n = "max 0 (required m (toks nt enc m) - int (length (table m rid)))"
    have n: "nat ?n = ?q (length xs)" by (simp add: quota_def lack_def l(2) max_def)
    have "?off (Suc (length xs)) \<le> ?off (length ms)" using l(1) by (intro sum_mono2) auto
    then have "nat ?n \<le> length (drop (?off (length xs)) free)" using fit n by simp
    then have fits: "?n \<le> int (length (drop (?off (length xs)) free))" by linarith
    have so: "spec_ok m" using sp l by simp
    obtain m' p' where r: "mgr_allocate_new_blocks m q rid (toks nt enc m) = Inr (take (nat ?n) (drop (?off (length xs)) free), m', p')"
        "kv_ok (xs @ m' # ys) p' (drop (nat ?n) (drop (?off (length xs)) free)) []" "same_mgr m m'" "pool_frame q p'"
        "\<forall>r. table m' r = (if r = rid then table m rid @ take (nat ?n) (drop (?off (length xs)) free) else table m r)"
        "num_cached_block m' = num_cached_block m"
      using mgr_allocate_ok[OF conjunct1[OF st] so refl fits] by blast
    have "pool_frame p p'" using pool_frame_trans[OF conjunct2[OF st] r(4)] .
    then show ?thesis using r unfolding n
      by (intro exI[of _ "take (?q (length xs)) (drop (?off (length xs)) free)"] exI[of _ m'] exI[of _ p'])
        (simp add: group_allocate_def toks_def grown_def add.commute)
  qed
  then have "\<exists>outs ms' p'. for_managers (group_allocate rid nt enc) 0 ms p = Inr (outs, ms', p') \<and> ?I (length ms) ms' p' \<and>
    length ms' = length ms \<and> length outs = length ms \<and> (\<forall>i<length ms. ?R i (ms ! i) (ms' ! i) (outs ! i))"
    by (intro for_managers_ok[where I = ?I and R = ?R]) (use ok in auto)
  then show ?thesis by blast
qed

section \<open>Caching\<close>

definition cached_rel :: "string \<Rightarrow> int \<Rightarrow> kv_manager \<Rightarrow> kv_manager \<Rightarrow> bool" where
  "cached_rel rid nt m m' \<longleftrightarrow> same_mgr m m' \<and> (\<forall>r. table m' r = table m r) \<and>
     (\<forall>r. n_cached m' r = (if r = rid then max (n_cached m rid) (nt div mgr_block_size m) else n_cached m r))"

text \<open>
  The blocks of a request in the group of a manager from the first uncached one up to \<open>nt\<close> tokens carry the
  hashes of the request.
\<close>

definition hashed_upto :: "block_pool \<Rightarrow> Request \<Rightarrow> int \<Rightarrow> kv_manager \<Rightarrow> bool" where
  "hashed_upto p r nt m \<longleftrightarrow> (\<forall>j. n_cached m (request_id r) \<le> int j \<and> int j < nt div mgr_block_size m \<longrightarrow>
     bh p (table m (request_id r) ! j) =
       Some (gkey (kv_cache_group_id m) (scaled_hashes (hash_block_size p) (mgr_block_size m) (block_hashes r) ! j)))"

lemma hashed_mono:
  "hashed_upto p r nt m \<Longrightarrow> \<forall>b. bh p b \<noteq> None \<longrightarrow> bh p' b = bh p b \<Longrightarrow> pool_frame p p' \<Longrightarrow> hashed_upto p' r nt m"
  by (simp add: hashed_upto_def pool_frame_def)

lemma cache_all:
  assumes ok: "kv_ok ms p free []" and e: "enable_caching p" and ev: "\<not> enable_kv_cache_events p"
    and ca: "\<forall>m \<in> set ms. cacheable p r nt m"
    and len: "\<forall>m \<in> set ms. nt div mgr_block_size m \<le> int (length (table m (request_id r)))"
  shows "\<exists>outs ms' p'. for_managers (group_cache r nt) 0 ms p = Inr (outs, ms', p') \<and> kv_ok ms' p' free [] \<and>
    pool_frame p p' \<and> rc p' = rc p \<and> length ms' = length ms \<and> (\<forall>b. bh p b \<noteq> None \<longrightarrow> bh p' b = bh p b) \<and>
    (\<forall>i<length ms. cached_rel (request_id r) nt (ms ! i) (ms' ! i) \<and> hashed_upto p' r nt (ms ! i))"
proof -
  let ?R = "\<lambda>i m m' _. cached_rel (request_id r) nt m m'"
  let ?I = "\<lambda>i ms' p'. kv_ok ms' p' free [] \<and> pool_frame p p' \<and> rc p' = rc p \<and> (\<forall>b. bh p b \<noteq> None \<longrightarrow> bh p' b = bh p b) \<and>
    (\<forall>j<i. hashed_upto p' r nt (ms ! j))"
  have "\<exists>x m' p'. group_cache r nt (length xs) m q = Inr (x, m', p') \<and> ?I (Suc (length xs)) (xs @ m' # ys) p' \<and>
      ?R (length xs) m m' x"
    if st: "?I (length xs) (xs @ m # ys) q" and l: "length xs < length ms" "m = ms ! length xs" for xs m ys q
  proof -
    have fr: "pool_frame p q" and old: "\<forall>b. bh p b \<noteq> None \<longrightarrow> bh q b = bh p b" using st by auto
    have h: "enable_caching q" "\<not> enable_kv_cache_events q" "hash_block_size q = hash_block_size p"
      using fr e ev by (simp_all add: pool_frame_def)
    have c: "cacheable q r nt m" using ca l cacheable_frame[OF fr same_mgr_simps(1), of r nt m] by simp
    have ln: "nt div mgr_block_size m \<le> int (length (table m (request_id r)))" using len l by simp
    obtain m' p' where r: "mgr_cache_blocks m q r nt = Inr (m', p')" "kv_ok (xs @ m' # ys) p' free []" "same_mgr m m'"
        "pool_frame q p'" "rc p' = rc q" "\<forall>s. table m' s = table m s"
        "\<forall>s. n_cached m' s = (if s = request_id r then max (n_cached m (request_id r)) (nt div mgr_block_size m) else n_cached m s)"
        "\<forall>b. bh q b \<noteq> None \<longrightarrow> bh p' b = bh q b"
        "\<forall>i. n_cached m (request_id r) \<le> int i \<and> int i < nt div mgr_block_size m \<longrightarrow>
           bh p' (table m (request_id r) ! i) = Some (gkey (kv_cache_group_id m)
             (scaled_hashes (hash_block_size q) (mgr_block_size m) (block_hashes r) ! i))"
      using mgr_cache_ok[OF conjunct1[OF st] h(1,2) c ln] by blast
    have f: "pool_frame p p'" using pool_frame_trans[OF fr r(4)] .
    have hm: "hashed_upto p' r nt m" using r(9) r(4) by (simp add: hashed_upto_def pool_frame_def)
    have hp: "hashed_upto p' r nt (ms ! j)" if "j < Suc (length xs)" for j
      using that st hashed_mono[OF _ r(8,4), of r nt "ms ! j"] hm l(2) by (auto simp: less_Suc_eq)
    have b: "\<forall>b. bh p b \<noteq> None \<longrightarrow> bh p' b = bh p b" using old r(8) by metis
    show ?thesis using r(1,2,3,5,6,7) f hp b st
      by (intro exI[of _ "()"] exI[of _ m'] exI[of _ p']) (simp add: group_cache_def cached_rel_def)
  qed
  then have "\<exists>outs ms' p'. for_managers (group_cache r nt) 0 ms p = Inr (outs, ms', p') \<and> ?I (length ms) ms' p' \<and>
    length ms' = length ms \<and> length outs = length ms \<and> (\<forall>i<length ms. ?R i (ms ! i) (ms' ! i) (outs ! i))"
    by (intro for_managers_ok[where I = ?I and R = ?R]) (use ok in auto)
  then show ?thesis by blast
qed

section \<open>Hits and free blocks\<close>

text \<open>Consecutive pieces of a list.\<close>

lemma concat_pieces:
  "length yss = n \<Longrightarrow> \<forall>i<n. yss ! i = take (q i) (drop (\<Sum>j<i. q j) xs) \<Longrightarrow> concat yss = take (\<Sum>i<n. q i) xs"
proof (induction n arbitrary: yss)
  case (Suc n)
  then obtain ys y where yss: "yss = ys @ [y]" "length ys = n" by (metis length_Suc_conv_rev)
  have "\<forall>i<n. ys ! i = take (q i) (drop (\<Sum>j<i. q j) xs)"
  proof (intro allI impI)
    fix i assume "i < n"
    then show "ys ! i = take (q i) (drop (\<Sum>j<i. q j) xs)" using spec[OF Suc.prems(2), of i] by (simp add: yss nth_append)
  qed
  then have "concat ys = take (\<Sum>i<n. q i) xs" using Suc.IH yss(2) by blast
  moreover have "y = take (q n) (drop (\<Sum>i<n. q i) xs)" using spec[OF Suc.prems(2), of n] by (simp add: yss nth_append)
  ultimately show ?case by (simp add: yss(1) take_add)
qed simp

text \<open>The computed blocks handed to an allocation: cached blocks of the pool, or null, each at most once.\<close>

definition hits_valid :: "block_pool \<Rightarrow> bref list list \<Rightarrow> bool" where
  "hits_valid p bss \<longleftrightarrow> set (concat bss) \<subseteq> pool_blocks p \<and> distinct (filter (\<lambda>b. b \<noteq> Blk 0) (concat bss)) \<and>
     (\<forall>b \<in> set (concat bss). b \<noteq> Blk 0 \<longrightarrow> bh p b \<noteq> None)"

text \<open>The free blocks that are not among the hits.\<close>

definition avail :: "bref list list \<Rightarrow> bref list \<Rightarrow> bref list" where
  "avail bss free = filter (\<lambda>b. b \<notin> set (concat bss)) free"

lemma length_filter_concat: "length (filter P (concat bss)) = (\<Sum>i<length bss. length (filter P (bss ! i)))"
proof (induction bss rule: rev_induct)
  case (snoc b bss)
  then show ?case by (simp add: nth_append)
qed simp

lemma avail_length:
  assumes inv: "pool_inv p free" and h: "hits_valid p bss"
  shows "int (length (avail bss free)) = int (length free) - (\<Sum>i<length bss. int (length (filter (evictable p) (bss ! i))))"
proof -
  have ev: "evictable p b \<longleftrightarrow> b \<in> set free" if "b \<in> pool_blocks p" for b
    using that pool_invD(2)[OF inv] pool_inv_null[OF inv that] by (auto simp: evictable_def rc_def)
  have "filter (evictable p) (concat bss) = filter (\<lambda>b. b \<in> set free) (concat bss)"
    using h ev by (intro filter_cong) (auto simp: hits_valid_def)
  also have "\<dots> = filter (\<lambda>b. b \<in> set free) (filter (\<lambda>b. b \<noteq> Blk 0) (concat bss))"
    using pool_invD(2)[OF inv] by (auto intro!: filter_cong)
  finally have e: "filter (evictable p) (concat bss) = filter (\<lambda>b. b \<in> set free) (filter (\<lambda>b. b \<noteq> Blk 0) (concat bss))" .
  have dist: "distinct (filter (evictable p) (concat bss))" "distinct free"
    unfolding e using h fq_repr_distinct[OF pool_invD(1)[OF inv]]
    by (simp_all only: hits_valid_def distinct_filter)
  have "set (filter (evictable p) (concat bss)) = set (filter (\<lambda>b. b \<in> set (concat bss)) free)"
    unfolding e using pool_invD(2)[OF inv] by auto
  then have "length (filter (evictable p) (concat bss)) = length (filter (\<lambda>b. b \<in> set (concat bss)) free)"
    using dist by (metis distinct_card distinct_filter)
  moreover have "length (filter (\<lambda>b. b \<in> set (concat bss)) free) + length (avail bss free) = length free"
    unfolding avail_def by (rule sum_length_filter_compl)
  ultimately have "(\<Sum>i<length bss. length (filter (evictable p) (bss ! i))) + length (avail bss free) = length free"
    by (simp only: length_filter_concat)
  then show ?thesis unfolding of_nat_sum[symmetric] by linarith
qed

text \<open>No group has more blocks than it needs while another lacks some.\<close>

definition balanced :: "string \<Rightarrow> int \<Rightarrow> int \<Rightarrow> bref list list \<Rightarrow> kv_manager list \<Rightarrow> bool" where
  "balanced rid nt enc bss ms \<longleftrightarrow> (\<forall>i<length ms. 0 \<le> lack rid nt enc (bss ! i) (ms ! i)) \<or>
     (\<forall>i<length ms. lack rid nt enc (bss ! i) (ms ! i) \<le> 0)"

lemma balanced_fits:
  assumes "balanced rid nt enc bss ms" "(\<Sum>i<length ms. lack rid nt enc (bss ! i) (ms ! i)) \<le> int n"
  shows "(\<Sum>i<length ms. nat (lack rid nt enc (bss ! i) (ms ! i))) \<le> n"
proof (cases "\<forall>i<length ms. 0 \<le> lack rid nt enc (bss ! i) (ms ! i)")
  case True
  then have "int (\<Sum>i<length ms. nat (lack rid nt enc (bss ! i) (ms ! i))) = (\<Sum>i<length ms. lack rid nt enc (bss ! i) (ms ! i))"
    by (simp add: of_nat_sum)
  then show ?thesis using assms(2) by linarith
next
  case False
  then have "\<forall>i<length ms. lack rid nt enc (bss ! i) (ms ! i) \<le> 0" using assms(1) by (auto simp: balanced_def)
  then show ?thesis by simp
qed

lemma alloc_commit:
  assumes ok: "kv_ok ms p free []" and sp: "\<forall>m \<in> set ms. spec_ok m" and h: "hits_valid p bss" "length bss = length ms"
    and sv: "if e then concat bss = [] else \<forall>i<length ms. save_ok rid (bss ! i) (ms ! i)"
    and bal: "balanced rid nt enc bss ms"
    and fit: "(\<Sum>i<length ms. lack rid nt enc (bss ! i) (ms ! i)) \<le> int (length (avail bss free))"
  shows "\<exists>p1 ms2 news ms3 p3. touch bss p = Inr p1 \<and>
    (if e then ms2 = ms else \<exists>outs. for_managers (group_save rid bss) 0 ms p1 = Inr (outs, ms2, p1)) \<and>
    for_managers (group_allocate rid nt enc) 0 ms2 p1 = Inr (news, ms3, p3) \<and>
    kv_ok ms3 p3 (drop (\<Sum>i<length ms. nat (lack rid nt enc (bss ! i) (ms ! i))) (avail bss free)) [] \<and> pool_frame p p3 \<and>
    length ms3 = length ms \<and> length news = length ms \<and>
    (\<forall>i<length ms. save_rel rid (bss ! i) (ms ! i) (ms2 ! i) \<and> grown rid (news ! i) (ms2 ! i) (ms3 ! i) \<and>
       news ! i = take (nat (lack rid nt enc (bss ! i) (ms ! i)))
         (drop (\<Sum>j<i. nat (lack rid nt enc (bss ! j) (ms ! j))) (avail bss free)))"
proof -
  let ?l = "\<lambda>i. nat (lack rid nt enc (bss ! i) (ms ! i))"
  have hv: "set (concat bss) \<subseteq> pool_blocks p" "distinct (filter (\<lambda>b. b \<noteq> Blk 0) (concat bss))"
    "\<forall>b \<in> set (concat bss). b \<noteq> Blk 0 \<longrightarrow> bh p b \<noteq> None" using h(1) by (auto simp: hits_valid_def)
  obtain p1 where p1: "touch bss p = Inr p1" "kv_ok ms p1 (avail bss free) (concat bss)" "pool_frame p p1"
    using touch_ok[OF ok hv(1,3)] by (auto simp: avail_def)
  have hb: "set (concat bss) \<subseteq> pool_blocks p1" using hv(1) by (simp only: pool_frame_blocks[OF p1(3)])
  obtain ms2 where s: "if e then ms2 = ms else \<exists>outs. for_managers (group_save rid bss) 0 ms p1 = Inr (outs, ms2, p1)"
    "kv_ok ms2 p1 (avail bss free) []" "length ms2 = length ms" "\<forall>i<length ms. save_rel rid (bss ! i) (ms ! i) (ms2 ! i)"
  proof (cases e)
    case True
    then have "\<forall>i<length ms. save_rel rid (bss ! i) (ms ! i) (ms ! i)" using sv h(2) by (auto simp: save_rel_def)
    moreover have "kv_ok ms p1 (avail bss free) []" using p1(2) True sv by (simp only: if_True)
    ultimately show ?thesis using that[of ms] True by simp
  next
    case False
    then have "\<forall>i<length ms. save_ok rid (bss ! i) (ms ! i)" using sv by simp
    from save_all[OF p1(2) h(2) hb hv(2) this] show ?thesis using that False by auto
  qed
  have same: "same_mgr (ms ! i) (ms2 ! i)" "table (ms2 ! i) rid = table (ms ! i) rid @ bss ! i" if "i < length ms" for i
    using s(4) that by (auto simp: save_rel_def)
  have sp2: "\<forall>m \<in> set ms2. spec_ok m" using sp spec_ok_same[OF same(1)] s(3) by (auto simp: all_set_conv_all_nth)
  have q: "quota rid nt enc ms2 i = ?l i" if "i < length ms" for i
    using same[OF that] required_same[OF same(1)[OF that]]
    by (simp add: quota_def lack_def toks_def same_mgr_def algebra_simps)
  then have qs: "(\<Sum>j<i. quota rid nt enc ms2 j) = (\<Sum>j<i. ?l j)" if "i \<le> length ms" for i using that by (intro sum.cong) auto
  have f: "(\<Sum>i<length ms2. quota rid nt enc ms2 i) \<le> length (avail bss free)"
    using balanced_fits[OF bal fit] by (simp add: s(3) qs)
  obtain news ms3 p3 where a: "for_managers (group_allocate rid nt enc) 0 ms2 p1 = Inr (news, ms3, p3)"
      "kv_ok ms3 p3 (drop (\<Sum>i<length ms2. quota rid nt enc ms2 i) (avail bss free)) []" "pool_frame p1 p3"
      "length ms3 = length ms2" "length news = length ms2"
      "\<forall>i<length ms2. news ! i = take (quota rid nt enc ms2 i) (drop (\<Sum>j<i. quota rid nt enc ms2 j) (avail bss free)) \<and>
         grown rid (news ! i) (ms2 ! i) (ms3 ! i)"
    using allocate_all[OF s(2) sp2 f] by blast
  show ?thesis using p1(1) s(1,4) a pool_frame_trans[OF p1(3) a(3)]
    by (rule_tac exI[of _ p1], rule_tac exI[of _ ms2], rule_tac exI[of _ news], rule_tac exI[of _ ms3],
        rule_tac exI[of _ p3]) (simp add: s(3) qs q)
qed

end
