(* ===== verification/KV_Slots.thy ===== *)
theory KV_Slots
  imports KV_Allocation
begin

text \<open>
  Correctness of the KV cache manager: slot allocation, release and reset over the invariant that ties
  block tables, reference counts, free list and cached hashes together.
\<close>

section \<open>States\<close>

abbreviation managers :: "KVCacheManager \<Rightarrow> kv_manager list" where
  "managers k \<equiv> single_type_managers (coordinator k)"

text \<open>
  The configuration: formats match manager classes; with prefix caching there is no cross attention
  group, and block sizes are multiples of the hash block size. KV cache events are off.
\<close>

definition kvm_config :: "KVCacheManager \<Rightarrow> bool" where
  "kvm_config k \<longleftrightarrow> length (managers k) = num_kv_cache_groups k \<and> enable_caching (kvm_pool k) = kvm_enable_caching k \<and>
     \<not> enable_kv_cache_events (kvm_pool k) \<and> (kvm_enable_caching k \<longrightarrow> 0 < hash_block_size (kvm_pool k)) \<and>
     (\<forall>m \<in> set (managers k). spec_ok m \<and> 0 < spec_block_size (kv_cache_spec m) \<and>
        (kvm_enable_caching k \<longrightarrow> mgr_class m \<noteq> CrossAttentionManager \<and> group_ok (kv_cache_group_id m) \<and>
           mgr_block_size m mod hash_block_size (kvm_pool k) = 0))"

definition kvm_ok :: "KVCacheManager \<Rightarrow> bref list \<Rightarrow> bool" where
  "kvm_ok k free \<longleftrightarrow> kvm_config k \<and> kv_ok (managers k) (kvm_pool k) free []"

lemma config_step:
  assumes "kvm_config k" "length ms' = length (managers k)" "pool_frame (kvm_pool k) p'"
    and "\<forall>i<length (managers k). same_mgr (managers k ! i) (ms' ! i)"
  shows "kvm_config (k\<lparr>coordinator := (coordinator k)\<lparr>single_type_managers := ms', coord_pool := p'\<rparr>\<rparr>)"
proof -
  have "spec_ok (ms' ! i) \<and> 0 < spec_block_size (kv_cache_spec (ms' ! i)) \<and>
      (kvm_enable_caching k \<longrightarrow> mgr_class (ms' ! i) \<noteq> CrossAttentionManager \<and> group_ok (kv_cache_group_id (ms' ! i)) \<and>
         mgr_block_size (ms' ! i) mod hash_block_size (kvm_pool k) = 0)" if "i < length (managers k)" for i
  proof -
    have "same_mgr (managers k ! i) (ms' ! i)" "managers k ! i \<in> set (managers k)" using assms(4) that by auto
    then show ?thesis using assms(1) spec_ok_same[of "managers k ! i" "ms' ! i"]
      by (simp add: kvm_config_def same_mgr_def)
  qed
  then show ?thesis using assms(1-3)
    by (simp add: kvm_config_def pool_frame_def all_set_conv_all_nth)
qed

section \<open>Requests\<close>

text \<open>A request that holds no blocks, with computed blocks within its first \<open>nt\<close> tokens.\<close>

definition new_request :: "kv_manager list \<Rightarrow> string \<Rightarrow> bref list list \<Rightarrow> int \<Rightarrow> bool" where
  "new_request ms rid bss nt \<longleftrightarrow> (\<forall>i<length ms. table (ms ! i) rid = [] \<and> map_of (num_cached_block (ms ! i)) rid = None \<and>
     int (length (bss ! i)) * mgr_block_size (ms ! i) \<le> nt)"

text \<open>A request that holds blocks for \<open>n\<close> tokens in every group.\<close>

definition running_request :: "kv_manager list \<Rightarrow> string \<Rightarrow> int \<Rightarrow> bool" where
  "running_request ms rid n \<longleftrightarrow>
     (\<forall>m \<in> set ms. mgr_class m \<noteq> CrossAttentionManager \<and> int (length (table m rid)) = required m n)"

lemma required_mono:
  assumes "spec_ok m" "0 < mgr_block_size m" "n \<le> n'"
  shows "required m n \<le> required m n'"
  using assms by (cases "kv_cache_spec m") (auto simp: required_def mgr_num_tokens_def spec_ok_def cdiv_mono split: manager_class.splits)

lemma required_ge:
  assumes "spec_ok m" "0 < mgr_block_size m" "0 < spec_block_size (kv_cache_spec m)"
  shows "cdiv n (mgr_block_size m) \<le> required m n"
  using assms by (cases "kv_cache_spec m") (auto simp: required_def mgr_num_tokens_def spec_ok_def intro!: cdiv_mono split: manager_class.splits)

lemma balanced_new:
  assumes "new_request ms rid bss nt" "hits_ok ms bss" "0 \<le> enc"
    and sp: "\<forall>m \<in> set ms. spec_ok m \<and> 0 < spec_block_size (kv_cache_spec m) \<and> 0 < mgr_block_size m"
  shows "\<forall>i<length ms. 0 \<le> lack rid nt enc (bss ! i) (ms ! i)"
proof (intro allI impI)
  fix i assume i: "i < length ms"
  let ?m = "ms ! i"
  have m: "spec_ok ?m" "0 < mgr_block_size ?m" "0 < spec_block_size (kv_cache_spec ?m)" using sp i by auto
  have t: "table ?m rid = []" "int (length (bss ! i)) * mgr_block_size ?m \<le> nt" using assms(1) i by (auto simp: new_request_def)
  show "0 \<le> lack rid nt enc (bss ! i) ?m"
  proof (cases "mgr_class ?m = CrossAttentionManager")
    case True
    then have "bss ! i = []" using assms(2) i by (simp add: hits_ok_def)
    then show ?thesis using True t required_ge[OF m, of enc] cdiv_nonneg[OF m(2) assms(3)] by (simp add: lack_def toks_def)
  next
    case False
    have "int (length (bss ! i)) * mgr_block_size ?m \<le> cdiv nt (mgr_block_size ?m) * mgr_block_size ?m"
      using t(2) cdiv_mult_ge[OF m(2), of nt] by linarith
    then have "int (length (bss ! i)) \<le> cdiv nt (mgr_block_size ?m)" using m(2) by simp
    then show ?thesis using False t required_ge[OF m, of nt] by (simp add: lack_def toks_def)
  qed
qed

lemma balanced_running:
  assumes "running_request ms rid n" "\<forall>i<length ms. bss ! i = []"
    and "\<forall>m \<in> set ms. spec_ok m \<and> 0 < mgr_block_size m"
  shows "balanced rid nt enc bss ms"
proof -
  have "lack rid nt enc (bss ! i) (ms ! i) = required (ms ! i) nt - required (ms ! i) n" if "i < length ms" for i
    using assms(1,2) that by (simp add: running_request_def lack_def toks_def)
  moreover have "required (ms ! i) a \<le> required (ms ! i) b" if "a \<le> b" "i < length ms" for a b i
    using required_mono[of "ms ! i" a b] assms(3) that by simp
  ultimately show ?thesis unfolding balanced_def by (metis diff_ge_0_iff_ge diff_le_0_iff_le linear)
qed

section \<open>Slot allocation\<close>

lemma skip_rel_touch: "skip_rel rid m m' \<Longrightarrow> skip_rel rid m (dd_touch rid m')"
  unfolding skip_rel_def using same_mgr_trans[OF _ same_mgr_simps(3)] by auto

lemma lack_skip:
  assumes "skip_rel rid m m'"
  shows "lack rid nt enc bs m' = lack rid nt enc bs m"
proof -
  have "same_mgr m m'" "length (table m' rid) = length (table m rid)" using assms by (auto simp: skip_rel_def nulled_def)
  then show ?thesis using required_same[of m m'] by (simp add: lack_def toks_def same_mgr_def)
qed

lemma alloc_prepare:
  assumes ok: "kv_ok ms p free []" and sk: "\<forall>m \<in> set ms. skip_ok (enable_caching p) rid nc m"
    and sp: "\<forall>m \<in> set ms. spec_ok m" and h: "hits_ok ms bss"
  shows "\<exists>outs ms1 p1 d ks ms2. for_managers (group_skip rid nc) 0 ms p = Inr (outs, ms1, p1) \<and>
    for_managers (group_num_blocks rid nt bss enc) 0 ms1 p1 = Inr (ks, ms2, p1) \<and>
    sum_list ks = (\<Sum>i<length ms. lack rid nt enc (bss ! i) (ms ! i)) + (\<Sum>i<length ms. int (length (filter (evictable p1) (bss ! i)))) \<and>
    kv_ok ms2 p1 (free @ d) [] \<and> pool_frame p p1 \<and> bh p1 = bh p \<and> length ms2 = length ms \<and>
    (\<forall>i<length ms. skip_rel rid (ms ! i) (ms2 ! i))"
proof -
  obtain outs ms1 p1 d where s: "for_managers (group_skip rid nc) 0 ms p = Inr (outs, ms1, p1)" "kv_ok ms1 p1 (free @ d) []"
    "pool_frame p p1" "bh p1 = bh p" "length ms1 = length ms" "\<forall>i<length ms. skip_rel rid (ms ! i) (ms1 ! i)"
    using skip_all[OF ok sk] by blast
  have same: "same_mgr (ms ! i) (ms1 ! i)" if "i < length ms" for i using s(6) that by (simp add: skip_rel_def)
  have sp1: "\<forall>m \<in> set ms1. spec_ok m" using sp spec_ok_same[OF same] s(5) by (auto simp: all_set_conv_all_nth)
  have h1: "hits_ok ms1 bss" using h same s(5) by (auto simp: hits_ok_def same_mgr_def)
  let ?k = "map (\<lambda>i. lack rid nt enc (bss ! i) (ms1 ! i) + int (length (filter (evictable p1) (bss ! i)))) [0..<length ms1]"
  have c: "for_managers (group_num_blocks rid nt bss enc) 0 ms1 p1 = Inr (?k, map (dd_touch rid) ms1, p1)"
    "kv_ok (map (dd_touch rid) ms1) p1 (free @ d) []"
    using count_all[OF s(2) sp1 h1, of rid nt enc] by auto
  have "sum_list ?k = (\<Sum>i<length ms. lack rid nt enc (bss ! i) (ms ! i) + int (length (filter (evictable p1) (bss ! i))))"
    using s(5,6) by (auto simp: interv_sum_list_conv_sum_set_nat atLeast0LessThan lack_skip intro!: sum.cong)
  moreover have "\<forall>i<length ms. skip_rel rid (ms ! i) (map (dd_touch rid) ms1 ! i)" using s(5,6) skip_rel_touch by simp
  ultimately show ?thesis using s(1,3,4,5) c
    by (intro exI[of _ outs] exI[of _ ms1] exI[of _ p1] exI[of _ d]) (auto simp: sum.distrib)
qed

text \<open>
  The effect of a granted request for slots on every group: the request keeps its blocks, except for
  skipped ones, and gets the computed blocks and as many new ones as it lacks.
\<close>

definition granted :: "kv_manager list \<Rightarrow> string \<Rightarrow> bref list list \<Rightarrow> int \<Rightarrow> int \<Rightarrow> bref list list \<Rightarrow> kv_manager list \<Rightarrow> bool" where
  "granted ms rid bss nt enc news ms' \<longleftrightarrow> length ms' = length ms \<and> length news = length ms \<and>
     (\<forall>i<length ms. same_mgr (ms ! i) (ms' ! i) \<and> (\<forall>q. q \<noteq> rid \<longrightarrow> table (ms' ! i) q = table (ms ! i) q) \<and>
        length (news ! i) = nat (lack rid nt enc (bss ! i) (ms ! i)) \<and>
        (\<exists>t. nulled (table (ms ! i) rid) t \<and> table (ms' ! i) rid = t @ bss ! i @ news ! i))"

lemma granted_intro:
  assumes "\<forall>i<length ms. skip_rel rid (ms ! i) (ms1 ! i)" "\<forall>i<length ms. save_rel rid (bss ! i) (ms1 ! i) (ms2 ! i)"
    "\<forall>i<length ms. grown rid (news ! i) (ms2 ! i) (ms3 ! i)" "length ms3 = length ms" "length news = length ms"
    "\<forall>i<length ms. length (news ! i) = nat (lack rid nt enc (bss ! i) (ms ! i))"
  shows "granted ms rid bss nt enc news ms3"
  unfolding granted_def
proof (intro conjI allI impI)
  fix i assume i: "i < length ms"
  have s: "skip_rel rid (ms ! i) (ms1 ! i)" "save_rel rid (bss ! i) (ms1 ! i) (ms2 ! i)" "grown rid (news ! i) (ms2 ! i) (ms3 ! i)"
    using assms(1-3) i by auto
  then show "same_mgr (ms ! i) (ms3 ! i)"
    unfolding skip_rel_def save_rel_def grown_def using same_mgr_trans by blast
  show "table (ms3 ! i) q = table (ms ! i) q" if "q \<noteq> rid" for q
    using s that by (simp add: skip_rel_def save_rel_def grown_def)
  show "length (news ! i) = nat (lack rid nt enc (bss ! i) (ms ! i))" using assms(6) i by simp
  show "\<exists>t. nulled (table (ms ! i) rid) t \<and> table (ms3 ! i) rid = t @ bss ! i @ news ! i"
    using s by (intro exI[of _ "table (ms1 ! i) rid"]) (simp add: skip_rel_def save_rel_def grown_def)
qed (use assms(4,5) in simp_all)

lemma granted_cached:
  assumes "granted ms rid bss nt enc news ms'" "length ms'' = length ms'" "\<forall>i<length ms'. cached_rel rid' u (ms' ! i) (ms'' ! i)"
  shows "granted ms rid bss nt enc news ms''"
  using assms unfolding granted_def cached_rel_def by (auto intro: same_mgr_trans)

lemma coord_skip_eq:
  "for_managers (group_skip rid nc) 0 (single_type_managers co) (coord_pool co) = Inr (outs, ms', p') \<Longrightarrow>
   coord_remove_skipped_blocks rid nc co = Inr (co\<lparr>single_type_managers := ms', coord_pool := p'\<rparr>)"
  by (simp add: coord_remove_skipped_blocks_def on_managers_eq)

lemma coord_count_eq:
  "for_managers (group_num_blocks rid nt bss enc) 0 (single_type_managers co) (coord_pool co) = Inr (ks, ms', p') \<Longrightarrow>
   coord_get_num_blocks_to_allocate rid nt bss enc co = Inr (sum_list ks, co\<lparr>single_type_managers := ms', coord_pool := p'\<rparr>)"
  by (simp add: coord_get_num_blocks_to_allocate_def on_managers_eq)

lemma coord_save_eq:
  "for_managers (group_save rid bss) 0 (single_type_managers co) (coord_pool co) = Inr (outs, ms', p') \<Longrightarrow>
   coord_save_new_computed_blocks rid bss co = Inr (co\<lparr>single_type_managers := ms', coord_pool := p'\<rparr>)"
  by (simp add: coord_save_new_computed_blocks_def on_managers_eq)

lemma coord_allocate_eq:
  "for_managers (group_allocate rid nt enc) 0 (single_type_managers co) (coord_pool co) = Inr (news, ms', p') \<Longrightarrow>
   coord_allocate_new_blocks rid nt enc co = Inr (news, co\<lparr>single_type_managers := ms', coord_pool := p'\<rparr>)"
  by (simp add: coord_allocate_new_blocks_def on_managers_eq)

lemma coord_cache_eq:
  "for_managers (group_cache r n) 0 (single_type_managers co) (coord_pool co) = Inr (outs, ms', p') \<Longrightarrow>
   coord_cache_blocks r n co = Inr (co\<lparr>single_type_managers := ms', coord_pool := p'\<rparr>)"
  by (simp add: coord_cache_blocks_def on_managers_eq)

lemmas coord_eqs = coord_skip_eq coord_count_eq coord_save_eq coord_allocate_eq coord_cache_eq

text \<open>The manager \<open>k\<close> with other block managers and another pool state.\<close>

abbreviation with_state :: "KVCacheManager \<Rightarrow> kv_manager list \<Rightarrow> block_pool \<Rightarrow> KVCacheManager" where
  "with_state k ms p \<equiv> k\<lparr>coordinator := (coordinator k)\<lparr>single_type_managers := ms, coord_pool := p\<rparr>\<rparr>"

lemma touch_nothing: "concat bss = [] \<Longrightarrow> touch bss p = Inr p"
  unfolding touch_def res_fold_concat by (simp only: res_fold.simps)

text \<open>The control flow of \<open>allocate_slots\<close>, given the results of the loops over the managers.\<close>

lemma allocate_slots_none:
  fixes k r ncb nn nnc la
  defines "bss \<equiv> kv_blocks (case ncb of Some x \<Rightarrow> x | None \<Rightarrow> EmptyKVCacheBlocks (num_kv_cache_groups k))"
    and "nt \<equiv> min (num_computed_tokens r + nnc + nn + la) (kvm_max_model_len k)"
  assumes "nn \<noteq> 0" "for_managers (group_skip (request_id r) (num_computed_tokens r)) 0 (managers k) (kvm_pool k) = Inr (o1, ms1, p1)"
    "for_managers (group_num_blocks (request_id r) nt bss enc) 0 ms1 p1 = Inr (ks, ms2, p1)"
    "get_num_free_blocks p1 < sum_list ks"
  shows "allocate_slots r nn nnc ncb la delay enc k = Inr (None, with_state k ms2 p1)"
  using assms(3-6) unfolding bss_def nt_def by (simp add: allocate_slots_def Let_def coord_eqs)

lemma allocate_slots_some:
  fixes k r ncb nn nnc la
  defines "nc \<equiv> (case ncb of Some x \<Rightarrow> x | None \<Rightarrow> EmptyKVCacheBlocks (num_kv_cache_groups k))"
    and "nt \<equiv> min (num_computed_tokens r + nnc + nn + la) (kvm_max_model_len k)"
    and "cap \<equiv> min (num_computed_tokens r + nnc + nn) (num_tokens r)"
  assumes "nn \<noteq> 0" "for_managers (group_skip (request_id r) (num_computed_tokens r)) 0 (managers k) (kvm_pool k) = Inr (o1, ms1, p1)"
    "for_managers (group_num_blocks (request_id r) nt (kv_blocks nc) enc) 0 ms1 p1 = Inr (ks, ms2, p1)"
    "\<not> get_num_free_blocks p1 < sum_list ks"
    "touch (kv_blocks nc) p1 = Inr p2" "\<not> kvm_enable_caching k \<Longrightarrow> concat (kv_blocks nc) = []"
    "if nc = EmptyKVCacheBlocks (num_kv_cache_groups k) then ms3 = ms2
     else \<exists>outs. for_managers (group_save (request_id r) (kv_blocks nc)) 0 ms2 p2 = Inr (outs, ms3, p2)"
    "for_managers (group_allocate (request_id r) nt enc) 0 ms3 p2 = Inr (news, ms4, p4)"
    "if kvm_enable_caching k \<and> \<not> delay then \<exists>outs. for_managers (group_cache r cap) 0 ms4 p4 = Inr (outs, ms5, p5)
     else ms5 = ms4 \<and> p5 = p4"
  shows "allocate_slots r nn nnc ncb la delay enc k = Inr (Some (create_kv_cache_blocks k news), with_state k ms5 p5)"
proof -
  have e: "p2 = p1" "\<not> (\<exists>g \<in> set (kv_blocks nc). g \<noteq> [])" if "\<not> kvm_enable_caching k"
    using assms(8) assms(9)[OF that] touch_nothing[of "kv_blocks nc" p1] by auto
  show ?thesis
    using assms(4-7,10-12) e assms(8)
    by (cases "kvm_enable_caching k"; cases "nc = EmptyKVCacheBlocks (num_kv_cache_groups k)"; cases delay)
      (auto simp: allocate_slots_def Let_def coord_eqs simp flip: nc_def nt_def cap_def)
qed

text \<open>
  What a caller of \<open>allocate_slots\<close> must ensure: the request is new, with computed blocks found in the
  cache, or it runs and holds blocks for \<open>n\<close> tokens; skipped blocks lie within the table and, with caching,
  within its cached part; the request has hashes for the tokens to cache.
\<close>

definition may_allocate :: "KVCacheManager \<Rightarrow> Request \<Rightarrow> KVCacheBlocks \<Rightarrow> int \<Rightarrow> int \<Rightarrow> int \<Rightarrow> bool \<Rightarrow> bool" where
  "may_allocate k r nc nt enc n_cache delay \<longleftrightarrow>
     hits_ok (managers k) (kv_blocks nc) \<and> hits_valid (kvm_pool k) (kv_blocks nc) \<and>
     (\<not> kvm_enable_caching k \<longrightarrow> concat (kv_blocks nc) = []) \<and>
     (\<forall>m \<in> set (managers k). skip_ok (kvm_enable_caching k) (request_id r) (num_computed_tokens r) m) \<and>
     (0 \<le> enc \<and> new_request (managers k) (request_id r) (kv_blocks nc) nt \<or>
      nc = EmptyKVCacheBlocks (num_kv_cache_groups k) \<and> (\<exists>n. running_request (managers k) (request_id r) n)) \<and>
     (kvm_enable_caching k \<and> \<not> delay \<longrightarrow> 0 \<le> n_cache \<and> n_cache \<le> nt \<and>
        n_cache div hash_block_size (kvm_pool k) \<le> int (length (block_hashes r)))"

lemma may_allocateD:
  assumes "may_allocate k r nc nt enc n_cache delay" "kvm_ok k free"
  shows "balanced (request_id r) nt enc (kv_blocks nc) (managers k)"
    and "\<forall>i<length (managers k). nc \<noteq> EmptyKVCacheBlocks (num_kv_cache_groups k) \<longrightarrow>
      save_ok (request_id r) (kv_blocks nc ! i) (managers k ! i)"
proof -
  have ok: "kv_ok (managers k) (kvm_pool k) free []" using assms(2) by (simp add: kvm_ok_def)
  have sp: "\<forall>m \<in> set (managers k). spec_ok m \<and> 0 < spec_block_size (kv_cache_spec m) \<and> 0 < mgr_block_size m"
    using assms(2) mgr_okD(1)[OF kv_invD(2)[OF kv_okD(1)[OF ok]]] by (auto simp: kvm_ok_def kvm_config_def)
  have h: "hits_ok (managers k) (kv_blocks nc)" using assms(1) by (simp add: may_allocate_def)
  consider (new) "0 \<le> enc" "new_request (managers k) (request_id r) (kv_blocks nc) nt"
    | (run) n where "nc = EmptyKVCacheBlocks (num_kv_cache_groups k)" "running_request (managers k) (request_id r) n"
    using assms(1) by (auto simp: may_allocate_def)
  then have "balanced (request_id r) nt enc (kv_blocks nc) (managers k) \<and> (\<forall>i<length (managers k).
      nc \<noteq> EmptyKVCacheBlocks (num_kv_cache_groups k) \<longrightarrow> save_ok (request_id r) (kv_blocks nc ! i) (managers k ! i))"
  proof cases
    case new
    have "save_ok (request_id r) (kv_blocks nc ! i) (managers k ! i)" if "i < length (managers k)" for i
      using new(2) h that by (auto simp: save_ok_def new_request_def hits_ok_def)
    then show ?thesis using balanced_new[OF new(2) h new(1) sp] by (simp add: balanced_def)
  next
    case run
    have "\<forall>i<length (managers k). kv_blocks nc ! i = []" using run(1) assms(2) by (simp add: kvm_ok_def kvm_config_def)
    then show ?thesis using balanced_running[OF run(2)] sp run(1) by simp
  qed
  then show "balanced (request_id r) nt enc (kv_blocks nc) (managers k)"
    "\<forall>i<length (managers k). nc \<noteq> EmptyKVCacheBlocks (num_kv_cache_groups k) \<longrightarrow>
      save_ok (request_id r) (kv_blocks nc ! i) (managers k ! i)" by auto
qed

text \<open>A granted request holds blocks for all its tokens.\<close>

lemma granted_covers:
  assumes "granted ms rid bss nt enc news ms'" "i < length ms" "mgr_class (ms ! i) \<noteq> CrossAttentionManager"
    "spec_ok (ms ! i)" "0 < mgr_block_size (ms ! i)" "0 < spec_block_size (kv_cache_spec (ms ! i))"
  shows "nt \<le> int (length (table (ms' ! i) rid)) * mgr_block_size (ms ! i)"
proof -
  let ?m = "ms ! i"
  obtain t where t: "nulled (table ?m rid) t" "table (ms' ! i) rid = t @ bss ! i @ news ! i"
    "length (news ! i) = nat (lack rid nt enc (bss ! i) ?m)" using assms(1,2) by (auto simp: granted_def)
  have "required ?m nt \<le> int (length (table (ms' ! i) rid))"
    using t assms(3) by (simp add: lack_def toks_def nulled_def)
  then have "cdiv nt (mgr_block_size ?m) \<le> int (length (table (ms' ! i) rid))" using required_ge[OF assms(4-6), of nt] by simp
  then show ?thesis using cdiv_le_iff[OF assms(5)] by simp
qed

text \<open>Every full block from the first one that was not cached before now carries its hash.\<close>

definition newly_cached :: "KVCacheManager \<Rightarrow> Request \<Rightarrow> bref list list \<Rightarrow> int \<Rightarrow> KVCacheManager \<Rightarrow> bool" where
  "newly_cached k r bss n_cache k' \<longleftrightarrow> (\<forall>i<length (managers k). \<forall>j.
     (if bss ! i = [] then n_cached (managers k ! i) (request_id r) else int (length (bss ! i))) \<le> int j \<and>
     int j < n_cache div mgr_block_size (managers k ! i) \<longrightarrow>
       bh (kvm_pool k') (table (managers k' ! i) (request_id r) ! j) = Some (gkey (kv_cache_group_id (managers k ! i))
         (scaled_hashes (hash_block_size (kvm_pool k)) (mgr_block_size (managers k ! i)) (block_hashes r) ! j)))"

lemma newly_cached_intro:
  assumes s: "\<forall>i<length (managers k). skip_rel (request_id r) (managers k ! i) (ms2 ! i) \<and>
      save_rel (request_id r) (bss ! i) (ms2 ! i) (ms3 ! i) \<and> grown (request_id r) (news ! i) (ms3 ! i) (ms4 ! i) \<and>
      cached_rel (request_id r) n (ms4 ! i) (ms5 ! i) \<and> hashed_upto p5 r n (ms4 ! i)"
    and fr: "pool_frame (kvm_pool k) p5"
  shows "newly_cached k r bss n (with_state k ms5 p5)"
  unfolding newly_cached_def
proof (intro allI impI)
  fix i j assume i: "i < length (managers k)"
    and j: "(if bss ! i = [] then n_cached (managers k ! i) (request_id r) else int (length (bss ! i))) \<le> int j \<and>
      int j < n div mgr_block_size (managers k ! i)"
  let ?rid = "request_id r" let ?m = "managers k ! i"
  have r: "skip_rel ?rid ?m (ms2 ! i)" "save_rel ?rid (bss ! i) (ms2 ! i) (ms3 ! i)" "grown ?rid (news ! i) (ms3 ! i) (ms4 ! i)"
    "cached_rel ?rid n (ms4 ! i) (ms5 ! i)" "hashed_upto p5 r n (ms4 ! i)" using s i by auto
  have same: "same_mgr ?m (ms4 ! i)"
    using r(1-3) unfolding skip_rel_def save_rel_def grown_def using same_mgr_trans by blast
  have "n_cached (ms4 ! i) ?rid = (if bss ! i = [] then n_cached ?m ?rid else int (length (bss ! i)))"
    using r(1-3) by (simp add: skip_rel_def save_rel_def grown_def n_cached_def)
  then show "bh (kvm_pool (with_state k ms5 p5)) (table (managers (with_state k ms5 p5) ! i) ?rid ! j) =
      Some (gkey (kv_cache_group_id ?m) (scaled_hashes (hash_block_size (kvm_pool k)) (mgr_block_size ?m) (block_hashes r) ! j))"
    using r(4,5) same fr j by (simp add: hashed_upto_def cached_rel_def same_mgr_def pool_frame_def)
qed

lemma alloc_cache:
  assumes cf: "kvm_config k" and g: "granted (managers k) rid bss nt enc news ms4" and ok: "kv_ok ms4 p4 fr []"
    and pf: "pool_frame (kvm_pool k) p4" and rid: "rid = request_id r"
    and pos: "\<forall>m \<in> set (managers k). 0 < mgr_block_size m"
    and n: "kvm_enable_caching k \<and> \<not> delay \<Longrightarrow> 0 \<le> n \<and> n \<le> nt \<and> n div hash_block_size (kvm_pool k) \<le> int (length (block_hashes r))"
  shows "\<exists>ms5 p5. (if kvm_enable_caching k \<and> \<not> delay then \<exists>outs. for_managers (group_cache r n) 0 ms4 p4 = Inr (outs, ms5, p5)
       else ms5 = ms4 \<and> p5 = p4) \<and> kv_ok ms5 p5 fr [] \<and> pool_frame (kvm_pool k) p5 \<and> granted (managers k) rid bss nt enc news ms5 \<and>
    (kvm_enable_caching k \<and> \<not> delay \<longrightarrow> (\<forall>i<length (managers k). cached_rel rid n (ms4 ! i) (ms5 ! i) \<and> hashed_upto p5 r n (ms4 ! i)))"
proof (cases "kvm_enable_caching k \<and> \<not> delay")
  case True
  have len: "length ms4 = length (managers k)" using g by (simp add: granted_def)
  have f: "enable_caching p4" "\<not> enable_kv_cache_events p4" "hash_block_size p4 = hash_block_size (kvm_pool k)"
    using cf True pf by (auto simp: kvm_config_def pool_frame_def)
  have c: "cacheable p4 r n (ms4 ! i) \<and> n div mgr_block_size (ms4 ! i) \<le> int (length (table (ms4 ! i) rid))"
    if i: "i < length (managers k)" for i
  proof -
    let ?m = "managers k ! i"
    have m: "spec_ok ?m" "0 < spec_block_size (kv_cache_spec ?m)" "mgr_class ?m \<noteq> CrossAttentionManager"
      "group_ok (kv_cache_group_id ?m)" "mgr_block_size ?m mod hash_block_size (kvm_pool k) = 0" "0 < mgr_block_size ?m"
      "0 < hash_block_size (kvm_pool k)"
      using cf True i pos by (auto simp: kvm_config_def)
    have same: "same_mgr ?m (ms4 ! i)" using g i by (simp add: granted_def)
    have "n \<le> int (length (table (ms4 ! i) rid)) * mgr_block_size ?m"
      using granted_covers[OF g i m(3,1,6,2)] n[OF True] by linarith
    then have "n div mgr_block_size ?m \<le> int (length (table (ms4 ! i) rid))"
      using m(6) by (metis nonzero_mult_div_cancel_right order_less_irrefl zdiv_mono1)
    moreover have "cacheable (kvm_pool k) r n ?m" using m n[OF True] by (simp add: cacheable_def)
    ultimately show ?thesis using same cacheable_frame[OF pf same, of r n] by (simp add: same_mgr_def)
  qed
  have ca: "\<forall>m \<in> set ms4. cacheable p4 r n m"
    "\<forall>m \<in> set ms4. n div mgr_block_size m \<le> int (length (table m (request_id r)))"
    using c len by (simp_all add: all_set_conv_all_nth rid)
  obtain outs ms5 p5 where r: "for_managers (group_cache r n) 0 ms4 p4 = Inr (outs, ms5, p5)" "kv_ok ms5 p5 fr []"
    "pool_frame p4 p5" "length ms5 = length ms4"
    "\<forall>i<length ms4. cached_rel (request_id r) n (ms4 ! i) (ms5 ! i) \<and> hashed_upto p5 r n (ms4 ! i)"
    using cache_all[OF ok f(1,2) ca] by blast
  have "granted (managers k) rid bss nt enc news ms5" using granted_cached[OF g r(4), of "request_id r" n] r(5) by blast
  then show ?thesis using True r len rid pool_frame_trans[OF pf r(3)] by (intro exI[of _ ms5] exI[of _ p5]) auto
next
  case False
  then show ?thesis using ok pf g by auto
qed

lemma alloc_success:
  fixes k r nc
  defines "ms \<equiv> managers k" and "rid \<equiv> request_id r" and "bss \<equiv> kv_blocks nc"
  assumes ok: "kvm_ok k free0" and may: "may_allocate k r nc nt enc n delay"
    and s: "kv_ok ms2 p1 free []" "pool_frame (kvm_pool k) p1" "bh p1 = bh (kvm_pool k)" "length ms2 = length ms"
      "\<forall>i<length ms. skip_rel rid (ms ! i) (ms2 ! i)"
    and fit: "(\<Sum>i<length ms. lack rid nt enc (bss ! i) (ms ! i)) \<le> int (length (avail bss free))"
  shows "\<exists>p2 ms3 news ms4 p4 ms5 p5. touch bss p1 = Inr p2 \<and>
    (if nc = EmptyKVCacheBlocks (num_kv_cache_groups k) then ms3 = ms2
     else \<exists>outs. for_managers (group_save rid bss) 0 ms2 p2 = Inr (outs, ms3, p2)) \<and>
    for_managers (group_allocate rid nt enc) 0 ms3 p2 = Inr (news, ms4, p4) \<and>
    (if kvm_enable_caching k \<and> \<not> delay then \<exists>outs. for_managers (group_cache r n) 0 ms4 p4 = Inr (outs, ms5, p5)
     else ms5 = ms4 \<and> p5 = p4) \<and>
    concat news = take (\<Sum>i<length ms. nat (lack rid nt enc (bss ! i) (ms ! i))) (avail bss free) \<and>
    kvm_ok (with_state k ms5 p5) (drop (\<Sum>i<length ms. nat (lack rid nt enc (bss ! i) (ms ! i))) (avail bss free)) \<and>
    granted ms rid bss nt enc news ms5 \<and> pool_frame (kvm_pool k) p5 \<and>
    (kvm_enable_caching k \<and> \<not> delay \<longrightarrow> newly_cached k r bss n (with_state k ms5 p5))"
proof -
  have kv: "kv_ok ms (kvm_pool k) free0 []" and cf: "kvm_config k" using ok by (auto simp: kvm_ok_def ms_def)
  have pos: "\<forall>m \<in> set ms. 0 < mgr_block_size m" using mgr_okD(1)[OF kv_invD(2)[OF kv_okD(1)[OF kv]]] by blast
  have h: "hits_valid (kvm_pool k) bss" "length bss = length ms"
    "kvm_enable_caching k \<and> \<not> delay \<Longrightarrow> 0 \<le> n \<and> n \<le> nt \<and> n div hash_block_size (kvm_pool k) \<le> int (length (block_hashes r))"
    using may by (auto simp: may_allocate_def hits_ok_def ms_def bss_def)
  have h1: "hits_valid p1 bss" using h(1) s(2,3) by (simp add: hits_valid_def pool_frame_blocks)
  have lb: "length bss = length ms2" using h(2) s(4) by simp
  have same: "same_mgr (ms ! i) (ms2 ! i)" if "i < length ms" for i using s(5) that by (simp add: skip_rel_def)
  have l2: "lack rid nt enc (bss ! i) (ms2 ! i) = lack rid nt enc (bss ! i) (ms ! i)" if "i < length ms" for i
    using lack_skip s(5) that by blast
  have sp: "\<forall>m \<in> set ms. spec_ok m" using cf by (auto simp: kvm_config_def ms_def)
  then have sp2: "\<forall>m \<in> set ms2. spec_ok m" using spec_ok_same[OF same] s(4) by (auto simp: all_set_conv_all_nth)
  have bal: "balanced rid nt enc bss ms2"
    using may_allocateD(1)[OF may ok] l2 s(4) by (simp add: balanced_def ms_def rid_def bss_def)
  have sv0: "nc \<noteq> EmptyKVCacheBlocks (num_kv_cache_groups k) \<Longrightarrow> save_ok rid (bss ! i) (ms2 ! i)" if "i < length ms" for i
    using may_allocateD(2)[OF may ok] s(5) that unfolding ms_def[symmetric] rid_def[symmetric] bss_def[symmetric]
    by (auto simp: save_ok_def skip_rel_def same_mgr_def nulled_def)
  have sv: "if nc = EmptyKVCacheBlocks (num_kv_cache_groups k) then concat bss = [] else \<forall>i<length ms2. save_ok rid (bss ! i) (ms2 ! i)"
    using sv0 s(4) by (simp add: bss_def)
  have fit2: "(\<Sum>i<length ms2. lack rid nt enc (bss ! i) (ms2 ! i)) \<le> int (length (avail bss free))" using fit l2 s(4) by simp
  let ?q = "\<lambda>i. nat (lack rid nt enc (bss ! i) (ms ! i))"
  have sums: "(\<Sum>j<i. nat (lack rid nt enc (bss ! j) (ms2 ! j))) = (\<Sum>j<i. ?q j)" if "i \<le> length ms" for i
    using l2 that by (intro sum.cong) auto
  obtain p2 ms3 news ms4 p4 where c: "touch bss p1 = Inr p2"
    "if nc = EmptyKVCacheBlocks (num_kv_cache_groups k) then ms3 = ms2
     else \<exists>outs. for_managers (group_save rid bss) 0 ms2 p2 = Inr (outs, ms3, p2)"
    "for_managers (group_allocate rid nt enc) 0 ms3 p2 = Inr (news, ms4, p4)"
    "kv_ok ms4 p4 (drop (\<Sum>i<length ms. ?q i) (avail bss free)) []" "pool_frame p1 p4" "length ms4 = length ms" "length news = length ms"
    "\<forall>i<length ms. save_rel rid (bss ! i) (ms2 ! i) (ms3 ! i) \<and> grown rid (news ! i) (ms3 ! i) (ms4 ! i) \<and>
       news ! i = take (?q i) (drop (\<Sum>j<i. ?q j) (avail bss free))"
    using alloc_commit[OF s(1) sp2 h1 lb sv bal fit2] unfolding s(4) by (simp add: sums l2) blast
  have cn: "concat news = take (\<Sum>i<length ms. ?q i) (avail bss free)" 
    by (rule concat_pieces[OF c(7)]) (use c(8) in simp)
  have qle: "(\<Sum>i<length ms. ?q i) \<le> length (avail bss free)"
    using balanced_fits[OF bal fit2] by (simp add: s(4) sums)
  have ln: "length (news ! i) = ?q i" if "i < length ms" for i
  proof -
    have "(\<Sum>j<Suc i. ?q j) \<le> (\<Sum>j<length ms. ?q j)" using that by (intro sum_mono2) auto
    then show ?thesis using c(8) that qle by simp
  qed
  have g: "granted ms rid bss nt enc news ms4"
    by (rule granted_intro[OF s(5)]) (use c(6,7,8) ln in auto)
  obtain ms5 p5 where e: "if kvm_enable_caching k \<and> \<not> delay then \<exists>outs. for_managers (group_cache r n) 0 ms4 p4 = Inr (outs, ms5, p5)
       else ms5 = ms4 \<and> p5 = p4" "kv_ok ms5 p5 (drop (\<Sum>i<length ms. ?q i) (avail bss free)) []" "pool_frame (kvm_pool k) p5"
    "granted ms rid bss nt enc news ms5"
    "kvm_enable_caching k \<and> \<not> delay \<longrightarrow> (\<forall>i<length ms. cached_rel rid n (ms4 ! i) (ms5 ! i) \<and> hashed_upto p5 r n (ms4 ! i))"
    using alloc_cache[OF cf g[unfolded ms_def] c(4) pool_frame_trans[OF s(2) c(5)] meta_eq_to_obj_eq[OF rid_def] pos[unfolded ms_def] h(3)]
    unfolding ms_def[symmetric] by blast
  have "kvm_ok (with_state k ms5 p5) (drop (\<Sum>i<length ms. ?q i) (avail bss free))"
    using e(2,3,4) config_step[OF cf _ e(3), of ms5] by (simp add: kvm_ok_def granted_def ms_def)
  moreover have "newly_cached k r bss n (with_state k ms5 p5)" if "kvm_enable_caching k \<and> \<not> delay"
    by (rule newly_cached_intro[OF _ e(3), of r ms2 bss ms3 news ms4])
      (use s(5) c(8) e(5) that in \<open>auto simp only: ms_def rid_def\<close>)
  ultimately show ?thesis using c(1,2,3) e(1,3,4) cn by blast
qed

lemma allocate_slots_spec:
  fixes k r ncb nn nnc la
  defines "nc \<equiv> (case ncb of Some x \<Rightarrow> x | None \<Rightarrow> EmptyKVCacheBlocks (num_kv_cache_groups k))"
    and "nt \<equiv> min (num_computed_tokens r + nnc + nn + la) (kvm_max_model_len k)"
    and "cap \<equiv> min (num_computed_tokens r + nnc + nn) (num_tokens r)"
    and "rid \<equiv> request_id r" and "ms \<equiv> managers k"
  assumes ok: "kvm_ok k free" and nn: "nn \<noteq> 0" and may: "may_allocate k r nc nt enc cap delay"
  shows "\<exists>d. let bss = kv_blocks nc; av = avail bss (free @ d); n = length ms; q = (\<lambda>i. lack rid nt enc (bss ! i) (ms ! i)) in
    if int (length av) < (\<Sum>i<n. q i)
    then \<exists>k'. allocate_slots r nn nnc ncb la delay enc k = Inr (None, k') \<and> kvm_ok k' (free @ d) \<and>
      (\<forall>i<n. skip_rel rid (ms ! i) (managers k' ! i)) \<and> (\<exists>ms' p'. k' = with_state k ms' p' \<and> pool_frame (kvm_pool k) p')
    else \<exists>k' news. allocate_slots r nn nnc ncb la delay enc k = Inr (Some (create_kv_cache_blocks k news), k') \<and>
      concat news = take (\<Sum>i<n. nat (q i)) av \<and> kvm_ok k' (drop (\<Sum>i<n. nat (q i)) av) \<and>
      granted ms rid bss nt enc news (managers k') \<and>
      (kvm_enable_caching k \<and> \<not> delay \<longrightarrow> newly_cached k r bss cap k') \<and>
      (\<exists>ms' p'. k' = with_state k ms' p' \<and> pool_frame (kvm_pool k) p')"
proof -
  let ?p = "kvm_pool k" and ?bss = "kv_blocks nc" and ?q = "\<lambda>i. lack rid nt enc (kv_blocks nc ! i) (ms ! i)"
  have kv: "kv_ok ms ?p free []" and cf: "kvm_config k" using ok by (auto simp: kvm_ok_def ms_def)
  have sp: "\<forall>m \<in> set ms. spec_ok m" and ec: "enable_caching ?p = kvm_enable_caching k" using cf by (auto simp: kvm_config_def ms_def)
  have h: "hits_ok ms ?bss" "hits_valid ?p ?bss" "\<not> kvm_enable_caching k \<Longrightarrow> concat ?bss = []"
    "\<forall>m \<in> set ms. skip_ok (enable_caching ?p) rid (num_computed_tokens r) m"
    using may ec by (auto simp: may_allocate_def ms_def rid_def)
  have lb: "length ?bss = length ms" using h(1) by (simp add: hits_ok_def)
  obtain o1 ms1 p1 d ks ms2 where s: "for_managers (group_skip rid (num_computed_tokens r)) 0 ms ?p = Inr (o1, ms1, p1)"
    "for_managers (group_num_blocks rid nt ?bss enc) 0 ms1 p1 = Inr (ks, ms2, p1)"
    "sum_list ks = (\<Sum>i<length ms. ?q i) + (\<Sum>i<length ms. int (length (filter (evictable p1) (?bss ! i))))"
    "kv_ok ms2 p1 (free @ d) []" "pool_frame ?p p1" "bh p1 = bh ?p" "length ms2 = length ms"
    "\<forall>i<length ms. skip_rel rid (ms ! i) (ms2 ! i)"
    using alloc_prepare[OF kv h(4) sp h(1), of nt enc] by blast
  have h1: "hits_valid p1 ?bss" using h(2) s(5,6) by (simp add: hits_valid_def pool_frame_blocks)
  have count: "get_num_free_blocks p1 < sum_list ks \<longleftrightarrow> int (length (avail ?bss (free @ d))) < (\<Sum>i<length ms. ?q i)"
    unfolding pool_inv_num_free[OF kv_okD(2)[OF s(4)]] s(3) avail_length[OF kv_okD(2)[OF s(4)] h1] lb by linarith
  show ?thesis
  proof (cases "int (length (avail ?bss (free @ d))) < (\<Sum>i<length ms. ?q i)")
    case True
    then have "allocate_slots r nn nnc ncb la delay enc k = Inr (None, with_state k ms2 p1)"
      using allocate_slots_none[OF nn s(1)[unfolded ms_def rid_def] s(2)[unfolded nc_def nt_def rid_def]] count by blast
    moreover have "\<forall>i<length ms. same_mgr (ms ! i) (ms2 ! i)" using s(8) by (simp add: skip_rel_def)
    then have "kvm_ok (with_state k ms2 p1) (free @ d)" using s(4,7) config_step[OF cf _ s(5)] by (simp add: kvm_ok_def ms_def)
    ultimately show ?thesis using True s(5,8) by (intro exI[of _ d]) (auto simp: Let_def)
  next
    case False
    then have fit: "(\<Sum>i<length ms. ?q i) \<le> int (length (avail ?bss (free @ d)))" by simp
    from alloc_success[OF ok may s(4,5,6) s(7,8)[unfolded ms_def rid_def] fit[unfolded ms_def rid_def]]
    obtain p2 ms3 news ms4 p4 ms5 p5 where c: "touch ?bss p1 = Inr p2"
      "if nc = EmptyKVCacheBlocks (num_kv_cache_groups k) then ms3 = ms2
       else \<exists>outs. for_managers (group_save (request_id r) ?bss) 0 ms2 p2 = Inr (outs, ms3, p2)"
      "for_managers (group_allocate (request_id r) nt enc) 0 ms3 p2 = Inr (news, ms4, p4)"
      "if kvm_enable_caching k \<and> \<not> delay then \<exists>outs. for_managers (group_cache r cap) 0 ms4 p4 = Inr (outs, ms5, p5)
       else ms5 = ms4 \<and> p5 = p4"
      "concat news = take (\<Sum>i<length ms. nat (?q i)) (avail ?bss (free @ d))"
      "kvm_ok (with_state k ms5 p5) (drop (\<Sum>i<length ms. nat (?q i)) (avail ?bss (free @ d)))"
      "granted ms rid ?bss nt enc news ms5" "pool_frame ?p p5"
      "kvm_enable_caching k \<and> \<not> delay \<longrightarrow> newly_cached k r ?bss cap (with_state k ms5 p5)"
      unfolding ms_def rid_def by blast
    have "\<not> get_num_free_blocks p1 < sum_list ks" using False count by simp
    from allocate_slots_some[OF nn s(1)[unfolded ms_def rid_def] s(2)[unfolded nc_def nt_def rid_def] this
        c(1)[unfolded nc_def] h(3)[unfolded nc_def] c(2)[unfolded nc_def] c(3)[unfolded nt_def] c(4)[unfolded cap_def]]
    have "allocate_slots r nn nnc ncb la delay enc k = Inr (Some (create_kv_cache_blocks k news), with_state k ms5 p5)" .
    then show ?thesis using False c(5-9) by (intro exI[of _ d]) (auto simp: Let_def)
  qed
qed

end
