(* ===== verification/KV_Lifecycle.thy ===== *)
theory KV_Lifecycle
  imports KV_Slots
begin

text \<open>
  The life of a KV cache manager: construction, the operations other than slot allocation, the states
  reachable through all of them, and progress once requests release their blocks.
\<close>

section \<open>Release\<close>

definition released :: "string \<Rightarrow> kv_manager \<Rightarrow> kv_manager \<Rightarrow> bool" where
  "released rid m m' \<longleftrightarrow> same_mgr m m' \<and> map_of (req_to_blocks m') = (map_of (req_to_blocks m))(rid := None) \<and>
     map_of (num_cached_block m') = (map_of (num_cached_block m))(rid := None)"

lemma kvm_free_spec:
  assumes "kvm_ok k free"
  shows "\<exists>k' d. kvm_free r k = Inr k' \<and> kvm_ok k' (free @ d) \<and> length (managers k') = length (managers k) \<and>
    bh (kvm_pool k') = bh (kvm_pool k) \<and> pool_frame (kvm_pool k) (kvm_pool k') \<and>
    (\<exists>ms p. k' = with_state k ms p) \<and>
    (\<forall>i<length (managers k). released (request_id r) (managers k ! i) (managers k' ! i))"
proof -
  have cf: "kvm_config k" and kv: "kv_ok (managers k) (kvm_pool k) free []" using assms by (auto simp: kvm_ok_def)
  obtain outs ms' p' d where f: "for_managers (group_free (request_id r)) 0 (managers k) (kvm_pool k) = Inr (outs, ms', p')"
    "kv_ok ms' p' (free @ d) []" "pool_frame (kvm_pool k) p'" "bh p' = bh (kvm_pool k)" "length ms' = length (managers k)"
    "\<forall>i<length (managers k). released (request_id r) (managers k ! i) (ms' ! i)"
    using free_all[OF kv, of "request_id r"] unfolding released_def by blast
  have "kvm_config (with_state k ms' p')" by (rule config_step[OF cf f(5,3)]) (use f(6) in \<open>simp add: released_def\<close>)
  moreover have "kvm_free r k = Inr (with_state k ms' p')"
    by (simp add: kvm_free_def coord_free_def on_managers_eq[OF f(1)])
  ultimately show ?thesis using f(2-6)
    by (intro exI[of _ "with_state k ms' p'"] exI[of _ d]) (auto simp: kvm_ok_def)
qed

section \<open>Reset\<close>

lemma null_tables:
  assumes inv: "kv_inv ms p free []" and z: "\<forall>b \<in> pool_blocks p. b \<noteq> Blk 0 \<longrightarrow> rc p b = 0" and m: "m \<in> set ms"
  shows "set (table m rid) \<subseteq> {Blk 0}"
proof
  fix b assume b: "b \<in> set (table m rid)"
  obtain xs ys where ms: "ms = xs @ m # ys" using m by (metis split_list)
  have "b \<in> pool_blocks p" using mgr_okD(5)[OF kv_invD(2)[OF inv m], of rid] b by blast
  then show "b \<in> {Blk 0}" using z table_held[OF inv[unfolded ms] b] by fastforce
qed

lemma reset_kv_ok:
  assumes ok: "kv_ok ms p free []"
  shows "kv_ok ms (snd (pool_reset_prefix_cache p)) free []"
proof (cases "fst (pool_reset_prefix_cache p)")
  case True
  let ?p = "snd (pool_reset_prefix_cache p)"
  note inv = kv_okD(1)[OF ok] and rs = reset_spec[OF kv_okD(2)[OF ok]]
  have fr: "pool_blocks ?p = pool_blocks p" by (rule pool_frame_blocks[OF rs(4)])
  have z: "\<forall>b \<in> pool_blocks p. b \<noteq> Blk 0 \<longrightarrow> rc p b = 0" using True rs(1) by blast
  have z': "rc ?p b = rc p b" if "b \<in> pool_blocks p" "b \<noteq> Blk 0" for b
    using that z pool_invD(2)[OF rs(2)] pool_invD(2)[OF kv_okD(2)[OF ok]] fr by auto
  have "kv_inv ms ?p free []"
    using kv_invD[OF inv] rs(2) z' mgr_ok_frame[OF rs(4)] unfolding kv_inv_def fr by auto
  moreover have "tab_ok ?p (table m rid) (n_cached m rid)" if e: "enable_caching p" and m: "m \<in> set ms" for m rid
  proof -
    have t: "tab_ok p (table m rid) (n_cached m rid)" using cache_okD(1)[OF kv_okD(3)[OF ok e] m] .
    have "\<not> n_cached m rid \<le> int i" if i: "i < length (table m rid)" for i
    proof -
      have "table m rid ! i = Blk 0" using null_tables[OF inv z m, of rid] nth_mem[OF i] by blast
      then show ?thesis using t i by (auto simp: tab_ok_def)
    qed
    then show ?thesis using t by (auto simp: tab_ok_def)
  qed
  ultimately show ?thesis using z z' pool_frame_caching[OF rs(4)] by (auto simp: kv_ok_def cache_ok_def fr)
next
  case False
  then have "snd (pool_reset_prefix_cache p) = p" by (auto simp: pool_reset_prefix_cache_def Let_def split: if_splits)
  then show ?thesis using ok by simp
qed

lemma config_pool:
  "kvm_config k \<Longrightarrow> pool_frame (kvm_pool k) p \<Longrightarrow> kvm_config (set_pool p k)"
  by (auto simp: kvm_config_def set_pool_def pool_frame_def)

lemma kvm_ok_stats [simp]: "kvm_ok (k\<lparr>prefix_cache_stats := s\<rparr>) free = kvm_ok k free"
  by (simp add: kvm_ok_def kvm_config_def)

lemma kvm_reset_ok:
  assumes "kvm_ok k free" "kvm_reset_prefix_cache k = Inr (b, k')"
  shows "kvm_ok k' free"
proof -
  have "kvm_ok (set_pool (snd (pool_reset_prefix_cache (kvm_pool k))) k) free"
    using assms(1) reset_kv_ok[of "managers k" "kvm_pool k" free] config_pool
      reset_spec(4)[OF kv_okD(2), of "managers k" "kvm_pool k" free "[]"]
    by (simp add: kvm_ok_def) (simp add: set_pool_def)
  then show ?thesis using assms(2)
    by (auto simp: kvm_reset_prefix_cache_def split: prod.splits if_splits option.splits)
qed

section \<open>Other operations\<close>

lemma kvm_common_ok:
  assumes "kvm_ok k free" "kvm_get_num_common_prefix_blocks rid k = Inr (ns, k')"
  shows "kvm_ok k' free"
proof (cases "coord_class (coordinator k) = KVCacheCoordinatorNoPrefixCache")
  case True
  then have "k' = k" using assms(2) by (auto simp: kvm_get_num_common_prefix_blocks_def coord_get_num_common_prefix_blocks_def)
  then show ?thesis using assms(1) by simp
next
  case False
  let ?I = "\<lambda>i ms' p'. kv_ok ms' p' free [] \<and> p' = kvm_pool k" and ?R = "\<lambda>i m m' _. same_mgr m m'"
  have "\<exists>x m' p'. group_common rid (length xs) m q = Inr (x, m', p') \<and> ?I (Suc (length xs)) (xs @ m' # ys) p' \<and>
      ?R (length xs) m m' x" if "?I (length xs) (xs @ m # ys) q" for xs m ys q
    using that kv_ok_dd_touch[of xs m ys q free "[]" rid]
    by (auto simp: group_common_def mgr_get_num_common_prefix_blocks_def Let_def)
  then have "\<exists>outs ms' p'. for_managers (group_common rid) 0 (managers k) (kvm_pool k) = Inr (outs, ms', p') \<and>
    ?I (length (managers k)) ms' p' \<and> length ms' = length (managers k) \<and> length outs = length (managers k) \<and>
    (\<forall>i<length (managers k). ?R i (managers k ! i) (ms' ! i) (outs ! i))"
    by (intro for_managers_ok[where I = ?I and R = ?R]) (use assms(1) in \<open>auto simp: kvm_ok_def\<close>)
  then obtain outs ms' where r: "for_managers (group_common rid) 0 (managers k) (kvm_pool k) = Inr (outs, ms', kvm_pool k)"
    "kv_ok ms' (kvm_pool k) free []" "length ms' = length (managers k)" "\<forall>i<length (managers k). same_mgr (managers k ! i) (ms' ! i)"
    by blast
  then have "k' = with_state k ms' (kvm_pool k)"
    using assms(2) False on_managers_eq[OF r(1)]
    by (simp add: kvm_get_num_common_prefix_blocks_def coord_get_num_common_prefix_blocks_def)
  then show ?thesis using r config_step[of k ms' "kvm_pool k"] assms(1) by (simp add: kvm_ok_def)
qed

text \<open>Caching on its own, as a KV connector does once a transfer has finished.\<close>

definition may_cache :: "KVCacheManager \<Rightarrow> Request \<Rightarrow> int \<Rightarrow> bool" where
  "may_cache k r n \<longleftrightarrow> 0 \<le> n \<and> n div hash_block_size (kvm_pool k) \<le> int (length (block_hashes r)) \<and>
     (\<forall>m \<in> set (managers k). n div mgr_block_size m \<le> int (length (table m (request_id r))))"

lemma kvm_cache_ok:
  assumes ok: "kvm_ok k free" and may: "may_cache k r n"
  shows "\<exists>k'. kvm_cache_blocks r n k = Inr k' \<and> kvm_ok k' free"
proof (cases "kvm_enable_caching k")
  case True
  have kv: "kv_ok (managers k) (kvm_pool k) free []" and cf: "kvm_config k" using ok by (auto simp: kvm_ok_def)
  have f: "enable_caching (kvm_pool k)" "\<not> enable_kv_cache_events (kvm_pool k)" using cf True by (auto simp: kvm_config_def)
  have ca: "\<forall>m \<in> set (managers k). cacheable (kvm_pool k) r n m"
    using cf True may by (auto simp: cacheable_def kvm_config_def may_cache_def)
  have len: "\<forall>m \<in> set (managers k). n div mgr_block_size m \<le> int (length (table m (request_id r)))"
    using may by (simp add: may_cache_def)
  obtain outs ms' p' where r: "for_managers (group_cache r n) 0 (managers k) (kvm_pool k) = Inr (outs, ms', p')"
    "kv_ok ms' p' free []" "pool_frame (kvm_pool k) p'" "length ms' = length (managers k)"
    "\<forall>i<length (managers k). cached_rel (request_id r) n (managers k ! i) (ms' ! i)"
    using cache_all[OF kv f ca len] by blast
  have "kvm_config (with_state k ms' p')" by (rule config_step[OF cf r(4,3)]) (use r(5) in \<open>simp add: cached_rel_def\<close>)
  then show ?thesis using r(2) True by (simp add: kvm_cache_blocks_def coord_cache_eq[OF r(1)] kvm_ok_def)
qed (use ok in \<open>simp add: kvm_cache_blocks_def\<close>)

lemma kvm_take_events_ok: "kvm_ok k free \<Longrightarrow> kvm_take_events k = (evs, k') \<Longrightarrow> kvm_ok k' free"
  by (auto simp: kvm_take_events_def take_events_def kvm_ok_def kvm_config_def set_pool_def split: if_splits)

lemma get_computed_keeps: "get_computed_blocks r k = Inr (x, k') \<Longrightarrow> kvm_ok k' free = kvm_ok k free"
  by (cases "prefix_cache_stats k")
    (auto simp: get_computed_blocks_def Let_def res_bind_eq_Inr split: if_splits prod.splits)

lemma make_stats_keeps: "make_prefix_cache_stats k = (x, k') \<Longrightarrow> kvm_ok k' free = kvm_ok k free"
  by (auto simp: make_prefix_cache_stats_def split: if_splits)

section \<open>Construction\<close>

lemma make_managers_spec:
  assumes "make_managers p dcp pcp i gs = Inr ms" "j < length gs"
  shows "length ms = length gs" "\<exists>cls. spec_manager_map (group_spec (gs ! j)) = Some cls \<and>
    ms ! j = SingleTypeKVCacheManager_init cls (group_spec (gs ! j)) p (i + int j) dcp pcp"
  using assms
proof (induction gs arbitrary: i ms j)
  case (Cons g gs)
  {
    case 1
    then obtain m ms' where "make_managers p dcp pcp (i + 1) gs = Inr ms'" "ms = m # ms'" by (auto simp: res_bind_eq_Inr)
    then show ?case using Cons.IH(1)[of "i + 1" ms' 0] by (cases gs) auto
  next
    case 2
    then obtain m ms' where m: "get_manager_for_kv_cache_spec (group_spec g) p i dcp pcp = Inr m"
      "make_managers p dcp pcp (i + 1) gs = Inr ms'" "ms = m # ms'" by (auto simp: res_bind_eq_Inr)
    show ?case
    proof (cases j)
      case 0
      then show ?thesis using m by (auto simp: get_manager_for_kv_cache_spec_def split: option.splits)
    next
      case (Suc j')
      then show ?thesis using Cons.IH(2)[OF m(2), of j'] 2(2) m(3) by (simp add: algebra_simps)
    qed
  }
qed simp_all

text \<open>What the engine guarantees of a configuration.\<close>

definition config_ok :: "KVCacheConfig \<Rightarrow> bool \<Rightarrow> int \<Rightarrow> int \<Rightarrow> int \<Rightarrow> bool" where
  "config_ok cfg caching hbs dcp pcp \<longleftrightarrow> 0 < num_blocks cfg \<and> 1 \<le> dcp \<and> 1 \<le> pcp \<and> length (kv_cache_groups cfg) \<le> 2 ^ 32 \<and>
     (\<forall>g \<in> set (kv_cache_groups cfg). 0 < spec_block_size (group_spec g)) \<and>
     (caching \<longrightarrow> 0 < hbs \<and>
        (\<forall>g \<in> set (kv_cache_groups cfg). spec_manager_map (group_spec g) \<noteq> Some CrossAttentionManager))"

lemma fresh_managers_ok:
  assumes p: "BlockPool_init n caching hbs False use_int = Inr p" "0 < n"
    and ms: "make_managers p dcp pcp 0 gs = Inr ms" and pos: "1 \<le> dcp" "1 \<le> pcp" "\<forall>g \<in> set gs. 0 < spec_block_size (group_spec g)"
  shows "kv_ok ms p (map Blk [1..<nat n]) []"
proof -
  have pi: "pool_inv p (map Blk [1..<nat n])" "\<forall>b \<in> pool_blocks p. rc p b = 0 \<and> bh p b = None"
    using BlockPool_init_spec[OF p(2), of caching hbs False use_int] p(1) by auto
  have nb: "null_block p = Blk 0" using pool_invD(7)[OF pi(1)] by (simp add: pool_shape_def)
  have m: "mgr_ok p m \<and> req_to_blocks m = [] \<and> num_cached_block m = []" if mm: "m \<in> set ms" for m
  proof (cases gs)
    case Nil
    then show ?thesis using mm ms by simp
  next
    case (Cons g gs')
    then have len: "length ms = length gs" using make_managers_spec(1)[OF ms, of 0] by simp
    obtain j where j: "j < length gs" "m = ms ! j" using mm len by (auto simp: in_set_conv_nth)
    obtain cls where c: "m = SingleTypeKVCacheManager_init cls (group_spec (gs ! j)) p (int j) dcp pcp"
      using make_managers_spec(2)[OF ms j(1)] j(2) by auto
    have "0 < spec_block_size (group_spec (gs ! j))" using pos(3) j(1) by simp
    then have "0 < mgr_block_size m" using pos(1,2) by (auto simp: c SingleTypeKVCacheManager_init_def group_block_size_def)
    then show ?thesis by (simp add: c SingleTypeKVCacheManager_init_def mgr_ok_def table_def nb)
  qed
  then have "held ms b = 0" for b by (induction ms) auto
  then have "kv_inv ms p (map Blk [1..<nat n]) []" using pi m by (simp add: kv_inv_def)
  moreover have "cache_ok ms p" using pi(2) m by (auto simp: cache_ok_def tab_ok_def table_def n_cached_def)
  ultimately show ?thesis by (simp add: kv_ok_def)
qed

lemma group_block_size_ge:
  assumes "1 \<le> dcp" "1 \<le> pcp"
  shows "group_block_size spec dcp pcp = spec_block_size spec * dcp * pcp"
proof (cases "dcp = 1 \<and> pcp = 1")
  case False
  then have "1 < dcp \<or> 1 < pcp" using assms by auto
  moreover have "dcp \<le> dcp * pcp" "pcp \<le> dcp * pcp"
    using mult_left_mono[OF assms(2), of dcp] mult_right_mono[OF assms(1), of pcp] assms by simp_all
  ultimately have "1 < dcp * pcp" by linarith
  then show ?thesis by (simp add: group_block_size_def)
qed (simp add: group_block_size_def)

lemma res_map_mods:
  assumes "res_map (\<lambda>g. py_mod (f g) h) gs = Inr rems" "\<forall>k \<in> set rems. k = 0" "h \<noteq> 0" "g \<in> set gs"
  shows "f g mod h = 0"
proof -
  obtain i where i: "i < length gs" "g = gs ! i" using assms(4) by (auto simp: in_set_conv_nth)
  have "py_mod (f g) h = Inr (rems ! i)" using res_map_Inr_nth[OF assms(1) i(1)] i(2) by simp
  moreover have "rems ! i = 0" using assms(2) res_map_Inr_length[OF assms(1)] i(1) by simp
  ultimately show ?thesis using assms(3) by (simp add: py_mod_def split: if_splits)
qed

lemma coordinator_fields:
  assumes "get_kv_cache_coordinator cfg max_len eagle caching False dcp pcp hbs use_int = Inr co"
  shows "\<exists>p. BlockPool_init (num_blocks cfg) caching hbs False use_int = Inr p \<and> coord_pool co = p \<and>
    make_managers p dcp pcp 0 (kv_cache_groups cfg) = Inr (single_type_managers co) \<and>
    (caching \<longrightarrow> 1 \<le> dcp \<longrightarrow> 1 \<le> pcp \<longrightarrow> hbs \<noteq> 0 \<longrightarrow>
      (\<forall>g \<in> set (kv_cache_groups cfg). group_block_size (group_spec g) dcp pcp mod hbs = 0))"
proof (cases caching)
  case False
  then show ?thesis using assms
    by (auto simp: get_kv_cache_coordinator_def NoPrefixCache_init_def KVCacheCoordinator_init_def res_bind_eq_Inr)
next
  case True
  show ?thesis
  proof (cases "length (kv_cache_groups cfg) = 1")
    case one: True
    then obtain g where g: "kv_cache_groups cfg = [g]" by (metis One_nat_def length_0_conv length_Suc_conv)
    show ?thesis using assms True g group_block_size_ge[of dcp pcp "group_spec g"]
      by (auto simp: get_kv_cache_coordinator_def Unitary_init_def KVCacheCoordinator_init_def res_bind_eq_Inr Let_def
          split: if_splits)
  next
    case False
    then show ?thesis using assms True
      by (auto simp: get_kv_cache_coordinator_def Hybrid_init_def KVCacheCoordinator_init_def res_bind_eq_Inr
          group_block_size_def intro: res_map_mods)
  qed
qed

lemma kvm_init_ok:
  assumes cf: "config_ok cfg caching hbs dcp pcp"
    and init: "KVCacheManager_init cfg max_len hbs caching eagle log_st False dcp pcp use_int = Inr k"
  shows "kvm_ok k (map Blk [1..<nat (num_blocks cfg)])" "num_gpu_blocks (kvm_pool k) = num_blocks cfg"
    "length (managers k) = length (kv_cache_groups cfg)"
    "\<And>m. m \<in> set (managers k) \<Longrightarrow> req_to_blocks m = [] \<and> num_cached_block m = []"
proof -
  obtain co where co: "get_kv_cache_coordinator cfg max_len eagle caching False dcp pcp hbs use_int = Inr co"
    "k = \<lparr>kvm_max_model_len = max_len, kvm_enable_caching = caching, kvm_use_eagle = eagle, log_stats = log_st,
            prefix_cache_stats = (if log_st then Some new_PrefixCacheStats else None), coordinator = co,
            num_kv_cache_groups = length (kv_cache_groups cfg)\<rparr>"
    using init by (auto simp: KVCacheManager_init_def res_bind_eq_Inr)
  let ?gs = "kv_cache_groups cfg" and ?ms = "single_type_managers co"
  obtain p where p: "BlockPool_init (num_blocks cfg) caching hbs False use_int = Inr p" "coord_pool co = p"
    "make_managers p dcp pcp 0 ?gs = Inr ?ms"
    "caching \<Longrightarrow> 1 \<le> dcp \<Longrightarrow> 1 \<le> pcp \<Longrightarrow> hbs \<noteq> 0 \<Longrightarrow> \<forall>g \<in> set ?gs. group_block_size (group_spec g) dcp pcp mod hbs = 0"
    using coordinator_fields[OF co(1)] by blast
  have c: "0 < num_blocks cfg" "1 \<le> dcp" "1 \<le> pcp" "\<forall>g \<in> set ?gs. 0 < spec_block_size (group_spec g)"
    using cf by (auto simp: config_ok_def)
  have pi: "num_gpu_blocks p = num_blocks cfg" "enable_caching p = caching" "hash_block_size p = hbs" "\<not> enable_kv_cache_events p"
    using BlockPool_init_spec[OF c(1), of caching hbs False use_int] p(1) by auto
  have len: "length ?ms = length ?gs" using make_managers_spec(1)[OF p(3), of 0] p(3) by (cases ?gs) auto
  have mg: "spec_ok m \<and> 0 < spec_block_size (kv_cache_spec m) \<and> req_to_blocks m = [] \<and> num_cached_block m = [] \<and>
      (caching \<longrightarrow> mgr_class m \<noteq> CrossAttentionManager \<and> group_ok (kv_cache_group_id m) \<and> mgr_block_size m mod hbs = 0)"
    if mm: "m \<in> set ?ms" for m
  proof -
    obtain j where j: "j < length ?gs" "m = ?ms ! j" using mm len by (auto simp: in_set_conv_nth)
    obtain cls where cl: "spec_manager_map (group_spec (?gs ! j)) = Some cls"
      "m = SingleTypeKVCacheManager_init cls (group_spec (?gs ! j)) p (int j) dcp pcp"
      using make_managers_spec(2)[OF p(3) j(1)] j(2) by auto
    have g: "?gs ! j \<in> set ?gs" using j(1) by simp
    have "int j < 2 ^ 32" using j(1) cf by (auto simp: config_ok_def)
    then show ?thesis using cl g c cf p(4)
      by (auto simp: SingleTypeKVCacheManager_init_def spec_ok_def config_ok_def)
  qed
  show "kvm_ok k (map Blk [1..<nat (num_blocks cfg)])"
    using fresh_managers_ok[OF p(1) c(1) p(3) c(2-4)] len mg pi cf p(2)
    by (auto simp: kvm_ok_def kvm_config_def co(2) config_ok_def)
  show "num_gpu_blocks (kvm_pool k) = num_blocks cfg" "length (managers k) = length ?gs"
    "\<And>m. m \<in> set (managers k) \<Longrightarrow> req_to_blocks m = [] \<and> num_cached_block m = []"
    using pi(1) p(2) len mg by (auto simp: co(2))
qed

section \<open>Reachable states\<close>

text \<open>\<open>cap\<close> and \<open>nt\<close> are the numbers of tokens to cache and to provide slots for, as \<open>allocate_slots\<close> computes them.\<close>

definition slot_tokens :: "KVCacheManager \<Rightarrow> Request \<Rightarrow> int \<Rightarrow> int \<Rightarrow> int \<Rightarrow> int" where
  "slot_tokens k r nn nnc la = min (num_computed_tokens r + nnc + nn + la) (kvm_max_model_len k)"

definition cache_tokens :: "Request \<Rightarrow> int \<Rightarrow> int \<Rightarrow> int" where
  "cache_tokens r nn nnc = min (num_computed_tokens r + nnc + nn) (num_tokens r)"

definition given_blocks :: "KVCacheManager \<Rightarrow> KVCacheBlocks option \<Rightarrow> KVCacheBlocks" where
  "given_blocks k ncb = (case ncb of Some x \<Rightarrow> x | None \<Rightarrow> EmptyKVCacheBlocks (num_kv_cache_groups k))"

inductive kvm_step :: "KVCacheManager \<Rightarrow> KVCacheManager \<Rightarrow> bool" where
  slots: "nn \<noteq> 0 \<Longrightarrow> may_allocate k r (given_blocks k ncb) (slot_tokens k r nn nnc la) enc (cache_tokens r nn nnc) delay \<Longrightarrow>
    allocate_slots r nn nnc ncb la delay enc k = Inr (res, k') \<Longrightarrow> kvm_step k k'"
| lookup: "get_computed_blocks r k = Inr (x, k') \<Longrightarrow> kvm_step k k'"
| release: "kvm_free r k = Inr k' \<Longrightarrow> kvm_step k k'"
| cache: "may_cache k r n \<Longrightarrow> kvm_cache_blocks r n k = Inr k' \<Longrightarrow> kvm_step k k'"
| reset: "kvm_reset_prefix_cache k = Inr (done, k') \<Longrightarrow> kvm_step k k'"
| common: "kvm_get_num_common_prefix_blocks rid k = Inr (ns, k') \<Longrightarrow> kvm_step k k'"
| stats: "make_prefix_cache_stats k = (st, k') \<Longrightarrow> kvm_step k k'"
| events: "kvm_take_events k = (evs, k') \<Longrightarrow> kvm_step k k'"

inductive kvm_reachable :: "KVCacheManager \<Rightarrow> bool" where
  init: "config_ok cfg caching hbs dcp pcp \<Longrightarrow>
    KVCacheManager_init cfg max_len hbs caching eagle log_st False dcp pcp use_int = Inr k \<Longrightarrow> kvm_reachable k"
| step: "kvm_reachable k \<Longrightarrow> kvm_step k k' \<Longrightarrow> kvm_reachable k'"

lemma kvm_step_ok:
  assumes "kvm_step k k'" "kvm_ok k free"
  shows "\<exists>free'. kvm_ok k' free'"
  using assms
proof (cases rule: kvm_step.cases)
  case (slots nn r ncb nnc la enc delay res)
  then show ?thesis
    using allocate_slots_spec[OF assms(2) slots(1), of r ncb nnc la enc delay]
    by (auto simp: given_blocks_def slot_tokens_def cache_tokens_def Let_def split: if_splits)
next
  case (lookup r x)
  then show ?thesis using assms(2) get_computed_keeps by blast
next
  case (release r)
  then show ?thesis using kvm_free_spec[OF assms(2), of r] by auto
next
  case (cache r n)
  then show ?thesis using kvm_cache_ok[OF assms(2)] by fastforce
next
  case (reset d)
  then show ?thesis using kvm_reset_ok[OF assms(2)] by blast
next
  case (common rid ns)
  then show ?thesis using kvm_common_ok[OF assms(2)] by blast
next
  case (stats st)
  then show ?thesis using assms(2) make_stats_keeps by blast
next
  case (events evs)
  then show ?thesis using kvm_take_events_ok[OF assms(2)] by blast
qed

lemma kvm_reachable_ok: "kvm_reachable k \<Longrightarrow> \<exists>free. kvm_ok k free"
  by (induction rule: kvm_reachable.induct) (use kvm_init_ok(1) kvm_step_ok in blast)+

end
