(* ===== verification/KV_Manager_Theorems.thy ===== *)
theory KV_Manager_Theorems
  imports KV_Lifecycle Prefix_Cache_Lookup
begin

text \<open>
  The properties of the KV cache manager over all reachable states, with a small concrete manager on
  which they are instantiated.
\<close>

section \<open>Releasing all requests\<close>

definition free_all_requests :: "Request list \<Rightarrow> KVCacheManager \<Rightarrow> KVCacheManager result" where
  "free_all_requests rs k = res_fold (\<lambda>k r. kvm_free r k) k rs"

lemma released_table:
  "released rid m m' \<Longrightarrow> table m' q = (if q = rid then [] else table m q)"
  by (simp add: released_def table_def)

definition released_ids :: "string set \<Rightarrow> kv_manager \<Rightarrow> kv_manager \<Rightarrow> bool" where
  "released_ids ids m m' \<longleftrightarrow> same_mgr m m' \<and> (\<forall>q. table m' q = (if q \<in> ids then [] else table m q)) \<and>
     (\<forall>q. map_of (num_cached_block m') q = (if q \<in> ids then None else map_of (num_cached_block m) q))"

lemma released_ids_step: "released_ids ids m m' \<Longrightarrow> released rid m0 m \<Longrightarrow> released_ids (insert rid ids) m0 m'"
  using released_table[of rid m0 m] same_mgr_trans[of m0 m m'] by (auto simp: released_ids_def released_def)

lemma free_all_spec:
  assumes "kvm_ok k free"
  shows "\<exists>k' free'. free_all_requests rs k = Inr k' \<and> kvm_ok k' free' \<and> (\<exists>ms p. k' = with_state k ms p) \<and>
    pool_frame (kvm_pool k) (kvm_pool k') \<and> length (managers k') = length (managers k) \<and>
    (\<forall>i<length (managers k). released_ids (request_id ` set rs) (managers k ! i) (managers k' ! i))"
  using assms
proof (induction rs arbitrary: k free)
  case Nil
  have "k = with_state k (managers k) (kvm_pool k)" by simp
  then have "\<exists>ms p. k = with_state k ms p" by blast
  then show ?case using Nil by (auto simp: free_all_requests_def released_ids_def)
next
  case (Cons r rs)
  obtain k1 d where k1: "kvm_free r k = Inr k1" "kvm_ok k1 (free @ d)" "length (managers k1) = length (managers k)"
    "pool_frame (kvm_pool k) (kvm_pool k1)" "\<exists>ms p. k1 = with_state k ms p"
    "\<forall>i<length (managers k). released (request_id r) (managers k ! i) (managers k1 ! i)"
    using kvm_free_spec[OF Cons.prems, of r] by blast
  obtain k2 free2 where k2: "free_all_requests rs k1 = Inr k2" "kvm_ok k2 free2" "\<exists>ms p. k2 = with_state k1 ms p"
    "pool_frame (kvm_pool k1) (kvm_pool k2)" "length (managers k2) = length (managers k1)"
    "\<forall>i<length (managers k1). released_ids (request_id ` set rs) (managers k1 ! i) (managers k2 ! i)"
    using Cons.IH[OF k1(2)] by blast
  have "\<forall>i<length (managers k). released_ids (request_id ` set (r # rs)) (managers k ! i) (managers k2 ! i)"
    using k1(3,6) k2(6) by (auto intro: released_ids_step)
  moreover obtain ms p ms' p' where "k1 = with_state k ms p" "k2 = with_state k1 ms' p'" using k1(5) k2(3) by blast
  then have "k2 = with_state k ms' p'" by simp
  then have "\<exists>ms p. k2 = with_state k ms p" by blast
  moreover have "free_all_requests (r # rs) k = Inr k2" using k1(1) k2(1) by (simp add: free_all_requests_def)
  ultimately show ?case using k1(3) k2(2,5) pool_frame_trans[OF k1(4) k2(4)] by auto
qed

lemma empty_tables_free:
  assumes ok: "kvm_ok k free" and e: "\<And>m rid. m \<in> set (managers k) \<Longrightarrow> table m rid = []"
  shows "int (length free) = num_gpu_blocks (kvm_pool k) - 1"
proof -
  have kv: "kv_ok (managers k) (kvm_pool k) free []" using ok by (simp add: kvm_ok_def)
  note inv = kv_okD(1)[OF kv]
  have t: "tcount al b = 0" if "distinct (map fst al)" "\<And>q. dict_get al q = []" for al b
    using that
  proof (induction al)
    case (Cons x al)
    obtain q v where x: "x = (q, v)" by (cases x)
    have "v = []" using Cons.prems(2)[of q] by (simp add: x dict_get_def)
    moreover have "dict_get al q' = []" for q'
      using Cons.prems(2)[of q'] Cons.prems(1) dict_get_absent[of q al] by (cases "q' = q") (auto simp: x dict_get_def)
    ultimately show ?case using Cons by (simp add: x)
  qed simp
  have "tcount (req_to_blocks m) b = 0" if "m \<in> set (managers k)" for m b
    using t[OF mgr_okD(3)[OF kv_invD(2)[OF inv that]]] e[OF that] by (simp add: table_dict)
  moreover have "held ms b = 0" if "\<forall>m \<in> set ms. tcount (req_to_blocks m) b = 0" for ms b using that by (induction ms) auto
  ultimately have h: "held (managers k) b = 0" for b by simp
  then have "{b \<in> pool_blocks (kvm_pool k). b \<noteq> Blk 0 \<and> 0 < rc (kvm_pool k) b} = {}"
    using kv_invD(3)[OF inv] by auto
  then have c: "card {b \<in> pool_blocks (kvm_pool k). b \<noteq> Blk 0 \<and> 0 < rc (kvm_pool k) b} = 0" by (simp only: card.empty)
  show ?thesis using pool_conservation[OF kv_okD(2)[OF kv]] by (simp only: c)
qed

section \<open>New requests\<close>

text \<open>Windows and chunks have positive length.\<close>

definition window_ok :: "kv_manager \<Rightarrow> bool" where
  "window_ok m \<longleftrightarrow> (case kv_cache_spec m of SlidingWindowSpec _ w \<Rightarrow> 1 \<le> w | ChunkedLocalAttentionSpec _ c \<Rightarrow> 0 < c | _ \<Rightarrow> True)"

lemma skip_ok_new:
  assumes "spec_ok m" "window_ok m"
  shows "skip_ok caching rid 0 m"
  using assms by (cases "kv_cache_spec m") (auto simp: skip_ok_def get_num_skipped_tokens_def spec_ok_def window_ok_def)

text \<open>A request without blocks and without computed tokens may ask for slots.\<close>

lemma may_allocate_new:
  assumes cf: "kvm_config k" and t: "\<forall>m \<in> set (managers k). table m (request_id r) = [] \<and> map_of (num_cached_block m) (request_id r) = None"
    and n: "num_computed_tokens r = 0" "0 \<le> nt" "0 \<le> enc" and w: "\<forall>m \<in> set (managers k). window_ok m"
    and c: "kvm_enable_caching k \<and> \<not> delay \<Longrightarrow> 0 \<le> n_cache \<and> n_cache \<le> nt \<and>
        n_cache div hash_block_size (kvm_pool k) \<le> int (length (block_hashes r))"
  shows "may_allocate k r (EmptyKVCacheBlocks (num_kv_cache_groups k)) nt enc n_cache delay"
proof -
  have "\<forall>m \<in> set (managers k). skip_ok (kvm_enable_caching k) (request_id r) (num_computed_tokens r) m"
    using cf w n(1) skip_ok_new by (auto simp: kvm_config_def)
  moreover have "new_request (managers k) (request_id r) (replicate (num_kv_cache_groups k) []) nt"
    using t n(2) cf by (simp add: new_request_def kvm_config_def)
  ultimately show ?thesis using cf c n(3) by (simp add: may_allocate_def hits_ok_def hits_valid_def kvm_config_def)
qed

lemma avail_nothing: "concat bss = [] \<Longrightarrow> avail bss free = free"
  unfolding avail_def by (simp only: list.set) simp

lemma allocate_fresh:
  assumes ok: "kvm_ok k free" and may: "may_allocate k r (EmptyKVCacheBlocks (num_kv_cache_groups k)) (slot_tokens k r nn 0 la) enc (cache_tokens r nn 0) delay"
    and nn: "nn \<noteq> 0" and t: "\<forall>m \<in> set (managers k). table m (request_id r) = []"
    and fit: "(\<Sum>m\<leftarrow>managers k. required m (toks (slot_tokens k r nn 0 la) enc m)) \<le> int (length free)"
  shows "\<exists>bs k'. allocate_slots r nn 0 None la delay enc k = Inr (Some bs, k')"
proof -
  let ?bss = "kv_blocks (EmptyKVCacheBlocks (num_kv_cache_groups k))" and ?nt = "slot_tokens k r nn 0 la"
  have len: "length (managers k) = num_kv_cache_groups k" using ok by (simp add: kvm_ok_def kvm_config_def)
  have "(\<Sum>i<length (managers k). lack (request_id r) ?nt enc (?bss ! i) (managers k ! i)) =
      (\<Sum>i<length (managers k). required (managers k ! i) (toks ?nt enc (managers k ! i)))"
    using t len by (intro sum.cong) (auto simp: lack_def)
  also have "\<dots> = (\<Sum>m\<leftarrow>managers k. required m (toks ?nt enc m))" by (simp add: sum_list_sum_nth atLeast0LessThan)
  finally have s: "\<not> int (length (avail ?bss (free @ d))) < (\<Sum>i<length (managers k). lack (request_id r) ?nt enc (?bss ! i) (managers k ! i))" for d
    using fit by (simp add: avail_nothing)
  show ?thesis using allocate_slots_spec[OF ok nn, of r None 0 la enc delay] may s
    by (auto simp: slot_tokens_def cache_tokens_def Let_def)
qed

section \<open>Running requests\<close>

lemma granted_runs:
  assumes ok: "kvm_ok k free" and may: "may_allocate k r nc nt enc n_cache delay"
    and g: "granted (managers k) (request_id r) (kv_blocks nc) nt enc news ms'"
    and nx: "\<forall>m \<in> set (managers k). mgr_class m \<noteq> CrossAttentionManager"
  shows "\<exists>n\<ge>nt. running_request ms' (request_id r) n"
proof -
  let ?ms = "managers k" and ?rid = "request_id r" and ?bss = "kv_blocks nc"
  have kv: "kv_ok ?ms (kvm_pool k) free []" using ok by (simp add: kvm_ok_def)
  have sp: "\<forall>m \<in> set ?ms. spec_ok m \<and> 0 < spec_block_size (kv_cache_spec m) \<and> 0 < mgr_block_size m"
    using ok mgr_okD(1)[OF kv_invD(2)[OF kv_okD(1)[OF kv]]] by (auto simp: kvm_ok_def kvm_config_def)
  have len: "length (table (ms' ! i) ?rid) = length (table (?ms ! i) ?rid) + length (?bss ! i) + nat (lack ?rid nt enc (?bss ! i) (?ms ! i))"
    "same_mgr (?ms ! i) (ms' ! i)" if "i < length ?ms" for i
    using g that by (auto simp: granted_def nulled_def)
  have runs: "running_request ms' ?rid n"
    if "\<And>i. i < length ?ms \<Longrightarrow> int (length (table (ms' ! i) ?rid)) = required (?ms ! i) n" for n
    using that g nx len(2) required_same[OF len(2)]
    by (auto simp: running_request_def all_set_conv_all_nth granted_def same_mgr_def)
  have lk: "lack ?rid nt enc (?bss ! i) (?ms ! i) = required (?ms ! i) nt - int (length (?bss ! i)) - int (length (table (?ms ! i) ?rid))"
    if "i < length ?ms" for i using nx that by (simp add: lack_def toks_def)
  consider (new) "0 \<le> enc" "new_request ?ms ?rid ?bss nt" "hits_ok ?ms ?bss"
    | (old) n where "nc = EmptyKVCacheBlocks (num_kv_cache_groups k)" "running_request ?ms ?rid n"
    using may by (auto simp: may_allocate_def)
  then show ?thesis
  proof cases
    case new
    have "int (length (table (ms' ! i) ?rid)) = required (?ms ! i) nt" if i: "i < length ?ms" for i
    proof -
      have "0 \<le> lack ?rid nt enc (?bss ! i) (?ms ! i)" using balanced_new[OF new(2,3,1) sp] i by blast
      then show ?thesis using lk[OF i] by (simp add: len(1)[OF i])
    qed
    then have "running_request ms' ?rid nt" by (rule runs)
    then show ?thesis by blast
  next
    case (old n)
    have l: "length ?ms = num_kv_cache_groups k" using ok by (simp add: kvm_ok_def kvm_config_def)
    have "int (length (table (ms' ! i) ?rid)) = required (?ms ! i) (max n nt)" if i: "i < length ?ms" for i
    proof -
      have m: "spec_ok (?ms ! i)" "0 < mgr_block_size (?ms ! i)" using sp i by auto
      have "int (length (table (?ms ! i) ?rid)) = required (?ms ! i) n" "?bss ! i = []"
        using old i l by (auto simp: running_request_def)
      then have "int (length (table (ms' ! i) ?rid)) = max (required (?ms ! i) n) (required (?ms ! i) nt)"
        using len(1)[OF i] lk[OF i] by simp
      then show ?thesis using required_mono[OF m, of n nt] required_mono[OF m, of nt n] by (cases "n \<le> nt") (simp_all add: max_def)
    qed
    then have "running_request ms' ?rid (max n nt)" by (rule runs)
    then show ?thesis by (intro exI[of _ "max n nt"]) simp
  qed
qed

lemma granted_others:
  assumes "granted ms rid bss nt enc news ms'" "q \<noteq> rid" "running_request ms q n"
  shows "running_request ms' q n"
  unfolding running_request_def all_set_conv_all_nth
proof (intro allI impI)
  fix i assume "i < length ms'"
  then have i: "i < length ms" and s: "same_mgr (ms ! i) (ms' ! i)" and t: "table (ms' ! i) q = table (ms ! i) q"
    using assms(1,2) by (auto simp: granted_def)
  have "mgr_class (ms ! i) \<noteq> CrossAttentionManager" "int (length (table (ms ! i) q)) = required (ms ! i) n"
    using assms(3) i by (auto simp: running_request_def)
  then show "mgr_class (ms' ! i) \<noteq> CrossAttentionManager \<and> int (length (table (ms' ! i) q)) = required (ms' ! i) n"
    using s t required_same[OF s] by (simp add: same_mgr_def)
qed

section \<open>An emptied cache\<close>

lemma window_ok_same: "same_mgr m m' \<Longrightarrow> window_ok m' = window_ok m"
  by (simp add: window_ok_def same_mgr_def)

lemma emptied:
  assumes ok: "kvm_ok k free" and ids: "\<forall>m \<in> set (managers k). \<forall>q. table m q \<noteq> [] \<longrightarrow> q \<in> request_id ` set rs"
  shows "\<exists>k1 f1. free_all_requests rs k = Inr k1 \<and> kvm_ok k1 f1 \<and> int (length f1) = num_gpu_blocks (kvm_pool k) - 1 \<and>
    kvm_max_model_len k1 = kvm_max_model_len k \<and> kvm_enable_caching k1 = kvm_enable_caching k \<and>
    hash_block_size (kvm_pool k1) = hash_block_size (kvm_pool k) \<and> length (managers k1) = length (managers k) \<and>
    (\<forall>i<length (managers k). same_mgr (managers k ! i) (managers k1 ! i)) \<and>
    (\<forall>i<length (managers k). \<forall>q. table (managers k1 ! i) q = []) \<and>
    (\<forall>i<length (managers k). \<forall>q \<in> request_id ` set rs. map_of (num_cached_block (managers k1 ! i)) q = None)"
proof -
  obtain k1 f1 where k1: "free_all_requests rs k = Inr k1" "kvm_ok k1 f1" "\<exists>ms p. k1 = with_state k ms p"
    "pool_frame (kvm_pool k) (kvm_pool k1)" "length (managers k1) = length (managers k)"
    "\<forall>i<length (managers k). released_ids (request_id ` set rs) (managers k ! i) (managers k1 ! i)"
    using free_all_spec[OF ok, of rs] by blast
  have e: "table (managers k1 ! i) q = []" if i: "i < length (managers k)" for i q
  proof -
    have "managers k ! i \<in> set (managers k)" using i by simp
    then have "q \<notin> request_id ` set rs \<Longrightarrow> table (managers k ! i) q = []" using ids by metis
    then show ?thesis using k1(6) i by (simp add: released_ids_def)
  qed
  have "int (length f1) = num_gpu_blocks (kvm_pool k1) - 1"
    by (rule empty_tables_free[OF k1(2)]) (use e k1(5) in \<open>auto simp: in_set_conv_nth\<close>)
  moreover have "kvm_max_model_len k1 = kvm_max_model_len k" "kvm_enable_caching k1 = kvm_enable_caching k" using k1(3) by auto
  moreover have "hash_block_size (kvm_pool k1) = hash_block_size (kvm_pool k)" "num_gpu_blocks (kvm_pool k1) = num_gpu_blocks (kvm_pool k)"
    using k1(4) by (auto simp: pool_frame_def)
  ultimately show ?thesis using k1(1,2,5,6) e by (intro exI[of _ k1] exI[of _ f1]) (simp add: released_ids_def)
qed

lemma required_all_same:
  assumes "length ms' = length ms" "\<forall>i<length ms. same_mgr (ms ! i) (ms' ! i)"
  shows "(\<Sum>m\<leftarrow>ms'. required m (toks nt enc m)) = (\<Sum>m\<leftarrow>ms. required m (toks nt enc m))"
proof -
  have "required (ms' ! i) (toks nt enc (ms' ! i)) = required (ms ! i) (toks nt enc (ms ! i))" if "i < length ms" for i
  proof -
    have s: "same_mgr (ms ! i) (ms' ! i)" using assms(2) that by blast
    then have "toks nt enc (ms' ! i) = toks nt enc (ms ! i)" by (simp add: toks_def same_mgr_def)
    then show ?thesis using required_same[OF s] by simp
  qed
  then have "map (\<lambda>m. required m (toks nt enc m)) ms' = map (\<lambda>m. required m (toks nt enc m)) ms"
    by (intro nth_equalityI) (simp_all add: assms(1))
  then show ?thesis by (rule arg_cong)
qed

section \<open>A concrete manager\<close>

text \<open>Three usable blocks of two tokens in one full attention group, with prefix caching.\<close>

definition sample_config :: KVCacheConfig where
  "sample_config = \<lparr>num_blocks = 4, kv_cache_tensors = [],
     kv_cache_groups = [\<lparr>layer_names = [''l''], group_spec = sample_full_spec\<rparr>]\<rparr>"

definition sample_mgr :: kv_manager where
  "sample_mgr = SingleTypeKVCacheManager_init FullAttentionManager sample_full_spec sample_pool 0 1 1"

definition sample_kvm :: KVCacheManager where
  "sample_kvm = \<lparr>kvm_max_model_len = 16, kvm_enable_caching = True, kvm_use_eagle = False, log_stats = False,
     prefix_cache_stats = None,
     coordinator = \<lparr>coord_class = UnitaryKVCacheCoordinator sample_full_spec 2, kv_cache_config = sample_config,
       coord_max_model_len = 16, coord_enable_caching = True, coord_pool = sample_pool, coord_use_eagle = False,
       single_type_managers = [sample_mgr], coord_dcp = 1, coord_pcp = 1, coord_hash_block_size = 2\<rparr>,
     num_kv_cache_groups = 1\<rparr>"

definition sample_req :: Request where
  "sample_req = (sample_request ''a'' [1, 2, 3] [])\<lparr>block_hashes := [[5]]\<rparr>"

lemma sample_kvm_init: "KVCacheManager_init sample_config 16 2 True False False False 1 1 False = Inr sample_kvm"
  by (simp add: KVCacheManager_init_def get_kv_cache_coordinator_def Unitary_init_def KVCacheCoordinator_init_def
      sample_config_def sample_pool_init get_manager_for_kv_cache_spec_def sample_kvm_def sample_mgr_def)

lemma sample_config_ok: "config_ok sample_config True 2 1 1"
  by (simp add: config_ok_def sample_config_def)

lemma sample_reachable: "kvm_reachable sample_kvm"
  by (rule kvm_reachable.init[OF sample_config_ok sample_kvm_init])

lemma sample_kvm_ok: "kvm_ok sample_kvm [Blk 1, Blk 2, Blk 3]"
  using kvm_init_ok(1)[OF sample_config_ok sample_kvm_init] by (simp add: sample_config_def upt_rec eval_nat_numeral)

lemma sample_sel [simp]:
  "managers sample_kvm = [sample_mgr]" "num_kv_cache_groups sample_kvm = 1" "kvm_max_model_len sample_kvm = 16"
  "kvm_pool sample_kvm = sample_pool" "mgr_class sample_mgr = FullAttentionManager" "kv_cache_spec sample_mgr = sample_full_spec"
  "mgr_block_size sample_mgr = 2" "table sample_mgr q = []" "num_cached_block sample_mgr = []" "kvm_enable_caching sample_kvm"
  "window_ok sample_mgr"
  by (simp_all add: sample_kvm_def sample_mgr_def SingleTypeKVCacheManager_init_def table_def window_ok_def)
    (simp add: sample_full_spec_def)

lemma sample_req_sel [simp]:
  "request_id sample_req = ''a''" "num_tokens sample_req = 3" "block_hashes sample_req = [[5]]" "num_computed_tokens sample_req = 0"
  by (simp_all add: sample_req_def num_tokens_def) (simp add: sample_request_def sample_engine_request_def sample_sampling_def
      Request_init_def new_Request_def Request_max_tokens_def length_from_prompt_token_ids_or_embeds_def)

lemma sample_slots [simp]:
  "slot_tokens sample_kvm sample_req 3 0 0 = 3" "cache_tokens sample_req 3 0 = 3" "required sample_mgr 3 = 2" "toks 3 0 sample_mgr = 3"
  by (simp_all add: slot_tokens_def cache_tokens_def required_def mgr_num_tokens_def cdiv_def toks_def)

lemma sample_may: "may_allocate sample_kvm sample_req (given_blocks sample_kvm None) 3 0 3 False"
  using may_allocate_new[of sample_kvm sample_req 3 0 False 3] sample_kvm_ok sample_pool_inv(4)
  by (simp add: given_blocks_def kvm_ok_def)

section \<open>Properties\<close>

text \<open>
  C5: in every state that a KV cache manager reaches through any sequence of its operations, the
  reference count of each block except the null block is the number of its entries in the block tables of all groups
  and requests; the free list holds each unreferenced block once and no other; a table holds a block at most once; and
  with prefix caching only blocks with a hash are shared between tables.
\<close>

theorem kvm_reachable_invariant:
  assumes "kvm_reachable k"
  shows "\<exists>free. get_num_free_blocks (kvm_pool k) = int (length free) \<and> distinct free \<and>
    set free = {b \<in> pool_blocks (kvm_pool k). b \<noteq> Blk 0 \<and> held (managers k) b = 0} \<and>
    (\<forall>b \<in> pool_blocks (kvm_pool k). b \<noteq> Blk 0 \<longrightarrow> rc (kvm_pool k) b = held (managers k) b) \<and>
    (\<forall>m \<in> set (managers k). \<forall>rid. set (table m rid) \<subseteq> pool_blocks (kvm_pool k) \<and>
       distinct (filter (\<lambda>b. b \<noteq> Blk 0) (table m rid))) \<and>
    (kvm_enable_caching k \<longrightarrow> (\<forall>b \<in> pool_blocks (kvm_pool k). b \<noteq> Blk 0 \<and> 1 < held (managers k) b \<longrightarrow> bh (kvm_pool k) b \<noteq> None))"
proof -
  obtain free where ok: "kvm_ok k free" using kvm_reachable_ok[OF assms] by blast
  then have kv: "kv_ok (managers k) (kvm_pool k) free []" and ec: "enable_caching (kvm_pool k) = kvm_enable_caching k"
    by (auto simp: kvm_ok_def kvm_config_def)
  note inv = kv_okD(1)[OF kv] and pinv = kv_okD(2)[OF kv]
  have h: "rc (kvm_pool k) b = held (managers k) b" if "b \<in> pool_blocks (kvm_pool k)" "b \<noteq> Blk 0" for b
    using kv_invD(3)[OF inv that] by simp
  have "set free = {b \<in> pool_blocks (kvm_pool k). b \<noteq> Blk 0 \<and> held (managers k) b = 0}" using pool_invD(2)[OF pinv] h by auto
  moreover have "bh (kvm_pool k) b \<noteq> None"
    if "kvm_enable_caching k" "b \<in> pool_blocks (kvm_pool k)" "b \<noteq> Blk 0" "1 < held (managers k) b" for b
    using cache_okD(2)[OF kv_okD(3)[OF kv], of b] that ec h by fastforce
  moreover have "\<forall>m \<in> set (managers k). \<forall>rid. set (table m rid) \<subseteq> pool_blocks (kvm_pool k) \<and>
       distinct (filter (\<lambda>b. b \<noteq> Blk 0) (table m rid))" using mgr_okD(5,6)[OF kv_invD(2)[OF inv]] by blast
  ultimately show ?thesis using h pool_inv_num_free[OF pinv] fq_repr_distinct[OF pool_invD(1)[OF pinv]]
    by (intro exI[of _ free]) blast
qed

theorem kvm_reachable_invariant_witness:
  "kvm_reachable sample_kvm \<and> (\<exists>free. get_num_free_blocks sample_pool = int (length free) \<and> distinct free \<and>
     set free = {b \<in> pool_blocks sample_pool. b \<noteq> Blk 0 \<and> held [sample_mgr] b = 0})"
  using kvm_reachable_invariant[OF sample_reachable] sample_reachable unfolding sample_sel by blast

text \<open>
  C1: slot allocation. Let \<open>d\<close> be the blocks released because the attention of the request skips them, and the available
  blocks the free ones that are not computed blocks of the request. If the groups together lack more blocks than are
  available, the call returns \<open>None\<close> and only releases \<open>d\<close>. Otherwise it never fails: it
  returns new blocks taken from the front of the available ones, each group gets exactly the blocks it lacks
  behind the old and the computed ones, no other request is affected, and the full blocks up to the
  finalized tokens are cached under their hashes.
\<close>

theorem allocate_slots_correct:
  fixes k r ncb nn nnc la
  defines "nt \<equiv> slot_tokens k r nn nnc la" and "rid \<equiv> request_id r" and "ms \<equiv> managers k"
    and "bss \<equiv> kv_blocks (given_blocks k ncb)"
  assumes "kvm_ok k free" "nn \<noteq> 0" "may_allocate k r (given_blocks k ncb) nt enc (cache_tokens r nn nnc) delay"
  shows "\<exists>d. let av = avail bss (free @ d); q = (\<lambda>i. lack rid nt enc (bss ! i) (ms ! i)) in
    if int (length av) < (\<Sum>i<length ms. q i)
    then \<exists>k'. allocate_slots r nn nnc ncb la delay enc k = Inr (None, k') \<and> kvm_ok k' (free @ d) \<and>
      (\<forall>i<length ms. skip_rel rid (ms ! i) (managers k' ! i))
    else \<exists>k' news. allocate_slots r nn nnc ncb la delay enc k = Inr (Some (create_kv_cache_blocks k news), k') \<and>
      concat news = take (\<Sum>i<length ms. nat (q i)) av \<and> kvm_ok k' (drop (\<Sum>i<length ms. nat (q i)) av) \<and>
      granted ms rid bss nt enc news (managers k') \<and>
      (kvm_enable_caching k \<and> \<not> delay \<longrightarrow> newly_cached k r bss (cache_tokens r nn nnc) k')"
proof -
  note spec = allocate_slots_spec[OF assms(5,6), of r ncb nnc la enc delay, folded given_blocks_def slot_tokens_def cache_tokens_def]
  from spec[OF assms(7)[unfolded nt_def]] obtain d where
    d: "let bss = kv_blocks (given_blocks k ncb); av = avail bss (free @ d); n = length (managers k);
        q = (\<lambda>i. lack (request_id r) (slot_tokens k r nn nnc la) enc (bss ! i) (managers k ! i)) in
      if int (length av) < (\<Sum>i<n. q i)
      then \<exists>k'. allocate_slots r nn nnc ncb la delay enc k = Inr (None, k') \<and> kvm_ok k' (free @ d) \<and>
        (\<forall>i<n. skip_rel (request_id r) (managers k ! i) (managers k' ! i)) \<and> (\<exists>ms' p'. k' = with_state k ms' p' \<and> pool_frame (kvm_pool k) p')
      else \<exists>k' news. allocate_slots r nn nnc ncb la delay enc k = Inr (Some (create_kv_cache_blocks k news), k') \<and>
        concat news = take (\<Sum>i<n. nat (q i)) av \<and> kvm_ok k' (drop (\<Sum>i<n. nat (q i)) av) \<and>
        granted (managers k) (request_id r) bss (slot_tokens k r nn nnc la) enc news (managers k') \<and>
        (kvm_enable_caching k \<and> \<not> delay \<longrightarrow> newly_cached k r bss (cache_tokens r nn nnc) k') \<and>
        (\<exists>ms' p'. k' = with_state k ms' p' \<and> pool_frame (kvm_pool k) p')" ..
  show ?thesis
  proof (cases "int (length (avail bss (free @ d))) < (\<Sum>i<length ms. lack rid nt enc (bss ! i) (ms ! i))")
    case True
    then show ?thesis using d unfolding nt_def rid_def ms_def bss_def Let_def by (intro exI[of _ d]) auto
  next
    case False
    then show ?thesis using d unfolding nt_def rid_def ms_def bss_def Let_def by (intro exI[of _ d]) auto
  qed
qed

theorem allocate_slots_correct_witness:
  "\<exists>k' news. allocate_slots sample_req 3 0 None 0 False 0 sample_kvm = Inr (Some (create_kv_cache_blocks sample_kvm news), k') \<and>
     concat news = [Blk 1, Blk 2] \<and> newly_cached sample_kvm sample_req [[]] 3 k'"
  using allocate_slots_correct[OF sample_kvm_ok, of 3 sample_req None 0 0 0 False] sample_may
  by (auto simp: given_blocks_def Let_def lack_def avail_def eval_nat_numeral)

text \<open>
  C13: releasing a request never fails, keeps the invariant, removes its tables in every group and no
  other, and appends the blocks it held alone to the free list; cached hashes survive, so the blocks
  can be hit again.
\<close>

theorem kvm_free_correct:
  assumes "kvm_ok k free"
  shows "\<exists>k' d. kvm_free r k = Inr k' \<and> kvm_ok k' (free @ d) \<and> bh (kvm_pool k') = bh (kvm_pool k) \<and>
    length (managers k') = length (managers k) \<and>
    (\<forall>i<length (managers k). \<forall>q. table (managers k' ! i) q = (if q = request_id r then [] else table (managers k ! i) q))"
proof -
  obtain k' d where "kvm_free r k = Inr k'" "kvm_ok k' (free @ d)" "bh (kvm_pool k') = bh (kvm_pool k)"
    "length (managers k') = length (managers k)"
    "\<forall>i<length (managers k). released (request_id r) (managers k ! i) (managers k' ! i)"
    using kvm_free_spec[OF assms, of r] by blast
  then show ?thesis using released_table by (intro exI[of _ k'] exI[of _ d]) simp
qed

theorem kvm_free_correct_witness:
  "\<exists>k' d. kvm_free sample_req sample_kvm = Inr k' \<and> kvm_ok k' ([Blk 1, Blk 2, Blk 3] @ d)"
  using kvm_free_correct[OF sample_kvm_ok, of sample_req] by blast

text \<open>
  C8: progress. Whatever the state of the cache, a request that fits into the empty cache is granted its
  slots once the requests that hold blocks, and the request itself if it was preempted, have been
  released; neither the releases nor the allocation fail.
\<close>

theorem allocation_progress:
  assumes "kvm_reachable k" "\<forall>m \<in> set (managers k). \<forall>q. table m q \<noteq> [] \<longrightarrow> q \<in> request_id ` set rs" "r \<in> set rs"
    and "0 < nn" "0 \<le> la" "0 \<le> enc" "num_computed_tokens r = 0" "0 \<le> kvm_max_model_len k"
    and "\<forall>m \<in> set (managers k). window_ok m"
    and "kvm_enable_caching k \<and> \<not> delay \<longrightarrow> 0 \<le> num_tokens r \<and> num_tokens r \<le> kvm_max_model_len k \<and>
      min nn (num_tokens r) div hash_block_size (kvm_pool k) \<le> int (length (block_hashes r))"
    and "(\<Sum>m\<leftarrow>managers k. required m (toks (min (nn + la) (kvm_max_model_len k)) enc m)) \<le> num_gpu_blocks (kvm_pool k) - 1"
  shows "\<exists>k1 k2 bs. free_all_requests rs k = Inr k1 \<and> allocate_slots r nn 0 None la delay enc k1 = Inr (Some bs, k2)"
proof -
  obtain free where ok: "kvm_ok k free" using kvm_reachable_ok[OF assms(1)] by blast
  obtain k1 f1 where k1: "free_all_requests rs k = Inr k1" "kvm_ok k1 f1" "int (length f1) = num_gpu_blocks (kvm_pool k) - 1"
    "kvm_max_model_len k1 = kvm_max_model_len k" "kvm_enable_caching k1 = kvm_enable_caching k"
    "hash_block_size (kvm_pool k1) = hash_block_size (kvm_pool k)" "length (managers k1) = length (managers k)"
    "\<forall>i<length (managers k). same_mgr (managers k ! i) (managers k1 ! i)"
    "\<forall>i<length (managers k). \<forall>q. table (managers k1 ! i) q = []"
    "\<forall>i<length (managers k). \<forall>q \<in> request_id ` set rs. map_of (num_cached_block (managers k1 ! i)) q = None"
    using emptied[OF ok assms(2)] by (elim exE conjE) (rule that; assumption)
  let ?nt = "slot_tokens k1 r nn 0 la"
  have nt: "?nt = min (nn + la) (kvm_max_model_len k)" using assms(7) k1(4) by (simp add: slot_tokens_def)
  have cap: "cache_tokens r nn 0 = min nn (num_tokens r)" using assms(7) by (simp add: cache_tokens_def)
  have t: "\<forall>m \<in> set (managers k1). table m (request_id r) = [] \<and> map_of (num_cached_block m) (request_id r) = None"
    using k1(7,9) bspec[OF mp[OF spec[OF k1(10)]] imageI[OF assms(3)]] by (simp add: all_set_conv_all_nth)
  have may: "may_allocate k1 r (EmptyKVCacheBlocks (num_kv_cache_groups k1)) ?nt enc (cache_tokens r nn 0) delay"
  proof (rule may_allocate_new[OF _ t assms(7) _ assms(6)])
    show "kvm_config k1" using k1(2) by (simp add: kvm_ok_def)
    show "0 \<le> ?nt" unfolding nt using assms(4,5,8) by linarith
    show "\<forall>m \<in> set (managers k1). window_ok m"
      using assms(9) k1(7) window_ok_same[OF mp[OF spec[OF k1(8)]]] by (simp add: all_set_conv_all_nth)
    show "0 \<le> cache_tokens r nn 0 \<and> cache_tokens r nn 0 \<le> ?nt \<and>
        cache_tokens r nn 0 div hash_block_size (kvm_pool k1) \<le> int (length (block_hashes r))"
      if d: "kvm_enable_caching k1 \<and> \<not> delay"
    proof (intro conjI)
      have c: "0 \<le> num_tokens r" "num_tokens r \<le> kvm_max_model_len k"
        "min nn (num_tokens r) div hash_block_size (kvm_pool k) \<le> int (length (block_hashes r))"
        using assms(10) d k1(5) by simp_all
      show "0 \<le> cache_tokens r nn 0" "cache_tokens r nn 0 \<le> ?nt" unfolding nt cap using c(1,2) assms(4,5) by linarith+
      show "cache_tokens r nn 0 div hash_block_size (kvm_pool k1) \<le> int (length (block_hashes r))"
        unfolding cap k1(6) by (rule c(3))
    qed
  qed
  have fit: "(\<Sum>m\<leftarrow>managers k1. required m (toks ?nt enc m)) \<le> int (length f1)"
    unfolding required_all_same[OF k1(7,8)] k1(3) nt by (rule assms(11))
  have "\<exists>bs k2. allocate_slots r nn 0 None la delay enc k1 = Inr (Some bs, k2)"
    by (rule allocate_fresh[OF k1(2) may _ _ fit]) (use assms(4) t in auto)
  then show ?thesis using k1(1) by blast
qed

theorem allocation_progress_witness:
  "\<exists>k1 k2 bs. free_all_requests [sample_req] sample_kvm = Inr k1 \<and>
     allocate_slots sample_req 3 0 None 0 False 0 k1 = Inr (Some bs, k2)"
  by (rule allocation_progress[OF sample_reachable]) (simp_all add: sample_pool_inv)

text \<open>
  C14: a granted allocation leaves a state from which the caller may ask again. In a model without cross
  attention the request then holds, in every group, exactly the blocks for some number \<open>n\<close> of tokens that covers all tokens it asked
  for, and every other request that did so before still does. So the groups never disagree on how far a
  request reaches, which is what makes the count of missing blocks exact.
\<close>

theorem allocated_request_runs:
  assumes "kvm_ok k free" "nn \<noteq> 0"
    and "may_allocate k r (given_blocks k ncb) (slot_tokens k r nn nnc la) enc (cache_tokens r nn nnc) delay"
    and "allocate_slots r nn nnc ncb la delay enc k = Inr (Some bs, k')"
    and "\<forall>m \<in> set (managers k). mgr_class m \<noteq> CrossAttentionManager"
  shows "(\<exists>n\<ge>slot_tokens k r nn nnc la. running_request (managers k') (request_id r) n) \<and>
    (\<forall>q n. q \<noteq> request_id r \<longrightarrow> running_request (managers k) q n \<longrightarrow> running_request (managers k') q n)"
proof -
  obtain news where g: "granted (managers k) (request_id r) (kv_blocks (given_blocks k ncb)) (slot_tokens k r nn nnc la) enc news (managers k')"
    using allocate_slots_spec[OF assms(1,2), of r ncb nnc la enc delay] assms(3,4)
    unfolding given_blocks_def slot_tokens_def cache_tokens_def by (auto simp: Let_def split: if_splits)
  show ?thesis using granted_runs[OF assms(1,3) g assms(5)] granted_others[OF g] by blast
qed

theorem allocated_request_runs_witness:
  "\<exists>bs k'. allocate_slots sample_req 3 0 None 0 False 0 sample_kvm = Inr (Some bs, k') \<and>
     (\<exists>n. 3 \<le> n \<and> running_request (managers k') ''a'' n)"
proof -
  have "\<exists>bs k'. allocate_slots sample_req 3 0 None 0 False 0 sample_kvm = Inr (Some bs, k')"
    by (rule allocate_fresh[OF sample_kvm_ok]) (use sample_may in \<open>simp_all add: given_blocks_def\<close>)
  then obtain bs k' where a: "allocate_slots sample_req 3 0 None 0 False 0 sample_kvm = Inr (Some bs, k')" by blast
  then show ?thesis using allocated_request_runs[OF sample_kvm_ok _ _ a] sample_may by auto
qed

end
