(* ===== verification/KV_Lookup.thy ===== *)
theory KV_Lookup
  imports KV_Manager_Theorems
begin

text \<open>
  Prefix cache lookups of the KV cache manager of a model with one group: the composition of lookup,
  allocation and release.
\<close>

section \<open>Models with one group\<close>

text \<open>
  A manager whose coordinator was constructed for the single group of \<open>m\<close> with prefix caching, in a configuration that the
  lookup of that group accepts.
\<close>

definition unitary_ok :: "KVCacheManager \<Rightarrow> kv_manager \<Rightarrow> bool" where
  "unitary_ok k m \<longleftrightarrow> managers k = [m] \<and> kvm_enable_caching k \<and> kv_cache_group_id m = 0 \<and>
     coord_class (coordinator k) = UnitaryKVCacheCoordinator (kv_cache_spec m) (mgr_block_size m) \<and>
     mgr_block_size m = group_block_size (kv_cache_spec m) (coord_dcp (coordinator k)) (coord_pcp (coordinator k)) \<and>
     hash_block_size (kvm_pool k) = mgr_block_size m \<and> chunk_positive (kv_cache_spec m) \<and>
     lookup_supported (mgr_class m) (kv_cache_spec m) (coord_use_eagle (coordinator k)) (mgr_block_size m)
       (coord_dcp (coordinator k)) (coord_pcp (coordinator k)) \<and> (log_stats k \<longrightarrow> prefix_cache_stats k \<noteq> None)"

lemma create_blocks_one: "num_kv_cache_groups k = 1 \<Longrightarrow> kv_blocks (create_kv_cache_blocks k [c]) = [c]"
  by (simp add: create_kv_cache_blocks_def)

lemma computed_stats:
  assumes "log_stats k \<longrightarrow> prefix_cache_stats k \<noteq> None" "kvm_enable_caching k" "\<not> skip_reading_prefix_cache r"
    "coord_find_longest_cache_hit (coordinator k) (block_hashes r) (num_tokens r - 1) = Inr (c, n)"
  shows "\<exists>st. get_computed_blocks r k = Inr ((create_kv_cache_blocks k c, n), k\<lparr>prefix_cache_stats := st\<rparr>)"
proof (cases "log_stats k")
  case True
  then obtain st where "prefix_cache_stats k = Some st" using assms(1) by blast
  then show ?thesis using True assms(2-4) by (auto simp: get_computed_blocks_def create_kv_cache_blocks_def)
next
  case False
  have "k\<lparr>prefix_cache_stats := prefix_cache_stats k\<rparr> = k" by simp
  then show ?thesis using False assms(2-4)
    by (intro exI[of _ "prefix_cache_stats k"]) (simp add: get_computed_blocks_def)
qed

lemma unitary_lookup:
  assumes ok: "kvm_ok k free" and u: "unitary_ok k m" and n: "0 \<le> max_length"
    and h: "max_length div mgr_block_size m \<le> int (length hs)"
  shows "\<exists>c. coord_find_longest_cache_hit (coordinator k) hs max_length = Inr ([c], int (length c) * mgr_block_size m) \<and>
    int (length c) * mgr_block_size m \<le> max_length \<and>
    mat (kvm_pool k) [0] hs (length c) (\<lambda>i. chunk_aligned (kv_cache_spec m) \<and> needed_block (kv_cache_spec m) (mgr_block_size m) (length c) i) [c]"
proof -
  let ?co = "coordinator k" and ?p = "kvm_pool k" and ?b = "mgr_block_size m"
  have kv: "kv_ok [m] ?p free []" using ok u by (simp add: kvm_ok_def unitary_ok_def)
  have pos: "0 < ?b" using mgr_okD(1)[OF kv_invD(2)[OF kv_okD(1)[OF kv]]] by simp
  have g: "groups_ok [0]" by (simp add: groups_ok_def)
  have u': "managers k = [m]" "coord_class ?co = UnitaryKVCacheCoordinator (kv_cache_spec m) ?b"
    "group_block_size (kv_cache_spec m) (coord_dcp ?co) (coord_pcp ?co) = ?b"
    "lookup_supported (mgr_class m) (kv_cache_spec m) (coord_use_eagle ?co) ?b (coord_dcp ?co) (coord_pcp ?co)" "chunk_positive (kv_cache_spec m)"
    using u by (auto simp: unitary_ok_def)
  have e: "nat (max_length div ?b) \<le> length hs" using h by linarith
  obtain c' j where c: "find_longest_cache_hit (mgr_class m) hs max_length [0] ?p (kv_cache_spec m) (coord_use_eagle ?co) ?b
      (coord_dcp ?co) (coord_pcp ?co) = Inr c'" "int j * ?b \<le> max_length" "mat ?p [0] hs j (\<lambda>i. chunk_aligned (kv_cache_spec m) \<and> needed_block (kv_cache_spec m) ?b j i) c'"
    using cache_hit_spec[OF kv_okD(2)[OF kv] g u'(4,5), unfolded u'(3), OF pos pos n e] by (elim exE conjE) (rule that; assumption)
  obtain c where cc: "c' = [c]" "length c = j" using c(3) by (auto simp: mat_def length_Suc_conv)
  have "coord_find_longest_cache_hit ?co hs max_length = Inr ([c], int (length c) * ?b)"
    using c(1) cc u'(1,2) by (simp add: coord_find_longest_cache_hit_def unitary_find_longest_cache_hit_def at_group_def first_group_def)
  then show ?thesis using c(2,3) cc by (intro exI[of _ c]) simp
qed

lemma distinct_nonnull:
  assumes "\<And>i j. i < length c \<Longrightarrow> j < length c \<Longrightarrow> c ! i = c ! j \<Longrightarrow> c ! i \<noteq> z \<Longrightarrow> i = j"
  shows "distinct (filter (\<lambda>b. b \<noteq> z) c)"
  using assms
proof (induction c)
  case (Cons a c)
  have "distinct (filter (\<lambda>b. b \<noteq> z) c)"
    by (rule Cons.IH) (use Cons.prems[of "Suc _" "Suc _"] in auto)
  moreover have "a \<notin> set c" if "a \<noteq> z"
    using Cons.prems[of 0 "Suc _"] that by (auto simp: in_set_conv_nth)
  ultimately show ?case by auto
qed simp

lemma mat_hits_valid:
  assumes m: "mat p [0] hs (length c) P [c]" and d: "distinct hs" "length c \<le> length hs" and inv: "pool_inv p free"
  shows "hits_valid p [c]"
proof -
  have e: "c ! i = Blk 0 \<or> (c ! i \<in> pool_blocks p \<and> bh p (c ! i) = Some (gkey 0 (hs ! i)))" if "i < length c" for i
    using m that by (auto simp: mat_def good_def)
  have "b \<in> pool_blocks p \<and> (b \<noteq> Blk 0 \<longrightarrow> bh p b \<noteq> None)" if b: "b \<in> set c" for b
  proof -
    obtain i where "i < length c" "b = c ! i" using b by (auto simp: in_set_conv_nth)
    then show ?thesis using e[of i] pool_shape_null[OF pool_invD(7)[OF inv]] by auto
  qed
  moreover have "distinct (filter (\<lambda>b. b \<noteq> Blk 0) c)"
  proof -
    have "i = j" if "i < length c" "j < length c" "c ! i = c ! j" "c ! i \<noteq> Blk 0" for i j
      using e[OF that(1)] e[OF that(2)] that gkey_inj[of 0 0 "hs ! i" "hs ! j"] d nth_eq_iff_index_eq[OF d(1), of i j] by auto
    then show ?thesis by (rule distinct_nonnull)
  qed
  ultimately show ?thesis by (auto simp: hits_valid_def)
qed

text \<open>The state of a new request before its first allocation.\<close>

definition fresh_request :: "KVCacheManager \<Rightarrow> kv_manager \<Rightarrow> Request \<Rightarrow> bool" where
  "fresh_request k m r \<longleftrightarrow> table m (request_id r) = [] \<and> map_of (num_cached_block m) (request_id r) = None \<and>
     num_computed_tokens r = 0 \<and> 1 \<le> num_tokens r \<and> num_tokens r \<le> kvm_max_model_len k \<and> distinct (block_hashes r) \<and>
     num_tokens r div mgr_block_size m = int (length (block_hashes r)) \<and> \<not> skip_reading_prefix_cache r \<and> window_ok m"

lemma lookup_may_allocate:
  assumes ok: "kvm_ok k free" and u: "unitary_ok k m" and r: "fresh_request k m r"
    and n: "0 < nn" "0 \<le> la" "0 \<le> enc"
  shows "\<exists>c st. get_computed_blocks r k =
      Inr ((create_kv_cache_blocks k [c], int (length c) * mgr_block_size m), k\<lparr>prefix_cache_stats := st\<rparr>) \<and>
    int (length c) * mgr_block_size m \<le> num_tokens r - 1 \<and>
    mat (kvm_pool k) [0] (block_hashes r) (length c)
      (\<lambda>i. chunk_aligned (kv_cache_spec m) \<and> needed_block (kv_cache_spec m) (mgr_block_size m) (length c) i) [c] \<and>
    (int (length c) * mgr_block_size m + nn \<le> num_tokens r \<longrightarrow>
     may_allocate k r (create_kv_cache_blocks k [c]) (slot_tokens k r nn (int (length c) * mgr_block_size m) la) enc
       (cache_tokens r nn (int (length c) * mgr_block_size m)) delay)"
proof -
  let ?b = "mgr_block_size m" and ?hs = "block_hashes r"
  have kv: "kv_ok [m] (kvm_pool k) free []" and cf: "kvm_config k" using ok u by (auto simp: kvm_ok_def unitary_ok_def)
  have pos: "0 < ?b" using mgr_okD(1)[OF kv_invD(2)[OF kv_okD(1)[OF kv]]] by simp
  have f: "num_computed_tokens r = 0" "1 \<le> num_tokens r" "num_tokens r \<le> kvm_max_model_len k" "distinct ?hs"
    "num_tokens r div ?b = int (length ?hs)" "\<not> skip_reading_prefix_cache r" "window_ok m"
    "table m (request_id r) = []" "map_of (num_cached_block m) (request_id r) = None"
    using r by (auto simp: fresh_request_def)
  have one: "managers k = [m]" "num_kv_cache_groups k = 1" "kvm_enable_caching k" "hash_block_size (kvm_pool k) = ?b"
    "mgr_class m \<noteq> CrossAttentionManager" "spec_ok m"
    using u cf by (auto simp: unitary_ok_def kvm_config_def)
  have "(num_tokens r - 1) div ?b \<le> num_tokens r div ?b" using pos by (intro zdiv_mono1) auto
  then have h: "(num_tokens r - 1) div ?b \<le> int (length ?hs)" using f(5) by linarith
  obtain c where c: "coord_find_longest_cache_hit (coordinator k) ?hs (num_tokens r - 1) = Inr ([c], int (length c) * ?b)"
    "int (length c) * ?b \<le> num_tokens r - 1" "mat (kvm_pool k) [0] ?hs (length c) (\<lambda>i. chunk_aligned (kv_cache_spec m) \<and> needed_block (kv_cache_spec m) ?b (length c) i) [c]"
    using unitary_lookup[OF ok u _ h] f(2) by auto
  obtain st where st: "get_computed_blocks r k = Inr ((create_kv_cache_blocks k [c], int (length c) * ?b), k\<lparr>prefix_cache_stats := st\<rparr>)"
    using computed_stats[OF _ one(3) f(6) c(1)] u by (auto simp: unitary_ok_def)
  have "int (length c) \<le> (num_tokens r - 1) div ?b" using c(2) pos by (simp add: int_le_div_iff)
  then have hv: "hits_valid (kvm_pool k) [c]" using mat_hits_valid[OF c(3) f(4) _ kv_okD(2)[OF kv]] h by simp
  have "may_allocate k r (create_kv_cache_blocks k [c]) (slot_tokens k r nn (int (length c) * ?b) la) enc
      (cache_tokens r nn (int (length c) * ?b)) delay" if w: "int (length c) * ?b + nn \<le> num_tokens r"
  proof -
    have nt: "int (length c) * ?b \<le> slot_tokens k r nn (int (length c) * ?b) la"
      "int (length c) * ?b + nn \<le> slot_tokens k r nn (int (length c) * ?b) la"
      unfolding slot_tokens_def f(1) using w n f(3) by auto
    have cap: "cache_tokens r nn (int (length c) * ?b) = int (length c) * ?b + nn" using w by (simp add: cache_tokens_def f(1))
    have nn: "0 \<le> int (length c) * ?b + nn" using pos n(1) by simp
    have cov: "(int (length c) * ?b + nn) div ?b \<le> int (length ?hs)" using zdiv_mono1[OF w pos] f(5) by linarith
    have "new_request (managers k) (request_id r) [c] (slot_tokens k r nn (int (length c) * ?b) la)"
      using nt(1) f(8,9) one(1) by (simp add: new_request_def)
    then show ?thesis
      using hv one n(3) nn nt(2) cov skip_ok_new[OF one(6) f(7), of True "request_id r"]
      by (auto simp: may_allocate_def create_blocks_one[OF one(2)] hits_ok_def f(1) cap)
  qed
  then show ?thesis using st c(2,3) by blast
qed

text \<open>
  C6: lookup and allocation compose. For a new request of a model with one group, the blocks and the number of
  tokens that \<open>get_computed_blocks\<close> returns leave at least one token to compute and are what \<open>allocate_slots\<close>
  requires: the allocation with them never fails, keeps the invariant, and if it is granted the table of
  the request starts with the blocks that were found.
\<close>

theorem lookup_then_allocate:
  assumes "kvm_ok k free" "unitary_ok k m" "fresh_request k m r" "0 < nn" "0 \<le> la" "0 \<le> enc"
  shows "\<exists>c k1. get_computed_blocks r k = Inr ((create_kv_cache_blocks k [c], int (length c) * mgr_block_size m), k1) \<and>
    int (length c) * mgr_block_size m < num_tokens r \<and>
    (int (length c) * mgr_block_size m + nn \<le> num_tokens r \<longrightarrow>
     (\<exists>res k2 free2. allocate_slots r nn (int (length c) * mgr_block_size m) (Some (create_kv_cache_blocks k [c])) la delay enc k1 =
        Inr (res, k2) \<and> kvm_ok k2 free2 \<and>
        (res \<noteq> None \<longrightarrow> (\<exists>new. table (managers k2 ! 0) (request_id r) = c @ new))))"
proof -
  let ?n = "\<lambda>c. int (length c) * mgr_block_size m"
  obtain c st where c: "get_computed_blocks r k = Inr ((create_kv_cache_blocks k [c], ?n c), k\<lparr>prefix_cache_stats := st\<rparr>)"
    "?n c \<le> num_tokens r - 1" "?n c + nn \<le> num_tokens r \<longrightarrow>
     may_allocate k r (create_kv_cache_blocks k [c]) (slot_tokens k r nn (?n c) la) enc (cache_tokens r nn (?n c)) delay"
    using lookup_may_allocate[OF assms] by blast
  let ?k = "k\<lparr>prefix_cache_stats := st\<rparr>" and ?nc = "create_kv_cache_blocks k [c]"
  have one: "managers ?k = [m]" "num_kv_cache_groups k = 1" "table m (request_id r) = []"
    using assms(1-3) by (auto simp: kvm_ok_def kvm_config_def unitary_ok_def fresh_request_def)
  have "\<exists>res k2 free2. allocate_slots r nn (?n c) (Some ?nc) la delay enc ?k = Inr (res, k2) \<and> kvm_ok k2 free2 \<and>
      (res \<noteq> None \<longrightarrow> (\<exists>new. table (managers k2 ! 0) (request_id r) = c @ new))" if "?n c + nn \<le> num_tokens r"
  proof -
    have may: "may_allocate ?k r ?nc (slot_tokens k r nn (?n c) la) enc (cache_tokens r nn (?n c)) delay"
      using c(3) that by (simp add: may_allocate_def)
    have g: "\<exists>new. table (ms' ! 0) (request_id r) = c @ new" if "granted [m] (request_id r) [c] nt enc news ms'" for nt news ms'
      using that one(3) by (auto simp: granted_def nulled_def)
    show ?thesis using allocate_slots_spec[of ?k free nn r "Some ?nc" "?n c" la enc delay] assms(1,4) may one g
      by (auto simp: slot_tokens_def cache_tokens_def Let_def create_blocks_one split: if_splits)
  qed
  then show ?thesis using c(1,2) by (intro exI[of _ c] exI[of _ ?k]) auto
qed

lemma sample_unitary: "unitary_ok sample_kvm sample_mgr"
  using sample_pool_inv(4)
  by (simp add: unitary_ok_def) (simp add: sample_kvm_def sample_mgr_def SingleTypeKVCacheManager_init_def)

lemma sample_fresh: "fresh_request sample_kvm sample_mgr sample_req"
  by (simp add: fresh_request_def) (simp add: sample_req_def sample_request_def sample_engine_request_def sample_sampling_def
      Request_init_def new_Request_def Request_max_tokens_def length_from_prompt_token_ids_or_embeds_def
      get_skip_reading_prefix_cache_def)

theorem lookup_then_allocate_witness:
  "\<exists>c k1. get_computed_blocks sample_req sample_kvm = Inr ((create_kv_cache_blocks sample_kvm [c], int (length c) * 2), k1) \<and>
     int (length c) * 2 < 3"
  using lookup_then_allocate[OF sample_kvm_ok sample_unitary sample_fresh, of 1 0 0 False] by auto

text \<open>Cached leading hashes are hits.\<close>

lemma hit_length_ge:
  assumes "\<And>j. j < n \<Longrightarrow> j < length hs \<Longrightarrow> hit p gs (hs ! j)"
  shows "min n (length hs) \<le> hit_length p gs hs"
proof -
  have "takeWhile (hit p gs) (take n hs @ drop n hs) = take n hs @ takeWhile (hit p gs) (drop n hs)"
    using assms by (intro takeWhile_append2) (auto simp: in_set_conv_nth)
  then have "takeWhile (hit p gs) hs = take n hs @ takeWhile (hit p gs) (drop n hs)" by simp
  then show ?thesis by (simp add: hit_length_def min.commute)
qed

lemma unitary_full_lookup:
  assumes ok: "kvm_ok k free" and u: "unitary_ok k m" "mgr_class m = FullAttentionManager" "\<not> coord_use_eagle (coordinator k)"
    and ml: "0 \<le> max_length"
    and hit: "\<And>j. j < n \<Longrightarrow> j < length hs \<Longrightarrow> hit (kvm_pool k) [0] (hs ! j)"
  shows "\<exists>c. coord_find_longest_cache_hit (coordinator k) hs max_length = Inr ([c], int (length c) * mgr_block_size m) \<and>
    int (length c) * mgr_block_size m \<le> max_length \<and> mat (kvm_pool k) [0] hs (length c) (\<lambda>_. True) [c] \<and>
    min n (min (nat (max_length div mgr_block_size m)) (length hs)) \<le> length c"
proof -
  let ?co = "coordinator k" and ?p = "kvm_pool k" and ?b = "mgr_block_size m" and ?M = "nat (max_length div mgr_block_size m)"
  have kv: "kv_ok [m] ?p free []" using ok u(1) by (simp add: kvm_ok_def unitary_ok_def)
  have pos: "0 < ?b" using mgr_okD(1)[OF kv_invD(2)[OF kv_okD(1)[OF kv]]] by simp
  have g: "groups_ok [0]" by (simp add: groups_ok_def)
  have u': "managers k = [m]" "coord_class ?co = UnitaryKVCacheCoordinator (kv_cache_spec m) ?b"
    "group_block_size (kv_cache_spec m) (coord_dcp ?co) (coord_pcp ?co) = ?b" "full_spec_ok (kv_cache_spec m)"
    using u by (auto simp: unitary_ok_def)
  obtain c' j where c: "full_find_longest_cache_hit hs max_length [0] ?p (kv_cache_spec m) (coord_use_eagle ?co) ?b
      (coord_dcp ?co) (coord_pcp ?co) = Inr c'" "mat ?p [0] hs j (\<lambda>_. True) c'"
    "j \<le> hit_length ?p [0] (take ?M hs) - (if coord_use_eagle ?co then 1 else 0)"
    "\<forall>k'. j < k' \<and> k' \<le> hit_length ?p [0] (take ?M hs) - (if coord_use_eagle ?co then 1 else 0) \<longrightarrow> (int k' * ?b) mod ?b \<noteq> 0"
    using full_hit_spec[where dcp = "coord_dcp ?co" and pcp = "coord_pcp ?co" and hs = hs and use_eagle = "coord_use_eagle ?co",
        OF kv_okD(2)[OF kv] g u'(4), unfolded u'(3), OF pos pos ml]
    by (elim exE conjE) (rule that; assumption)
  let ?l = "hit_length ?p [0] (take ?M hs)"
  have "?l \<le> j"
  proof (rule ccontr)
    assume "\<not> ?l \<le> j"
    then have "(int ?l * ?b) mod ?b \<noteq> 0" using spec[OF c(4), of ?l] u(3) by (simp del: mod_mult_self2_is_0)
    then show False by simp
  qed
  moreover have "min n (length (take ?M hs)) \<le> ?l" by (rule hit_length_ge) (use hit in simp)
  moreover have "length (take ?M hs) = min ?M (length hs)" by (simp add: min.commute)
  ultimately have le: "min n (min ?M (length hs)) \<le> j" by linarith
  obtain x where cc: "c' = [x]" "length x = j" using c(2) by (auto simp: mat_def length_Suc_conv)
  have "coord_find_longest_cache_hit ?co hs max_length = Inr ([x], int (length x) * ?b)"
    using c(1) cc u'(1,2) u(2) by (simp add: coord_find_longest_cache_hit_def unitary_find_longest_cache_hit_def at_group_def first_group_def)
  moreover have "int j * ?b \<le> max_length"
  proof -
    have "j \<le> ?M" using c(3) hit_length_take[of ?p "[0]" ?M hs] by linarith
    then have "int j \<le> max_length div ?b" using pos ml by (simp add: le_nat_iff pos_imp_zdiv_nonneg_iff)
    then show ?thesis using pos int_blocks_le by blast
  qed
  moreover have "mat ?p [0] hs (length x) (\<lambda>_. True) [x]" using c(2) cc by simp
  ultimately show ?thesis using le cc by blast
qed

text \<open>Full blocks that an allocation cached are hits as long as the hashes of the pool are kept.\<close>

lemma newly_cached_hit:
  assumes nc: "newly_cached k r [[]] cap k1" and u: "unitary_ok k m" "n_cached m (request_id r) = 0"
    and g: "granted [m] (request_id r) [[]] nt enc news (managers k1)" "mgr_class m \<noteq> CrossAttentionManager"
      "spec_ok m" "0 < mgr_block_size m" "0 < spec_block_size (kv_cache_spec m)" "cap \<le> nt"
    and ok: "kvm_ok k1 free1" and j: "int j < cap div mgr_block_size m" "j < length (block_hashes r)"
  shows "hit (kvm_pool k1) [0] (block_hashes r ! j)"
proof -
  let ?b = "mgr_block_size m" and ?t = "table (managers k1 ! 0) (request_id r)"
  have u': "managers k = [m]" "kv_cache_group_id m = 0" "hash_block_size (kvm_pool k) = ?b" using u(1) by (auto simp: unitary_ok_def)
  have h: "bh (kvm_pool k1) (?t ! j) = Some (gkey 0 (block_hashes r ! j))"
    using nc j(1) u(2) u' scaled_same[OF g(4)] by (simp add: newly_cached_def)
  have "cap \<le> int (length ?t) * ?b" using granted_covers[OF g(1), of 0] g(2-6) by simp
  then have "cap div ?b \<le> int (length ?t)" using g(4) by (metis nonzero_mult_div_cancel_right order_less_irrefl zdiv_mono1)
  then have l: "j < length ?t" using j(1) by linarith
  have kv: "kv_ok (managers k1) (kvm_pool k1) free1 []" using ok by (simp add: kvm_ok_def)
  have "managers k1 ! 0 \<in> set (managers k1)" using g(1) by (simp add: granted_def)
  then have "?t ! j \<in> pool_blocks (kvm_pool k1)"
    using mgr_okD(5)[OF kv_invD(2)[OF kv_okD(1)[OF kv]], of "managers k1 ! 0" "request_id r"] nth_mem[OF l] by blast
  then show ?thesis using h by (auto simp: hit_def)
qed

lemma allocate_slots_granted:
  assumes "kvm_ok k free" "nn \<noteq> 0"
    and "may_allocate k r (given_blocks k ncb) (slot_tokens k r nn nnc la) enc (cache_tokens r nn nnc) delay"
    and "allocate_slots r nn nnc ncb la delay enc k = Inr (Some bs, k')"
  shows "\<exists>f' news ms' p'. kvm_ok k' f' \<and>
    granted (managers k) (request_id r) (kv_blocks (given_blocks k ncb)) (slot_tokens k r nn nnc la) enc news (managers k') \<and>
    (kvm_enable_caching k \<and> \<not> delay \<longrightarrow> newly_cached k r (kv_blocks (given_blocks k ncb)) (cache_tokens r nn nnc) k') \<and>
    k' = with_state k ms' p' \<and> pool_frame (kvm_pool k) p'"
proof -
  note sp = allocate_slots_spec[OF assms(1,2), of r ncb nnc la enc delay, folded given_blocks_def slot_tokens_def cache_tokens_def, OF assms(3)]
  show ?thesis using sp unfolding Let_def assms(4) by (elim exE) (simp split: if_split_asm, blast)
qed

lemma fresh_granted:
  assumes ok: "kvm_ok k free" and u: "unitary_ok k m" and f: "fresh_request k m r" and n: "0 < nn" "nn \<le> num_tokens r" "0 \<le> la" "0 \<le> enc"
    and a: "allocate_slots r nn 0 None la False enc k = Inr (Some bs, k1)"
  shows "\<exists>f1 news ms' p'. kvm_ok k1 f1 \<and> granted [m] (request_id r) [[]] (slot_tokens k r nn 0 la) enc news (managers k1) \<and>
    newly_cached k r [[]] nn k1 \<and> k1 = with_state k ms' p' \<and> pool_frame (kvm_pool k) p' \<and> nn \<le> slot_tokens k r nn 0 la"
proof -
  have one: "managers k = [m]" "num_kv_cache_groups k = 1" "kvm_enable_caching k" "hash_block_size (kvm_pool k) = mgr_block_size m"
    and cf: "kvm_config k" using ok u by (auto simp: kvm_ok_def kvm_config_def unitary_ok_def)
  have kv: "kv_ok [m] (kvm_pool k) free []" using ok one by (simp add: kvm_ok_def)
  have pos: "0 < mgr_block_size m" using mgr_okD(1)[OF kv_invD(2)[OF kv_okD(1)[OF kv]]] by simp
  have f': "num_computed_tokens r = 0" "num_tokens r \<le> kvm_max_model_len k" "num_tokens r div mgr_block_size m = int (length (block_hashes r))"
    "window_ok m" "table m (request_id r) = []" "map_of (num_cached_block m) (request_id r) = None"
    using f by (auto simp: fresh_request_def)
  have cap: "cache_tokens r nn 0 = nn" using n(2) f'(1) by (simp add: cache_tokens_def)
  have nt: "nn \<le> slot_tokens k r nn 0 la" using n f'(1,2) by (simp add: slot_tokens_def)
  have cov: "nn div mgr_block_size m \<le> int (length (block_hashes r))" using zdiv_mono1[OF n(2) pos] f'(3) by simp
  have may: "may_allocate k r (EmptyKVCacheBlocks (num_kv_cache_groups k)) (slot_tokens k r nn 0 la) enc (cache_tokens r nn 0) False"
    by (rule may_allocate_new[OF cf]) (use one f' n nt cov in \<open>auto simp: cap\<close>)
  have nz: "nn \<noteq> 0" using n(1) by simp
  have e: "given_blocks k None = EmptyKVCacheBlocks (num_kv_cache_groups k)" "kv_blocks (given_blocks k None) = [[]]"
    using one(2) by (simp_all add: given_blocks_def)
  from allocate_slots_granted[OF ok nz may[folded e(1)] a] show ?thesis
    unfolding e(2) one(1) cap using one(3) nt by blast
qed

lemma hit_same: "pool_frame p p' \<Longrightarrow> bh p' = bh p \<Longrightarrow> hit p' gs h = hit p gs h"
  by (simp add: hit_def pool_frame_blocks)

lemma unitary_same:
  assumes "unitary_ok k m" "k' = with_state k [m'] p'" "same_mgr m m'" "pool_frame (kvm_pool k) p'"
  shows "unitary_ok k' m'"
  using assms by (auto simp: unitary_ok_def same_mgr_def pool_frame_def)

text \<open>
  C7: what is computed once is found again, in a model with one full attention group and without EAGLE. A new request gets
  slots for \<open>nn\<close> tokens and is released afterwards; then a lookup for a request with the same hashes over the full blocks of
  these tokens returns a block for each of them, up to the last token of that request, which is always
  recomputed. Every block that is returned is a real block cached under the hash of the request at its position.
\<close>

theorem cached_prefix_found_again:
  fixes r r' k k1 k2
  assumes "kvm_ok k free" "unitary_ok k m" "mgr_class m = FullAttentionManager" "\<not> coord_use_eagle (coordinator k)"
    and "fresh_request k m r" "0 < nn" "nn \<le> num_tokens r" "0 \<le> la" "0 \<le> enc"
    and "allocate_slots r nn 0 None la False enc k = Inr (Some bs, k1)" "kvm_free r k1 = Inr k2"
    and "fresh_request k m r'" "take (nat (nn div mgr_block_size m)) (block_hashes r') = take (nat (nn div mgr_block_size m)) (block_hashes r)"
  shows "\<exists>c k3. get_computed_blocks r' k2 = Inr ((create_kv_cache_blocks k [c], int (length c) * mgr_block_size m), k3) \<and>
    min (nn div mgr_block_size m) ((num_tokens r' - 1) div mgr_block_size m) \<le> int (length c) \<and>
    int (length c) * mgr_block_size m < num_tokens r' \<and>
    (\<forall>j<length c. c ! j \<in> pool_blocks (kvm_pool k2) \<and> c ! j \<noteq> Blk 0 \<and>
       bh (kvm_pool k2) (c ! j) = Some (gkey 0 (block_hashes r' ! j)))"
proof -
  let ?b = "mgr_block_size m" and ?rid = "request_id r"
  obtain f1 news ms1 p1 where k1: "kvm_ok k1 f1" "granted [m] ?rid [[]] (slot_tokens k r nn 0 la) enc news (managers k1)"
    "newly_cached k r [[]] nn k1" "k1 = with_state k ms1 p1" "pool_frame (kvm_pool k) p1" "nn \<le> slot_tokens k r nn 0 la"
    using fresh_granted[OF assms(1,2,5-10)] by blast
  obtain f2 ms2 p2 where k2: "kvm_ok k2 f2" "length (managers k2) = length (managers k1)" "bh (kvm_pool k2) = bh (kvm_pool k1)"
    "pool_frame (kvm_pool k1) (kvm_pool k2)" "k2 = with_state k1 ms2 p2"
    "\<forall>i<length (managers k1). released ?rid (managers k1 ! i) (managers k2 ! i)"
    using kvm_free_spec[OF k1(1), of r] assms(11) by auto
  have l: "length (managers k1) = 1" using k1(2) by (simp add: granted_def)
  obtain m2 where m2: "ms2 = [m2]" using k2(2,5) l by (auto simp: length_Suc_conv)
  have "same_mgr m (managers k1 ! 0)" using k1(2) by (simp add: granted_def)
  moreover have "same_mgr (managers k1 ! 0) m2" using k2(5,6) l m2 by (auto simp: released_def)
  ultimately have same: "same_mgr m m2" by (rule same_mgr_trans)
  have eq: "k2 = with_state k [m2] p2" using k1(4) k2(5) m2 by simp
  have fr: "pool_frame (kvm_pool k) p2" using pool_frame_trans[OF k1(5)] k1(4) k2(4,5) by simp
  have u2: "unitary_ok k2 m2" by (rule unitary_same[OF assms(2) eq same fr])
  have sm: "mgr_class m2 = FullAttentionManager" "mgr_block_size m2 = ?b" "\<not> coord_use_eagle (coordinator k2)"
    using same assms(3,4) eq by (auto simp: same_mgr_def)
  have kv: "kv_ok [m] (kvm_pool k) free []" and m: "spec_ok m" "0 < spec_block_size (kv_cache_spec m)"
    using assms(1,2) by (auto simp: kvm_ok_def kvm_config_def unitary_ok_def)
  have pos: "0 < ?b" using mgr_okD(1)[OF kv_invD(2)[OF kv_okD(1)[OF kv]]] by simp
  have nc0: "n_cached m ?rid = 0" using assms(5) by (simp add: fresh_request_def n_cached_def)
  have f': "0 \<le> num_tokens r' - 1" "\<not> skip_reading_prefix_cache r'" "num_tokens r' div ?b = int (length (block_hashes r'))"
    using assms(12) by (auto simp: fresh_request_def)
  have hits: "hit (kvm_pool k2) [0] (block_hashes r' ! j)" if j: "j < nat (nn div ?b)" "j < length (block_hashes r')" for j
  proof -
    have e: "j < length (block_hashes r)" "block_hashes r' ! j = block_hashes r ! j"
      using arg_cong[OF assms(13), of length] arg_cong[OF assms(13), of "\<lambda>xs. xs ! j"] j by auto
    have "int j < nn div ?b" using j(1) by linarith
    then have "hit (kvm_pool k1) [0] (block_hashes r ! j)"
      using newly_cached_hit[OF k1(3) assms(2) nc0 k1(2) _ m(1) pos m(2) k1(6,1)] e(1) assms(3) by simp
    then show ?thesis using hit_same[OF k2(4,3)] e(2) by simp
  qed
  obtain c where c: "coord_find_longest_cache_hit (coordinator k2) (block_hashes r') (num_tokens r' - 1) = Inr ([c], int (length c) * ?b)"
    "int (length c) * ?b \<le> num_tokens r' - 1" "mat (kvm_pool k2) [0] (block_hashes r') (length c) (\<lambda>_. True) [c]"
    "min (nat (nn div ?b)) (min (nat ((num_tokens r' - 1) div ?b)) (length (block_hashes r'))) \<le> length c"
    using unitary_full_lookup[OF k2(1) u2 sm(1,3) f'(1) hits] unfolding sm(2) by blast
  have "(num_tokens r' - 1) div ?b \<le> int (length (block_hashes r'))"
    unfolding f'(3)[symmetric] using pos by (intro zdiv_mono1) auto
  then have le: "min (nn div ?b) ((num_tokens r' - 1) div ?b) \<le> int (length c)" using c(4) by linarith
  have "log_stats k2 \<longrightarrow> prefix_cache_stats k2 \<noteq> None" "kvm_enable_caching k2" using u2 by (auto simp: unitary_ok_def)
  from computed_stats[OF this f'(2) c(1)] obtain st where
    "get_computed_blocks r' k2 = Inr ((create_kv_cache_blocks k2 [c], int (length c) * ?b), k2\<lparr>prefix_cache_stats := st\<rparr>)" ..
  moreover have "create_kv_cache_blocks k2 [c] = create_kv_cache_blocks k [c]" using eq by (simp add: create_kv_cache_blocks_def)
  moreover have "\<forall>j<length c. c ! j \<in> pool_blocks (kvm_pool k2) \<and> c ! j \<noteq> Blk 0 \<and>
      bh (kvm_pool k2) (c ! j) = Some (gkey 0 (block_hashes r' ! j))" using c(3) by (auto simp: mat_def good_def)
  ultimately show ?thesis using le c(2) by (intro exI[of _ c] exI conjI) (assumption | simp)+
qed

theorem cached_prefix_found_again_witness:
  "\<exists>bs k1 k2 c k3. allocate_slots sample_req 3 0 None 0 False 0 sample_kvm = Inr (Some bs, k1) \<and> kvm_free sample_req k1 = Inr k2 \<and>
     get_computed_blocks sample_req k2 = Inr ((create_kv_cache_blocks sample_kvm [c], int (length c) * 2), k3) \<and>
     length c = 1 \<and> c ! 0 \<noteq> Blk 0 \<and> bh (kvm_pool k2) (c ! 0) = Some (gkey 0 [5])"
proof -
  have "\<exists>bs k1. allocate_slots sample_req 3 0 None 0 False 0 sample_kvm = Inr (Some bs, k1)"
    by (rule allocate_fresh[OF sample_kvm_ok]) (use sample_may in \<open>simp_all add: given_blocks_def\<close>)
  then obtain bs k1 where a: "allocate_slots sample_req 3 0 None 0 False 0 sample_kvm = Inr (Some bs, k1)" by blast
  obtain f1 where f1: "kvm_ok k1 f1"
    using fresh_granted[OF sample_kvm_ok sample_unitary sample_fresh, of 3 0 0 bs k1] a by auto
  obtain k2 where k2: "kvm_free sample_req k1 = Inr k2" using kvm_free_spec[OF f1, of sample_req] by blast
  have e: "\<not> coord_use_eagle (coordinator sample_kvm)" by (simp add: sample_kvm_def)
  obtain c k3 where c: "get_computed_blocks sample_req k2 = Inr ((create_kv_cache_blocks sample_kvm [c], int (length c) * 2), k3)"
    "1 \<le> length c" "int (length c) * 2 < 3" "\<forall>j<length c. c ! j \<noteq> Blk 0 \<and> bh (kvm_pool k2) (c ! j) = Some (gkey 0 ([[5]] ! j))"
    using cached_prefix_found_again[OF sample_kvm_ok sample_unitary _ e sample_fresh _ _ _ _ a k2 sample_fresh refl] by auto
  have "length c = 1" using c(2,3) by linarith
  then show ?thesis using a k2 c(1,4) by auto
qed

end
