(* ===== verification/Cross_Attention.thy ===== *)
theory Cross_Attention
  imports KV_Lookup
begin

text \<open>
  Models with cross attention: the count of missing blocks is not exact for a running request, since the
  scheduler passes the number of encoder tokens only at the first allocation.
\<close>

lemma skip_none: "mgr_class m = FullAttentionManager \<or> mgr_class m = CrossAttentionManager \<Longrightarrow>
    mgr_remove_skipped_blocks m p rid n = Inr (m, p)"
  by (auto simp: mgr_remove_skipped_blocks_def get_num_skipped_tokens_def)

lemma cross_overcommit:
  assumes ok: "kvm_ok k free" and ms: "managers k = [mf, mc]" "mgr_class mf = FullAttentionManager" "mgr_class mc = CrossAttentionManager"
    and nn: "nn \<noteq> 0"
    and l: "int (length free) < required mf (slot_tokens k r nn 0 la) - int (length (table mf (request_id r)))"
      "required mf (slot_tokens k r nn 0 la) - int (length (table mf (request_id r))) + required mc enc \<le>
         int (length free) + int (length (table mc (request_id r)))"
  shows "allocate_slots r nn 0 None la delay enc k = Inl ValueError"
proof -
  let ?p = "kvm_pool k" and ?rid = "request_id r" and ?nt = "slot_tokens k r nn 0 la" and ?bss = "[[], []]"
  have cf: "kvm_config k" and kv: "kv_ok [mf, mc] ?p free []" using ok ms(1) by (auto simp: kvm_ok_def)
  have sp: "\<forall>m \<in> set [mf, mc]. spec_ok m" and g: "num_kv_cache_groups k = 2" using cf ms(1) by (auto simp: kvm_config_def)
  have bss: "kv_blocks (EmptyKVCacheBlocks (num_kv_cache_groups k)) = ?bss" by (simp add: g numeral_2_eq_2)
  have s: "for_managers (group_skip ?rid (num_computed_tokens r)) 0 [mf, mc] ?p = Inr ([(), ()], [mf, mc], ?p)"
    using ms(2,3) by (simp add: group_skip_def skip_none)
  have h: "hits_ok [mf, mc] ?bss" by (auto simp: hits_ok_def nth_Cons split: nat.splits)
  obtain ks where ks: "for_managers (group_num_blocks ?rid ?nt ?bss enc) 0 [mf, mc] ?p = Inr (ks, map (dd_touch ?rid) [mf, mc], ?p)"
    "sum_list ks = lack ?rid ?nt enc [] mf + lack ?rid ?nt enc [] mc" "kv_ok (map (dd_touch ?rid) [mf, mc]) ?p free []"
    using count_all[OF kv sp h, of ?rid ?nt enc] by auto
  have "sum_list ks \<le> int (length free)" using l(2) ms(2,3) by (simp add: ks(2) lack_def toks_def)
  then have fits: "\<not> sum_list ks > get_num_free_blocks ?p" using pool_inv_num_free[OF kv_okD(2)[OF kv]] by simp
  have pos: "0 < mgr_block_size mf" using mgr_okD(1)[OF kv_invD(2)[OF kv_okD(1)[OF kv]], of mf] by simp
  have "get_new_blocks (required mf ?nt - int (length (table mf ?rid))) ?p = Inl ValueError"
    by (rule get_new_blocks_short[OF kv_okD(2)[OF kv]]) (use l(1) in simp)
  moreover have "spec_ok (dd_touch ?rid mf)" "required (dd_touch ?rid mf) ?nt = required mf ?nt"
    using spec_ok_same[OF same_mgr_simps(3)[of mf ?rid]] required_same[OF same_mgr_simps(3)[of mf ?rid]] sp by auto
  ultimately have "mgr_allocate_new_blocks (dd_touch ?rid mf) ?p ?rid ?nt = Inl ValueError"
    unfolding mgr_allocate_new_blocks_def using l(1) pos by (subst required_bind) (simp_all add: Let_def)
  then have a: "for_managers (group_allocate ?rid ?nt enc) 0 (map (dd_touch ?rid) [mf, mc]) ?p = Inl ValueError"
    using ms(2) by (simp add: group_allocate_def)
  have t: "touch ?bss ?p = Inr ?p" by (rule touch_nothing) simp
  let ?co = "(coordinator k)\<lparr>single_type_managers := map (dd_touch ?rid) [mf, mc], coord_pool := ?p\<rparr>"
  have c1: "coord_remove_skipped_blocks ?rid (num_computed_tokens r) (coordinator k) = Inr (coordinator k)"
    using coord_skip_eq[OF s[folded ms(1)]] by (simp add: ms(1)[symmetric])
  have c2: "coord_get_num_blocks_to_allocate ?rid ?nt ?bss enc (coordinator k) = Inr (sum_list ks, ?co)"
    by (rule coord_count_eq) (use ks(1) ms(1) in simp)
  have c3: "coord_allocate_new_blocks ?rid ?nt enc ?co = Inl ValueError"
    using a by (simp add: coord_allocate_new_blocks_def on_managers_def)
  have co: "?co\<lparr>coord_pool := ?p\<rparr> = ?co" by simp
  have nt: "min (num_computed_tokens r + 0 + nn + la) (kvm_max_model_len k) = ?nt" by (simp add: slot_tokens_def)
  show ?thesis
    unfolding allocate_slots_def Let_def option.case bss c1 res_bind_Inr nt c2 prod.case
    using nn fits t c3 by (cases "kvm_enable_caching k") (simp_all add: py_assert_def)
qed

section \<open>A concrete manager\<close>

text \<open>Two usable blocks of two tokens, a full attention group and a cross attention group, no prefix caching.\<close>

definition cross_spec :: KVCacheSpec where
  "cross_spec = CrossAttentionSpec \<lparr>as_block_size = 2, num_kv_heads = 1, head_size = 8, as_dtype = ''half''\<rparr>"

definition cross_config :: KVCacheConfig where
  "cross_config = \<lparr>num_blocks = 3, kv_cache_tensors = [],
     kv_cache_groups = [\<lparr>layer_names = [''self''], group_spec = sample_full_spec\<rparr>, \<lparr>layer_names = [''cross''], group_spec = cross_spec\<rparr>]\<rparr>"

lemma cross_config_ok: "config_ok cross_config False 2 1 1"
  by (simp add: config_ok_def cross_config_def cross_spec_def)

lemma cross_init:
  "\<exists>k mf mc. KVCacheManager_init cross_config 16 2 False False False False 1 1 False = Inr k \<and>
    managers k = [mf, mc] \<and> num_kv_cache_groups k = 2 \<and> kvm_max_model_len k = 16 \<and> \<not> kvm_enable_caching k \<and>
    num_gpu_blocks (kvm_pool k) = 3 \<and>
    mgr_class mf = FullAttentionManager \<and> kv_cache_spec mf = sample_full_spec \<and> mgr_block_size mf = 2 \<and>
    mgr_class mc = CrossAttentionManager \<and> kv_cache_spec mc = cross_spec \<and> mgr_block_size mc = 2 \<and>
    req_to_blocks mf = [] \<and> req_to_blocks mc = [] \<and> num_cached_block mf = [] \<and> num_cached_block mc = []"
proof -
  obtain p where "BlockPool_init 3 False 2 False False = Inr p" "num_gpu_blocks p = 3"
    using BlockPool_init_spec[of 3 False 2 False False] by auto
  then show ?thesis
    by (simp add: KVCacheManager_init_def get_kv_cache_coordinator_def NoPrefixCache_init_def KVCacheCoordinator_init_def
      cross_config_def get_manager_for_kv_cache_spec_def SingleTypeKVCacheManager_init_def) (simp add: cross_spec_def SingleTypeKVCacheManager_init_def group_block_size_def)
qed

lemma all_two: "(\<forall>i<length [a, b]. P i) \<longleftrightarrow> P 0 \<and> P 1"
  by (auto simp: less_Suc_eq)

text \<open>The first allocation of a request with two tokens and two encoder tokens takes both blocks.\<close>

lemma cross_first:
  "\<exists>k mf mc. kvm_reachable k \<and> kvm_ok k [] \<and> managers k = [mf, mc] \<and> kvm_max_model_len k = 16 \<and>
    mgr_class mf = FullAttentionManager \<and> kv_cache_spec mf = sample_full_spec \<and> mgr_block_size mf = 2 \<and>
    mgr_class mc = CrossAttentionManager \<and> mgr_block_size mc = 2 \<and>
    length (table mf ''a'') = 1 \<and> length (table mc ''a'') = 1"
proof -
  obtain k mf mc where i: "KVCacheManager_init cross_config 16 2 False False False False 1 1 False = Inr k"
    and ms: "managers k = [mf, mc]" "num_kv_cache_groups k = 2" "kvm_max_model_len k = 16" "\<not> kvm_enable_caching k"
      "num_gpu_blocks (kvm_pool k) = 3"
    and mf: "mgr_class mf = FullAttentionManager" "kv_cache_spec mf = sample_full_spec" "mgr_block_size mf = 2"
    and mc: "mgr_class mc = CrossAttentionManager" "kv_cache_spec mc = cross_spec" "mgr_block_size mc = 2"
    and e: "req_to_blocks mf = []" "req_to_blocks mc = []" "num_cached_block mf = []" "num_cached_block mc = []"
    using cross_init by blast
  have r: "kvm_reachable k" by (rule kvm_reachable.init[OF cross_config_ok i])
  have ok: "kvm_ok k [Blk 1, Blk 2]"
    using kvm_init_ok(1)[OF cross_config_ok i] by (simp add: cross_config_def upt_rec eval_nat_numeral)
  have t: "table mf q = []" "table mc q = []" for q using e by (simp_all add: table_def)
  have st: "slot_tokens k sample_req 2 0 0 = 2" "cache_tokens sample_req 2 0 = 2" using ms(3) by (simp_all add: slot_tokens_def cache_tokens_def)
  have rq: "required mf 2 = 1" "required mc 2 = 1" "toks 2 2 mf = 2" "toks 2 2 mc = 2"
    using mf mc by (simp_all add: required_def mgr_num_tokens_def cdiv_def toks_def)
  have w: "window_ok mf" "window_ok mc" using mf mc by (simp_all add: window_ok_def sample_full_spec_def cross_spec_def)
  have g: "given_blocks k None = EmptyKVCacheBlocks (num_kv_cache_groups k)" by (simp add: given_blocks_def)
  have may: "may_allocate k sample_req (given_blocks k None) (slot_tokens k sample_req 2 0 0) 2 (cache_tokens sample_req 2 0) False"
    unfolding g by (rule may_allocate_new) (use ok ms e t w in \<open>auto simp: kvm_ok_def st\<close>)
  have l: "lack ''a'' 2 2 [] mf = 1" "lack ''a'' 2 2 [] mc = 1" using t rq by (simp_all add: lack_def)
  have bss: "kv_blocks (given_blocks k None) = [[], []]" by (simp add: g ms(2) numeral_2_eq_2)
  note spec = allocate_slots_spec[OF ok, of 2 sample_req None 0 0 2 False, folded given_blocks_def slot_tokens_def cache_tokens_def, OF _ may]
  have two: "(\<Sum>i<length [a, b]. f i) = f 0 + f 1" for f :: "nat \<Rightarrow> 'x :: comm_monoid_add" and a b :: kv_manager by simp
  obtain d k' news ms' p' where a: "allocate_slots sample_req 2 0 None 0 False 2 k = Inr (Some (create_kv_cache_blocks k news), k')"
    and k': "concat news = [Blk 1, Blk 2]" "kvm_ok k' d" "k' = with_state k ms' p'" "pool_frame (kvm_pool k) p'"
      "granted [mf, mc] ''a'' [[], []] 2 2 news ms'"
    using spec unfolding Let_def bss ms(1) two st by (auto simp: l avail_nothing)
  have gr: "length ms' = 2" "same_mgr mf (ms' ! 0)" "same_mgr mc (ms' ! 1)"
    "table (ms' ! 0) ''a'' = news ! 0" "table (ms' ! 1) ''a'' = news ! 1" "length (news ! 0) = 1" "length (news ! 1) = 1" "length news = 2"
    using k'(5) t l unfolding granted_def all_two by (auto simp: nulled_def)
  obtain m0 m1 where m: "ms' = [m0, m1]" using gr(1) by (auto simp: numeral_2_eq_2 length_Suc_conv)
  have "news = [[Blk 1], [Blk 2]]" using gr(6-8) k'(1) by (auto simp: numeral_2_eq_2 length_Suc_conv)
  then have tt: "table m0 ''a'' = [Blk 1]" "table m1 ''a'' = [Blk 2]" using gr(4,5) m by auto
  have kv: "kv_ok [m0, m1] p' d []" and mk: "managers k' = [m0, m1]" "kvm_max_model_len k' = 16" using k'(2,3) m ms(3) by (auto simp: kvm_ok_def)
  have pb: "b \<in> pool_blocks p' \<longleftrightarrow> b = Blk 0 \<or> b = Blk 1 \<or> b = Blk 2" for b
    using k'(4) ms(5) unfolding pool_blocks_def pool_frame_def by (auto simp: eval_nat_numeral less_Suc_eq)
  have "0 < held [m0, m1] (Blk 1)" "0 < held [m0, m1] (Blk 2)"
    using held_member[of m0 "[m0, m1]" "''a''" "Blk 1"] held_member[of m1 "[m0, m1]" "''a''" "Blk 2"] tt by simp_all
  then have "0 < rc p' (Blk 1)" "0 < rc p' (Blk 2)" using kv_invD(3)[OF kv_okD(1)[OF kv], of "Blk 1"] kv_invD(3)[OF kv_okD(1)[OF kv], of "Blk 2"] pb[of "Blk 1"] pb[of "Blk 2"] by simp_all
  then have "b \<notin> set d" for b unfolding pool_invD(2)[OF kv_okD(2)[OF kv]] mem_Collect_eq pb by auto
  then have "d = []" by (cases d) auto
  moreover have "kvm_reachable k'" by (rule kvm_reachable.step[OF r kvm_step.slots[OF _ may a]]) simp
  ultimately show ?thesis using k'(2) mk tt gr(2,3) m mf mc by (intro exI[of _ k'] exI[of _ m0] exI[of _ m1]) (auto simp: same_mgr_def)
qed

text \<open>
  C32: the block count of a model with cross attention is too small for running requests, and \<open>allocate_slots\<close> then
  raises instead of returning \<open>None\<close>. In any reachable state of a model with a full attention and a cross attention
  group, let a request that holds cross attention blocks ask for slots without encoder tokens, as the
  scheduler does for running requests. If it lacks more full attention blocks than are free, but not more
  than the free blocks and its cross attention blocks together, then the call raises \<open>ValueError\<close>.
\<close>

theorem running_cross_request_raises:
  fixes k r nn la
  defines "lacking m \<equiv> required m (slot_tokens k r nn 0 la) - int (length (table m (request_id r)))"
  assumes "kvm_reachable k" "managers k = [mf, mc]" "mgr_class mf = FullAttentionManager" "mgr_class mc = CrossAttentionManager"
    and "nn \<noteq> 0" "table mc (request_id r) \<noteq> []"
    and "get_num_free_blocks (kvm_pool k) < lacking mf"
    and "lacking mf \<le> get_num_free_blocks (kvm_pool k) + int (length (table mc (request_id r)))"
  shows "allocate_slots r nn 0 None la delay 0 k = Inl ValueError"
proof -
  obtain free where ok: "kvm_ok k free" using kvm_reachable_ok[OF assms(2)] by blast
  then have kv: "kv_ok [mf, mc] (kvm_pool k) free []" and sp: "spec_ok mc" using assms(3) by (auto simp: kvm_ok_def kvm_config_def)
  have n: "get_num_free_blocks (kvm_pool k) = int (length free)" by (rule pool_inv_num_free[OF kv_okD(2)[OF kv]])
  have "required mc 0 = 0" using sp assms(5) by (cases "kv_cache_spec mc") (auto simp: required_def mgr_num_tokens_def spec_ok_def cdiv_def)
  then show ?thesis
    using cross_overcommit[OF ok assms(3-6), of r la 0 delay] assms(8,9) unfolding lacking_def n by simp
qed

theorem running_cross_request_raises_witness:
  "\<exists>k r. kvm_reachable k \<and> get_num_free_blocks (kvm_pool k) = 0 \<and> num_computed_tokens r = 2 \<and>
    table (managers k ! 1) (request_id r) \<noteq> [] \<and> allocate_slots r 1 0 None 0 False 0 k = Inl ValueError"
proof -
  obtain k mf mc where k: "kvm_reachable k" "kvm_ok k []" "managers k = [mf, mc]" "kvm_max_model_len k = 16"
    and mf: "mgr_class mf = FullAttentionManager" "kv_cache_spec mf = sample_full_spec" "mgr_block_size mf = 2"
    and mc: "mgr_class mc = CrossAttentionManager" "mgr_block_size mc = 2"
    and t: "length (table mf ''a'') = 1" "length (table mc ''a'') = 1"
    using cross_first by blast
  define r where "r = sample_req\<lparr>num_computed_tokens := 2\<rparr>"
  have r: "request_id r = ''a''" "num_computed_tokens r = 2" using sample_req_sel(1) by (simp_all add: r_def del: sample_req_sel)
  have st: "slot_tokens k r 1 0 0 = 3" using k(4) r by (simp add: slot_tokens_def)
  have rq: "required mf 3 = 2" using mf by (simp add: required_def mgr_num_tokens_def cdiv_def)
  have ne: "table mc ''a'' \<noteq> []" using t(2) by auto
  have n: "get_num_free_blocks (kvm_pool k) = 0" using k(2) pool_inv_num_free[OF kv_okD(2)] by (fastforce simp: kvm_ok_def)
  have "allocate_slots r 1 0 None 0 False 0 k = Inl ValueError"
    by (rule running_cross_request_raises[OF k(1,3) mf(1) mc(1)]) (use r st rq t n ne in simp_all)
  then show ?thesis using k(1,3) n r ne by (intro exI[of _ k] exI[of _ r]) simp
qed

end
