(* ===== verification/Hybrid_Lookup.thy ===== *)
theory Hybrid_Lookup
  imports KV_Lookup
begin

text \<open>
  The prefix cache lookup of a model with full attention and one other kind of groups
  (\<open>HybridKVCacheCoordinator\<close>): what the constructor establishes and all operations keep, and the soundness of the
  combined lookup in every reachable state.
\<close>

section \<open>Hashes at the granularity of a group\<close>

lemma hashes_for_spec:
  assumes "0 < hbs" "0 < bs" "bs mod hbs = 0"
  shows "hashes_for hs hbs bs = Inr (scaled_hashes hbs bs hs)"
proof (cases "bs = hbs")
  case False
  then show ?thesis using bhl_scaled[OF assms, of hs] by (auto simp: hashes_for_def)
qed (use assms(1) in \<open>simp add: hashes_for_def scaled_same\<close>)

lemma scaled_enough:
  assumes "0 < hbs" "0 < bs" "bs mod hbs = 0" "0 \<le> n" "n \<le> n'" "n' div hbs \<le> int (length hs)"
  shows "nat (n div bs) \<le> length (scaled_hashes hbs bs hs)"
proof -
  have "n div hbs \<le> int (length hs)" using zdiv_mono1[OF assms(5,1)] assms(6) by linarith
  then have "n div bs \<le> int (length (scaled_hashes hbs bs hs))" by (rule scaled_covers(1)[OF assms(1-3) _ assms(4)])
  then show ?thesis by linarith
qed

section \<open>What the operations of a coordinator keep\<close>

definition frozen :: "kv_coordinator \<Rightarrow> coordinator_class \<times> bool \<times> int" where
  "frozen co = (coord_class co, coord_use_eagle co, coord_hash_block_size co)"

lemma frozen_update [simp]:
  "frozen (co\<lparr>single_type_managers := ms\<rparr>) = frozen co" "frozen (co\<lparr>coord_pool := p\<rparr>) = frozen co"
  by (simp_all add: frozen_def)

lemma on_managers_frozen: "on_managers f co = Inr (xs, co') \<Longrightarrow> frozen co' = frozen co"
  by (auto simp: on_managers_def res_bind_eq_Inr)

lemma coord_frozen:
  "coord_cache_blocks r n co = Inr co' \<Longrightarrow> frozen co' = frozen co"
  "coord_free rid co = Inr co' \<Longrightarrow> frozen co' = frozen co"
  "coord_get_num_common_prefix_blocks rid co = Inr (ks, co') \<Longrightarrow> frozen co' = frozen co"
  by (auto simp: coord_cache_blocks_def coord_free_def coord_get_num_common_prefix_blocks_def res_bind_eq_Inr
      dest: on_managers_frozen split: if_splits)

lemma kvm_step_frozen:
  assumes "kvm_step k k'" "kvm_ok k free"
  shows "frozen (coordinator k') = frozen (coordinator k)"
  using assms
proof (induction rule: kvm_step.induct)
  case (slots nn k r ncb nnc la enc delay res k')
  obtain ms p where "k' = with_state k ms p"
    using allocate_slots_spec[OF slots(4,1), of r ncb nnc la enc delay] slots(2,3)
    by (auto simp: given_blocks_def slot_tokens_def cache_tokens_def Let_def split: if_splits)
  then show ?case by simp
next
  case (lookup r k x k')
  then show ?case
    by (cases "prefix_cache_stats k") (auto simp: get_computed_blocks_def Let_def res_bind_eq_Inr split: if_splits prod.splits)
next
  case (reset k d k')
  then show ?case by (auto simp: kvm_reset_prefix_cache_def set_pool_def split: prod.splits if_splits option.splits)
qed (auto simp: kvm_free_def kvm_cache_blocks_def kvm_get_num_common_prefix_blocks_def make_prefix_cache_stats_def
    kvm_take_events_def set_pool_def res_bind_eq_Inr dest: coord_frozen split: if_splits prod.splits)

section \<open>What the constructor establishes\<close>

definition split_ok :: "hybrid_split \<Rightarrow> kv_coordinator \<Rightarrow> bool" where
  "split_ok sp co \<longleftrightarrow> is_full_attention_spec (full_attention_spec sp) \<and>
     spec_manager_map (other_spec sp) = Some (other_attention_cls sp) \<and>
     groups_ok (full_attention_group_ids sp) \<and> groups_ok (other_group_ids sp) \<and>
     0 < spec_block_size (full_attention_spec sp) \<and> 0 < spec_block_size (other_spec sp) \<and>
     lcm_block_size sp = lcm (spec_block_size (full_attention_spec sp)) (spec_block_size (other_spec sp)) \<and>
     0 < coord_hash_block_size co \<and> spec_block_size (full_attention_spec sp) mod coord_hash_block_size co = 0 \<and>
     spec_block_size (other_spec sp) mod coord_hash_block_size co = 0"

lemma split_ok_frozen: "frozen co' = frozen co \<Longrightarrow> split_ok sp co' = split_ok sp co"
  by (simp add: frozen_def split_ok_def)

text \<open>The loop over the groups: \<open>full\<close> and \<open>other\<close> are the formats of the groups whose ids have been collected.\<close>

definition split_inv :: "KVCacheGroupSpec list \<Rightarrow> bool \<Rightarrow> KVCacheSpec option \<Rightarrow> int list \<Rightarrow> bool" where
  "split_inv gs kind spec ids \<longleftrightarrow> (spec = None \<longleftrightarrow> ids = []) \<and> (\<forall>i \<in> set ids. \<exists>j<length gs. i = int j \<and> spec = Some (group_spec (gs ! j)) \<and>
     is_full_attention_spec (group_spec (gs ! j)) = kind)"

lemma split_inv_mono: "split_inv gs kind spec ids \<Longrightarrow> split_inv (gs @ hs) kind spec ids"
  by (force simp: split_inv_def nth_append)

lemma split_inv_add:
  assumes "split_inv gs kind spec ids" "spec = None \<or> spec = Some (group_spec g)" "is_full_attention_spec (group_spec g) = kind"
  shows "split_inv (gs @ [g]) kind (Some (group_spec g)) (ids @ [int (length gs)])"
  using assms by (force simp: split_inv_def nth_append)

lemma split_loop_inv:
  assumes "split_loop (int (length xs)) gs full other fi oi = Inr (full', other', fi', oi')"
    and "split_inv xs True full fi" "split_inv xs False other oi"
  shows "split_inv (xs @ gs) True full' fi' \<and> split_inv (xs @ gs) False other' oi'"
  using assms
proof (induction gs arbitrary: xs full other fi oi)
  case (Cons g gs)
  have i: "int (length (xs @ [g])) = int (length xs) + 1" by simp
  show ?case
  proof (cases "is_full_attention_spec (group_spec g)")
    case True
    then have l: "full = None \<or> full = Some (group_spec g)"
      "split_loop (int (length (xs @ [g]))) gs (Some (group_spec g)) other (fi @ [int (length xs)]) oi = Inr (full', other', fi', oi')"
      using Cons.prems(1) unfolding i by (auto simp: res_bind_assert split: if_splits)
    have "is_full_attention_spec (group_spec g) = True" using True by simp
    from Cons.IH[OF l(2) split_inv_add[OF Cons.prems(2) l(1) this] split_inv_mono[OF Cons.prems(3)]] show ?thesis by simp
  next
    case False
    then have l: "other = None \<or> other = Some (group_spec g)"
      "split_loop (int (length (xs @ [g]))) gs full (Some (group_spec g)) fi (oi @ [int (length xs)]) = Inr (full', other', fi', oi')"
      using Cons.prems(1) unfolding i by (auto simp: res_bind_assert split: if_splits)
    have "is_full_attention_spec (group_spec g) = False" using False by simp
    from Cons.IH[OF l(2) split_inv_mono[OF Cons.prems(2)] split_inv_add[OF Cons.prems(3) l(1) this]] show ?thesis by simp
  qed
qed simp

lemma verify_split:
  assumes "verify_and_split_kv_cache_groups co = Inr sp"
  shows "split_loop 0 (kv_cache_groups (kv_cache_config co)) None None [] [] = Inr (Some (full_attention_spec sp), Some (other_spec sp),
      full_attention_group_ids sp, other_group_ids sp)"
    "other_attention_cls sp = mgr_class (single_type_managers co ! nat (hd (other_group_ids sp)))"
    "lcm_block_size sp = lcm (spec_block_size (full_attention_spec sp)) (spec_block_size (other_spec sp))"
proof -
  obtain f' o' fi oi where l: "split_loop 0 (kv_cache_groups (kv_cache_config co)) None None [] [] = Inr (f', o', fi, oi)"
    using assms by (auto simp: verify_and_split_kv_cache_groups_def res_bind_eq_Inr)
  obtain f where f: "f' = Some f" using assms by (cases f') (auto simp: verify_and_split_kv_cache_groups_def l)
  obtain x where x: "o' = Some x" using assms by (cases o') (auto simp: verify_and_split_kv_cache_groups_def l f)
  show "split_loop 0 (kv_cache_groups (kv_cache_config co)) None None [] [] = Inr (Some (full_attention_spec sp), Some (other_spec sp),
      full_attention_group_ids sp, other_group_ids sp)"
    "other_attention_cls sp = mgr_class (single_type_managers co ! nat (hd (other_group_ids sp)))"
    "lcm_block_size sp = lcm (spec_block_size (full_attention_spec sp)) (spec_block_size (other_spec sp))"
    using assms by (auto simp: verify_and_split_kv_cache_groups_def l f x Let_def split: if_splits)
qed

lemma split_inv_groups:
  assumes "split_inv gs kind (Some spec) ids" "length gs \<le> 2 ^ 32"
  shows "groups_ok ids" "nat (hd ids) < length gs" "spec = group_spec (gs ! nat (hd ids))" "is_full_attention_spec spec = kind" "ids \<noteq> []"
proof -
  show ne: "ids \<noteq> []" using assms(1) by (auto simp: split_inv_def)
  have j: "\<exists>j<length gs. i = int j \<and> spec = group_spec (gs ! j) \<and> is_full_attention_spec spec = kind" if "i \<in> set ids" for i
    using assms(1) that by (auto simp: split_inv_def)
  then have "group_ok i" if "i \<in> set ids" for i using j[OF that] assms(2) by auto
  then show "groups_ok ids" using ne by (simp add: groups_ok_def)
  show "nat (hd ids) < length gs" "spec = group_spec (gs ! nat (hd ids))" "is_full_attention_spec spec = kind"
    using j[OF hd_in_set[OF ne]] by auto
qed

lemma hybrid_init_split:
  assumes cf: "config_ok cfg True hbs dcp pcp" and init: "Hybrid_init cfg max_len eagle True kv_events dcp pcp hbs use_int = Inr co"
    and cls: "coord_class co = HybridKVCacheCoordinator sp"
  shows "split_ok sp co"
proof -
  let ?gs = "kv_cache_groups cfg"
  obtain rems co0 where c0: "KVCacheCoordinator_init KVCacheCoordinatorNoPrefixCache cfg max_len eagle True kv_events dcp pcp hbs use_int = Inr co0"
    and rems: "res_map (\<lambda>g. py_mod (spec_block_size (group_spec g)) hbs) ?gs = Inr rems" "\<forall>k \<in> set rems. k = 0"
    and v: "verify_and_split_kv_cache_groups co0 = Inr sp" and h: "coord_hash_block_size co = coord_hash_block_size co0"
    using init cls by (auto simp: Hybrid_init_def res_bind_eq_Inr res_bind_assert split: if_splits)
  obtain p ms where co: "make_managers p dcp pcp 0 ?gs = Inr ms" "single_type_managers co0 = ms" "kv_cache_config co0 = cfg" "coord_hash_block_size co0 = hbs"
    using c0 by (auto simp: KVCacheCoordinator_init_def res_bind_eq_Inr)
  note l = verify_split[OF v, unfolded co(2,3)]
  have hbs: "0 < hbs" and gpos: "\<forall>g \<in> set ?gs. 0 < spec_block_size (group_spec g)" and gl: "length ?gs \<le> 2 ^ 32"
    using cf by (auto simp: config_ok_def)
  have inv: "split_inv ?gs True (Some (full_attention_spec sp)) (full_attention_group_ids sp)"
    "split_inv ?gs False (Some (other_spec sp)) (other_group_ids sp)"
    using split_loop_inv[of "[]" ?gs None None "[]" "[]"] l(1) by (auto simp: split_inv_def)
  note f = split_inv_groups[OF inv(1) gl] and g = split_inv_groups[OF inv(2) gl]
  have mem: "?gs ! nat (hd (full_attention_group_ids sp)) \<in> set ?gs" "?gs ! nat (hd (other_group_ids sp)) \<in> set ?gs" using f(2) g(2) by auto
  have "spec_manager_map (other_spec sp) = Some (other_attention_cls sp)"
    using make_managers_spec(2)[OF co(1) g(2)] g(3) l(2) by (auto simp: SingleTypeKVCacheManager_init_def)
  moreover have "spec_block_size (full_attention_spec sp) mod hbs = 0" "spec_block_size (other_spec sp) mod hbs = 0"
    using res_map_mods[OF rems _ mem(1)] res_map_mods[OF rems _ mem(2)] hbs f(3) g(3) by simp_all
  ultimately show ?thesis using f g gpos mem hbs l(3) co(4) h by (auto simp: split_ok_def)
qed

lemma unitary_class: "Unitary_init cfg max_len eagle caching kv_events dcp pcp hbs use_int = Inr co \<Longrightarrow> coord_class co \<noteq> HybridKVCacheCoordinator sp"
  by (cases "kv_cache_groups cfg") (auto simp: Unitary_init_def res_bind_eq_Inr res_bind_assert Let_def split: if_splits)

lemma hybrid_reachable_split:
  assumes "kvm_reachable k" "coord_class (coordinator k) = HybridKVCacheCoordinator sp"
  shows "split_ok sp (coordinator k)"
  using assms
proof (induction rule: kvm_reachable.induct)
  case (init cfg caching hbs dcp pcp max_len eagle log_st use_int k)
  then have "caching" "Hybrid_init cfg max_len eagle True False dcp pcp hbs use_int = Inr (coordinator k)"
    using unitary_class[of cfg max_len eagle True False dcp pcp hbs use_int "coordinator k" sp]
    by (auto simp: KVCacheManager_init_def get_kv_cache_coordinator_def NoPrefixCache_init_def KVCacheCoordinator_init_def
        res_bind_eq_Inr split: if_splits)
  then show ?case using hybrid_init_split[OF _ _ init.prems] init(1) by simp
next
  case (step k k')
  obtain free where "kvm_ok k free" using kvm_reachable_ok[OF step(1)] by blast
  then have f: "frozen (coordinator k') = frozen (coordinator k)" by (rule kvm_step_frozen[OF step(2)])
  then have "coord_class (coordinator k) = HybridKVCacheCoordinator sp" using step.prems by (simp add: frozen_def)
  then show ?case using step.IH split_ok_frozen[OF f] by simp
qed

section \<open>Soundness\<close>

lemma full_needed: "is_full_attention_spec spec \<Longrightarrow> 0 < bs \<Longrightarrow> needed_block spec bs k i"
  by (cases spec) (auto simp: needed_block_def intro!: mult_pos_pos)

lemma unit_block_size [simp]: "group_block_size spec 1 1 = spec_block_size spec"
  by (simp add: group_block_size_def)

lemma hybrid_hit_spec:
  fixes co :: kv_coordinator and sp :: hybrid_split and hs :: "bytes list"
  defines "fb \<equiv> spec_block_size (full_attention_spec sp)" and "ob \<equiv> spec_block_size (other_spec sp)"
    and "h \<equiv> coord_hash_block_size co" and "p \<equiv> coord_pool co"
  assumes "pool_inv p free" "split_ok sp co" "0 \<le> max_length" "max_length div h \<le> int (length hs)"
    and "lookup_supported (other_attention_cls sp) (other_spec sp) (coord_use_eagle co) (lcm_block_size sp) 1 1" "chunk_positive (other_spec sp)"
  shows "\<exists>cf oc kf ko. hybrid_find_longest_cache_hit sp co hs max_length =
      Inr (if full_attn_first sp then cf @ oc else oc @ cf, int ko * ob) \<and>
    int ko * ob \<le> max_length \<and> int kf * fb = int ko * ob \<and>
    mat p (full_attention_group_ids sp) (scaled_hashes h fb hs) kf (\<lambda>_. True) cf \<and>
    mat p (other_group_ids sp) (scaled_hashes h ob hs) ko (\<lambda>i. chunk_aligned (other_spec sp) \<and> needed_block (other_spec sp) ob ko i) oc"
proof -
  let ?F = "full_attention_spec sp" and ?O = "other_spec sp" and ?A = "lcm_block_size sp"
  have s: "is_full_attention_spec ?F" "lookup_supported (other_attention_cls sp) ?O (coord_use_eagle co) ?A 1 1"
    "groups_ok (full_attention_group_ids sp)" "groups_ok (other_group_ids sp)" "0 < fb" "0 < ob" "?A = lcm fb ob"
    "0 < h" "fb mod h = 0" "ob mod h = 0"
    using assms(6,9) by (auto simp: split_ok_def fb_def ob_def h_def)
  have A: "0 < ?A" using s(5,6) by (simp add: s(7) lcm_pos_int)
  have fs: "full_spec_ok ?F" using s(1) by (simp add: full_spec_ok_def)
  have cp: "chunk_positive ?F" "chunk_aligned ?F" using s(1) by (cases ?F; simp add: chunk_positive_def chunk_aligned_def)+
  have g: "group_block_size ?F 1 1 = fb" "group_block_size ?O 1 1 = ob" by (simp_all add: fb_def ob_def)
  have e1: "nat (max_length div fb) \<le> length (scaled_hashes h fb hs)"
    by (rule scaled_enough[OF s(8,5,9) assms(7) order_refl assms(8)])
  have ls: "lookup_supported FullAttentionManager ?F (coord_use_eagle co) ?A 1 1" using fs by simp
  obtain c1 k1 where c1: "find_longest_cache_hit FullAttentionManager (scaled_hashes h fb hs) max_length (full_attention_group_ids sp) p
      ?F (coord_use_eagle co) ?A 1 1 = Inr c1" "int k1 * fb \<le> max_length"
    "mat p (full_attention_group_ids sp) (scaled_hashes h fb hs) k1 (\<lambda>i. chunk_aligned ?F \<and> needed_block ?F fb k1 i) c1"
    using cache_hit_spec[OF assms(5) s(3) ls cp(1), unfolded g, OF s(5) A assms(7) e1] by (elim exE conjE) (rule that; assumption)
  have nn: "0 \<le> int k1 * fb" using s(5) by simp
  have e2: "nat (int k1 * fb div ob) \<le> length (scaled_hashes h ob hs)"
    by (rule scaled_enough[OF s(8,6,10) nn c1(2) assms(8)])
  obtain oc ko where oc: "find_longest_cache_hit (other_attention_cls sp) (scaled_hashes h ob hs) (int k1 * fb) (other_group_ids sp) p
      ?O (coord_use_eagle co) ?A 1 1 = Inr oc" "int ko * ob \<le> int k1 * fb" "(int ko * ob) mod ?A = 0"
    "mat p (other_group_ids sp) (scaled_hashes h ob hs) ko (\<lambda>i. chunk_aligned ?O \<and> needed_block ?O ob ko i) oc"
    using cache_hit_spec[OF assms(5) s(4,2) assms(10), unfolded g, OF s(6) A nn e2] by (elim exE conjE) (rule that; assumption)
  have "fb dvd int ko * ob" using oc(3) s(7) by (metis dvd_lcm1 dvd_trans mod_0_imp_dvd)
  then obtain q where q: "int ko * ob = fb * q" by (elim dvdE)
  have "0 \<le> fb * q" using s(6) by (simp add: q[symmetric])
  then have "0 \<le> q" using s(5) by (simp add: zero_le_mult_iff)
  define kf where "kf = nat q"
  have kf: "int kf * fb = int ko * ob" "nat (int ko * ob div fb) = kf" using q \<open>0 \<le> q\<close> s(5) by (auto simp: kf_def)
  have "int kf * fb \<le> int k1 * fb" using kf(1) oc(2) by simp
  then have le: "kf \<le> k1" using s(5) by simp
  have m: "mat p (full_attention_group_ids sp) (scaled_hashes h fb hs) kf (\<lambda>_. True) (map (take kf) c1)"
    by (rule mat_mono[OF mat_take[OF c1(3) le]]) (simp add: full_needed[OF s(1,5)] cp(2))
  have ne: "full_attention_group_ids sp \<noteq> []" "other_group_ids sp \<noteq> []" using s(3,4) by (auto simp: groups_ok_def)
  obtain x y where xy: "first_group c1 = Inr x" "length x = k1" "first_group oc = Inr y" "length y = ko"
    using mat_first[OF c1(3) ne(1)] mat_first[OF oc(4) ne(2)] by blast
  have md: "int ko * ob mod fb = 0" using \<open>fb dvd int ko * ob\<close> by simp
  have "hybrid_find_longest_cache_hit sp co hs max_length =
      Inr (if full_attn_first sp then map (take kf) c1 @ oc else oc @ map (take kf) c1, int ko * ob)"
    unfolding hybrid_find_longest_cache_hit_def Let_def fb_def[symmetric] ob_def[symmetric] h_def[symmetric] p_def[symmetric]
      hashes_for_spec[OF s(8,5,9)] hashes_for_spec[OF s(8,6,10)]
    using c1(1) oc(1) xy s(5) md kf(2) by simp
  moreover have "int ko * ob \<le> max_length" using c1(2) oc(2) by linarith
  ultimately show ?thesis using oc(4) kf(1) m by blast
qed

text \<open>
  C11: in every reachable state of a hybrid model, whose other kind of groups satisfies the assertions of its lookup and has no
  chunk size that is not positive, the lookup never fails. It returns a hit length within the limit that is
  a multiple of both block sizes, so the assertion on the block size of full attention holds; for every group, in the
  order of the groups, it returns one block per block size up to the hit length, each the null block or cached under the
  hash of the request at that granularity, and the latter wherever the attention of the next token reads. For chunked
  local attention this last part holds when the block size divides the chunk size, which the code does not check.
\<close>

theorem hybrid_hit_sound:
  fixes k :: KVCacheManager and sp :: hybrid_split and hs :: "bytes list"
  defines "fb \<equiv> spec_block_size (full_attention_spec sp)" and "ob \<equiv> spec_block_size (other_spec sp)"
    and "h \<equiv> coord_hash_block_size (coordinator k)" and "p \<equiv> kvm_pool k"
  assumes "kvm_reachable k" "coord_class (coordinator k) = HybridKVCacheCoordinator sp"
    and "lookup_supported (other_attention_cls sp) (other_spec sp) (coord_use_eagle (coordinator k)) (lcm_block_size sp) 1 1"
      "chunk_positive (other_spec sp)"
    and "0 \<le> max_length" "max_length div h \<le> int (length hs)"
  shows "\<exists>cf oc kf ko. coord_find_longest_cache_hit (coordinator k) hs max_length =
      Inr (if full_attn_first sp then cf @ oc else oc @ cf, int ko * ob) \<and>
    int ko * ob \<le> max_length \<and> int kf * fb = int ko * ob \<and>
    mat p (full_attention_group_ids sp) (scaled_hashes h fb hs) kf (\<lambda>_. True) cf \<and>
    mat p (other_group_ids sp) (scaled_hashes h ob hs) ko (\<lambda>i. chunk_aligned (other_spec sp) \<and> needed_block (other_spec sp) ob ko i) oc"
proof -
  obtain free where "kvm_ok k free" using kvm_reachable_ok[OF assms(5)] by blast
  then have "pool_inv (kvm_pool k) free" by (auto simp: kvm_ok_def dest: kv_okD(2))
  from hybrid_hit_spec[OF this hybrid_reachable_split[OF assms(5,6)] assms(9) assms(10)[unfolded h_def] assms(7,8)] show ?thesis
    unfolding fb_def ob_def h_def p_def coord_find_longest_cache_hit_def assms(6) coordinator_class.case .
qed

section \<open>A concrete hybrid manager\<close>

definition window_spec :: KVCacheSpec where
  "window_spec = SlidingWindowSpec \<lparr>as_block_size = 4, num_kv_heads = 1, head_size = 8, as_dtype = ''half''\<rparr> 3"

definition hybrid_config :: KVCacheConfig where
  "hybrid_config = \<lparr>num_blocks = 4, kv_cache_tensors = [],
     kv_cache_groups = [\<lparr>layer_names = [''f''], group_spec = sample_full_spec\<rparr>, \<lparr>layer_names = [''w''], group_spec = window_spec\<rparr>]\<rparr>"

definition sample_split :: hybrid_split where
  "sample_split = \<lparr>full_attention_group_ids = [0], other_group_ids = [1], other_attention_cls = SlidingWindowManager,
     full_attention_spec = sample_full_spec, other_spec = window_spec, lcm_block_size = 4, full_attn_first = True\<rparr>"

lemma hybrid_sample:
  "\<exists>k. kvm_reachable k \<and> coord_class (coordinator k) = HybridKVCacheCoordinator sample_split \<and>
     coord_hash_block_size (coordinator k) = 2 \<and> \<not> coord_use_eagle (coordinator k)"
proof -
  have c: "config_ok hybrid_config True 2 1 1" by (simp add: config_ok_def hybrid_config_def window_spec_def)
  have "\<exists>k. KVCacheManager_init hybrid_config 16 2 True False False False 1 1 False = Inr k \<and>
      coord_class (coordinator k) = HybridKVCacheCoordinator sample_split \<and>
      coord_hash_block_size (coordinator k) = 2 \<and> \<not> coord_use_eagle (coordinator k)"
    by (simp add: KVCacheManager_init_def get_kv_cache_coordinator_def Hybrid_init_def KVCacheCoordinator_init_def hybrid_config_def
        sample_pool_init get_manager_for_kv_cache_spec_def window_spec_def verify_and_split_kv_cache_groups_def sample_split_def
        SingleTypeKVCacheManager_init_def py_mod_def)
  then show ?thesis using kvm_reachable.init[OF c] by blast
qed

theorem hybrid_hit_sound_witness:
  "\<exists>k cf oc ko. kvm_reachable k \<and> coord_class (coordinator k) = HybridKVCacheCoordinator sample_split \<and>
     coord_find_longest_cache_hit (coordinator k) [[5], [6], [7]] 7 = Inr (cf @ oc, int ko * 4) \<and> int ko * 4 \<le> 7"
proof -
  obtain k where k: "kvm_reachable k" "coord_class (coordinator k) = HybridKVCacheCoordinator sample_split"
    "coord_hash_block_size (coordinator k) = 2" "\<not> coord_use_eagle (coordinator k)" using hybrid_sample by blast
  have "lookup_supported (other_attention_cls sample_split) (other_spec sample_split) (coord_use_eagle (coordinator k)) (lcm_block_size sample_split) 1 1"
    "chunk_positive (other_spec sample_split)"
    using k(4) by (simp_all add: sample_split_def window_spec_def chunk_positive_def)
  from hybrid_hit_sound[OF k(1,2) this, of 7 "[[5], [6], [7]]"] show ?thesis
    using k by (auto simp: sample_split_def window_spec_def)
qed

end
