(* ===== verification/Skipped_Blocks.thy ===== *)
theory Skipped_Blocks
  imports KV_Manager_Theorems
begin

text \<open>
  Blocks outside the attention window: which entries of a request's table the managers of sliding window and
  chunked attention replace by the null block.
\<close>

section \<open>The scan\<close>




section \<open>Released blocks\<close>








end
