(* ===== verification/Spec2Isabelle.thy ===== *)
theory Spec2Isabelle
  imports Block_Pool Request_Queue Encoder_Cache Prefix_Cache_Lookup Cross_Attention Hybrid_Lookup Skipped_Blocks
begin

text \<open>
  A verification development for the scheduling and KV cache core of the vLLM engine
  (\<open>src/vllm/vllm/v1/core\<close>), on which the duplex streaming layer of this repository runs.

  \<^bold>\<open>The program.\<close> A \<^emph>\<open>request\<close> is a prompt whose tokens are computed step by step. The attention keys and
  values of its tokens live in fixed-size \<^emph>\<open>blocks\<close> of device memory. The \<^emph>\<open>block pool\<close> counts references to
  blocks, keeps the unreferenced ones in a doubly linked \<^emph>\<open>free queue\<close> in eviction order, and finds blocks with
  known content by hash. One \<^emph>\<open>block manager\<close> per attention type (full, sliding window, chunked local, Mamba, cross)
  keeps the block tables of all requests in its group of layers; the \<^emph>\<open>coordinator\<close> runs the managers of a model, and the
  \<^emph>\<open>KV cache manager\<close> is the interface of the scheduler: look up a cached prefix, allocate slots, release a request.
  Beside it stand the \<^emph>\<open>waiting queues\<close> and the \<^emph>\<open>cache of multimodal encoder outputs\<close>.

  \<^bold>\<open>Theories and sources\<close> (paths under \<open>src/vllm/vllm/v1\<close>).
  \<^item> \<open>Prelude\<close>: exceptions as values of a sum type, loops that may raise, integer division, dictionaries.
  \<^item> \<open>Free_Block_Queue\<close>: \<open>KVCacheBlock\<close> and \<open>FreeKVCacheBlockQueue\<close> of \<open>core/kv_cache_utils.py\<close>. Blocks are objects in an
    explicit store, the queue is its links. The linked list refines a plain list for every sequence of calls.
  \<^item> \<open>Requests\<close>: \<open>request.py\<close> and \<open>core/sched/utils.py\<close>: construction, tokens, status, order, stop check.
  \<^item> \<open>Block_Hash\<close>: hashing of \<open>core/kv_cache_utils.py\<close>: extra keys, hash chains, group ids, change of granularity.
    Hashing returns, is incremental, and equal hashes mean equal prefixes.
  \<^item> \<open>Block_Hash_Map\<close>, \<open>Block_Pool\<close>: \<open>core/block_pool.py\<close> with the events of \<open>distributed/kv_events.py\<close>. The pool invariant
    holds in every reachable state, and each operation has an exact specification.
  \<^item> \<open>Heapq\<close>, \<open>Request_Queue\<close>: the standard heap functions and \<open>core/sched/request_queue.py\<close>. Both queues refine an
    ordered list; the contract of the abstract class is a locale interpreted on both.
  \<^item> \<open>Encoder_Cache\<close>: \<open>core/encoder_cache_manager.py\<close>: exact slot accounting, eviction, budgets.
  \<^item> \<open>KV_Cache_Spec\<close>: \<open>kv_cache_interface.py\<close>: formats, page sizes, memory bounds, merging.
  \<^item> \<open>Single_Type_Manager\<close>, \<open>Prefix_Cache_Lookup\<close>: \<open>core/single_type_kv_cache_manager.py\<close>. Lookups return blocks with the
    content of the request wherever the next token reads, the full attention lookup the longest such prefix. The hypothesis
    \<open>lookup_supported\<close> is what the lookups assert. The code does not check that the block size divides the chunk size of
    chunked attention (\<open>chunk_aligned\<close>); where it does not, the lookup is shown to be unsound.
  \<^item> \<open>KV_Coordinator\<close>, \<open>KV_Cache_Manager\<close>: \<open>core/kv_cache_coordinator.py\<close>, \<open>core/kv_cache_manager.py\<close> and the prefix cache
    statistics of \<open>metrics/stats.py\<close>.
  \<^item> \<open>KV_Invariant\<close>, \<open>KV_Operations\<close>, \<open>KV_Allocation\<close>, \<open>KV_Slots\<close>, \<open>KV_Lifecycle\<close>: the invariant that ties the tables of
    all managers to the reference counts and hashes of the pool, the effect of each operation of one manager, of the loops
    over all managers, of \<open>allocate_slots\<close> as a whole, and the step relation of the KV cache manager.
  \<^item> \<open>KV_Manager_Theorems\<close>: the properties of the manager over all reachable states: the invariant, exactness of allocation and
    release, progress.
  \<^item> \<open>Skipped_Blocks\<close>: exactly which entries of a table are given up when tokens leave the attention window.
  \<^item> \<open>KV_Lookup\<close>: models with one group: a lookup can be followed by an allocation, and what was computed is found again.
  \<^item> \<open>Hybrid_Lookup\<close>: models with full attention and one other kind of groups: the split of the groups that the constructor
    establishes is kept by every step, and the lookup is sound for both kinds.
  \<^item> \<open>Cross_Attention\<close>: in every model with a full and a cross attention group a running request can make \<open>allocate_slots\<close>
    raise where it should refuse, with the exact condition on the numbers of blocks.

  \<^bold>\<open>Modelling choices.\<close> Objects that are shared and mutated (blocks) are references into a store. An exception is the left
  value of a result; every \<open>raise\<close>, failing \<open>assert\<close>, missing key and index is such a branch. Python integers are \<open>int\<close>,
  bytes are 8-bit words, dictionaries whose order matters are association lists. Loops are structural recursion or
  functions with a termination proof; pointer loops that may run forever are partial functions whose non-termination is
  \<open>None\<close>, and their termination on well-formed lists is proved. No fuel is used.

  \<^bold>\<open>Parameters.\<close> The hash function, with collision freedom as a hypothesis where equal hashes are to mean equal content; the
  byte size of a tensor type; the answers of the multimodal registry; the iteration order of Python sets; the clock.

  \<^bold>\<open>Hypotheses of the manager theorems.\<close> KV events are switched off and no cross attention group is used with prefix
  caching (\<open>config_ok\<close>); a call of \<open>allocate_slots\<close> satisfies the contract \<open>may_allocate\<close>, which the lookup establishes
  for new requests (\<open>lookup_then_allocate\<close>) and a granted call for running ones (\<open>allocated_request_runs\<close>).

  \<^bold>\<open>Not modelled.\<close> The step loop of the scheduler, which mixes these components with connectors, grammars and
  speculative decoding; the choice of the cache configuration from profiled memory (from line 608 of
  \<open>core/kv_cache_utils.py\<close>); the sampled cache metrics; workers, model code and kernels, which compute on tensors; KV
  transfer, engine processes, front ends, the omni pipeline and the duplex engine, which are processes, sockets and
  asynchronous tasks around tensors.
\<close>

end
